(* ===== verification/Py_Base.thy ===== *)
theory Py_Base
  imports Complex_Main "HOL-Library.List_Lexorder" "HOL-Library.Char_ord" "HOL-Library.AList"
begin

text \<open>
  The prelude of the development: the values and the operations of Python that the panel's
  code uses, with the lemmas the component theories share.

  \<^item> \<open>exc\<close> and \<open>'a res\<close>: a call that can raise returns \<open>Inl\<close> of the exception or
    \<open>Inr\<close> of the result; \<open>rbind\<close> is the sequencing that stops at the first exception.
  \<^item> \<open>py\<close>: what \<open>json.loads\<close> and a JSON column give back (None, bool, int, float, str,
    list, dict with string keys in insertion order).  A float is its exact rational value or
    one of the three special values; rounding of float arithmetic is not modelled.
  \<^item> strings are lists of code points below 256 (\<open>char\<close>).  Messages written in Russian are
    not spelled out: a definition that builds one returns a value of a datatype with one
    constructor per template.
  \<^item> Python's sets of strings are lists without repetition where the code only sorts,
    intersects or tests them.
\<close>

named_theorems py_simps \<open>unfolding rules of the Python value operations\<close>

section \<open>Exceptions\<close>

datatype exc = ValueError | TypeError | KeyError | IndexError | AttributeError | OverflowError | StructError

type_synonym 'a res = "exc + 'a"

fun rbind :: "'a res \<Rightarrow> ('a \<Rightarrow> 'b res) \<Rightarrow> 'b res" where
  "rbind (Inl e) f = Inl e"
| "rbind (Inr x) f = f x"

lemma rbind_Inr_iff: "rbind m f = Inr y \<longleftrightarrow> (\<exists>x. m = Inr x \<and> f x = Inr y)"
  by (cases m) auto

lemma rbind_Inl_iff: "rbind m f = Inl e \<longleftrightarrow> m = Inl e \<or> (\<exists>x. m = Inr x \<and> f x = Inl e)"
  by (cases m) auto

text \<open>A list comprehension whose body may raise.\<close>

fun rmap :: "('a \<Rightarrow> 'b res) \<Rightarrow> 'a list \<Rightarrow> 'b list res" where
  "rmap f [] = Inr []"
| "rmap f (x # xs) = rbind (f x) (\<lambda>y. rbind (rmap f xs) (\<lambda>ys. Inr (y # ys)))"

lemma rmap_Inr_iff: "rmap f xs = Inr ys \<longleftrightarrow> list_all2 (\<lambda>x y. f x = Inr y) xs ys"
  by (induction xs arbitrary: ys) (auto simp: rbind_Inr_iff list_all2_Cons1)

lemma rmap_total: "(\<exists>ys. rmap f xs = Inr ys) \<longleftrightarrow> (\<forall>x\<in>set xs. \<exists>y. f x = Inr y)"
  by (induction xs) (auto simp: rbind_Inr_iff)

section \<open>Values\<close>

datatype flt = Fin rat | PosInf | NegInf | NaN

datatype py =
    PNone
  | PBool bool
  | PInt int
  | PFlt flt
  | PStr string
  | PList "py list"
  | PDict "(string \<times> py) list"

type_synonym dict = "(string \<times> py) list"

text \<open>\<open>d.get(k)\<close>, \<open>d.get(k, v)\<close>, \<open>k in d\<close>, \<open>d[k] = v\<close> (in place for a key that is there,
  at the end for a new one), \<open>d.pop(k, None)\<close>.\<close>

definition dget :: "dict \<Rightarrow> string \<Rightarrow> py" where
  "dget d k = (case map_of d k of None \<Rightarrow> PNone | Some v \<Rightarrow> v)"

definition dget_or :: "dict \<Rightarrow> string \<Rightarrow> py \<Rightarrow> py" where
  "dget_or d k v0 = (case map_of d k of None \<Rightarrow> v0 | Some v \<Rightarrow> v)"

definition dhas :: "('k \<times> 'v) list \<Rightarrow> 'k \<Rightarrow> bool" where
  "dhas d k \<longleftrightarrow> map_of d k \<noteq> None"

abbreviation dset :: "'k \<Rightarrow> 'v \<Rightarrow> ('k \<times> 'v) list \<Rightarrow> ('k \<times> 'v) list" where
  "dset \<equiv> AList.update"

abbreviation dpop :: "'k \<Rightarrow> ('k \<times> 'v) list \<Rightarrow> ('k \<times> 'v) list" where
  "dpop \<equiv> AList.delete"

lemma dget_dset [simp]: "dget (dset k v d) k' = (if k = k' then v else dget d k')"
  by (simp add: dget_def update_conv')

lemma dget_dpop [simp]: "dget (dpop k d) k' = (if k = k' then PNone else dget d k')"
  by (simp add: dget_def delete_conv')

lemma dhas_dset [simp]: "dhas (dset k v d) k' \<longleftrightarrow> k = k' \<or> dhas d k'"
  by (simp add: dhas_def update_conv')

lemma dhas_dpop [simp]: "dhas (dpop k d) k' \<longleftrightarrow> k \<noteq> k' \<and> dhas d k'"
  by (simp add: dhas_def delete_conv')

lemma dget_Nil [simp]: "dget [] k = PNone"
  by (simp add: dget_def)

lemma dget_Cons [simp]: "dget ((k, v) # d) k' = (if k = k' then v else dget d k')"
  by (simp add: dget_def)

text \<open>Truth value of an object, and \<open>a or b\<close> on values.\<close>

fun truthy :: "py \<Rightarrow> bool" where
  "truthy PNone = False"
| "truthy (PBool b) = b"
| "truthy (PInt i) = (i \<noteq> 0)"
| "truthy (PFlt x) = (x \<noteq> Fin 0)"
| "truthy (PStr s) = (s \<noteq> [])"
| "truthy (PList xs) = (xs \<noteq> [])"
| "truthy (PDict d) = (d \<noteq> [])"

definition por :: "py \<Rightarrow> py \<Rightarrow> py" where
  "por a b = (if truthy a then a else b)"

text \<open>\<open>isinstance\<close> tests as partial projections.\<close>

fun as_dict :: "py \<Rightarrow> dict option" where
  "as_dict (PDict d) = Some d"
| "as_dict _ = None"

fun as_list :: "py \<Rightarrow> py list option" where
  "as_list (PList xs) = Some xs"
| "as_list _ = None"

fun as_str :: "py \<Rightarrow> string option" where
  "as_str (PStr s) = Some s"
| "as_str _ = None"

definition dict_or_empty :: "py \<Rightarrow> dict" where
  "dict_or_empty v = (case v of PDict d \<Rightarrow> d | _ \<Rightarrow> [])"

lemma dict_or_empty_simps [simp]:
  "dict_or_empty (PDict d) = d" "dict_or_empty PNone = []"
  by (simp_all add: dict_or_empty_def)

section \<open>Numbers\<close>

text \<open>The value of an int, a bool or a finite float; used by comparisons between numbers.\<close>

fun num_val :: "py \<Rightarrow> rat option" where
  "num_val (PBool b) = Some (if b then 1 else 0)"
| "num_val (PInt i) = Some (of_int i)"
| "num_val (PFlt (Fin r)) = Some r"
| "num_val _ = None"

text \<open>\<open>isinstance(v, (int, float))\<close>: bool is a subclass of int.\<close>

fun is_number :: "py \<Rightarrow> bool" where
  "is_number (PBool _) = True"
| "is_number (PInt _) = True"
| "is_number (PFlt _) = True"
| "is_number _ = False"

text \<open>\<open>int(float)\<close> truncates towards zero.\<close>

definition trunc :: "rat \<Rightarrow> int" where
  "trunc r = (if r < 0 then - \<lfloor>- r\<rfloor> else \<lfloor>r\<rfloor>)"

lemma trunc_of_int [simp]: "trunc (of_int i) = i"
proof -
  have "\<lfloor>- (of_int i :: rat)\<rfloor> = - i"
    by (metis floor_of_int of_int_minus)
  then show ?thesis
    by (simp add: trunc_def)
qed

text \<open>\<open>round(x)\<close> to the nearest integer, ties to the even one.\<close>

definition round_half_even :: "rat \<Rightarrow> int" where
  "round_half_even r =
     (let f = \<lfloor>r\<rfloor>; d = r - of_int f
      in if d < 1 / 2 then f else if d > 1 / 2 then f + 1 else if even f then f else f + 1)"

section \<open>Characters and strings\<close>

definition chr_between :: "nat \<Rightarrow> nat \<Rightarrow> char \<Rightarrow> bool" where
  "chr_between lo hi c \<longleftrightarrow> lo \<le> of_char c \<and> of_char c \<le> hi"

definition is_dig :: "char \<Rightarrow> bool" where
  "is_dig c \<longleftrightarrow> chr_between 48 57 c"

definition dig_val :: "char \<Rightarrow> int" where
  "dig_val c = int (of_char c) - 48"

definition digit :: "int \<Rightarrow> char" where
  "digit n = char_of (48 + nat n)"

lemma digit_cases:
  assumes "0 \<le> n" "n < 10"
  shows "n = 0 \<or> n = 1 \<or> n = 2 \<or> n = 3 \<or> n = 4 \<or> n = 5 \<or> n = 6 \<or> n = 7 \<or> n = 8 \<or> n = (9::int)"
  using assms by presburger

lemma of_char_digit: "0 \<le> n \<Longrightarrow> n < 10 \<Longrightarrow> of_char (digit n) = (48 + nat n :: nat)"
  by (simp add: digit_def)

lemma is_dig_digit [simp]: "0 \<le> n \<Longrightarrow> n < 10 \<Longrightarrow> is_dig (digit n)"
  by (simp add: is_dig_def chr_between_def of_char_digit)

lemma dig_val_digit [simp]: "0 \<le> n \<Longrightarrow> n < 10 \<Longrightarrow> dig_val (digit n) = n"
  by (simp add: dig_val_def of_char_digit)

lemma digit_neq: "0 \<le> n \<Longrightarrow> n < 10 \<Longrightarrow> \<not> is_dig c \<Longrightarrow> digit n \<noteq> c"
  using is_dig_digit by metis

text \<open>Whitespace of \<open>str.strip()\<close> among the code points below 256.\<close>

definition is_space :: "char \<Rightarrow> bool" where
  "is_space c \<longleftrightarrow> chr_between 9 13 c \<or> chr_between 28 32 c \<or> of_char c \<in> {133, 160 :: nat}"

definition lstrip_chars :: "(char \<Rightarrow> bool) \<Rightarrow> string \<Rightarrow> string" where
  "lstrip_chars p s = dropWhile p s"

definition rstrip_chars :: "(char \<Rightarrow> bool) \<Rightarrow> string \<Rightarrow> string" where
  "rstrip_chars p s = rev (dropWhile p (rev s))"

definition strip_chars :: "(char \<Rightarrow> bool) \<Rightarrow> string \<Rightarrow> string" where
  "strip_chars p s = rstrip_chars p (lstrip_chars p s)"

definition strip :: "string \<Rightarrow> string" where
  "strip s = strip_chars is_space s"

definition lower_chr :: "char \<Rightarrow> char" where
  "lower_chr c = (let n = (of_char c :: nat) in
     if 65 \<le> n \<and> n \<le> 90 \<or> 192 \<le> n \<and> n \<le> 222 \<and> n \<noteq> 215 then char_of (n + 32) else c)"

definition lower :: "string \<Rightarrow> string" where
  "lower s = map lower_chr s"

definition startswith :: "string \<Rightarrow> string \<Rightarrow> bool" where
  "startswith s p \<longleftrightarrow> take (length p) s = p"

definition endswith :: "string \<Rightarrow> string \<Rightarrow> bool" where
  "endswith s p \<longleftrightarrow> startswith (rev s) (rev p)"

text \<open>\<open>s.split(c)\<close> for a one-character separator: always at least one part.\<close>

fun split_chr :: "char \<Rightarrow> string \<Rightarrow> string list" where
  "split_chr c [] = [[]]"
| "split_chr c (x # xs) =
     (if x = c then [] # split_chr c xs
      else (case split_chr c xs of [] \<Rightarrow> [[x]] | y # ys \<Rightarrow> (x # y) # ys))"

lemma split_chr_not_Nil [simp]: "split_chr c s \<noteq> []"
  by (induction s) (auto split: list.splits)

lemma split_chr_no_sep: "c \<notin> set s \<Longrightarrow> split_chr c s = [s]"
  by (induction s) auto

lemma split_chr_append:
  "c \<notin> set a \<Longrightarrow> split_chr c (a @ c # b) = a # split_chr c b"
  by (induction a) auto

lemma split_chr_append_sep: "split_chr c (a @ c # b) = split_chr c a @ split_chr c b"
  by (induction a) (auto split: list.splits)

text \<open>\<open>s.partition(c)\<close>: the part before the first \<open>c\<close>, whether there is one, the part after.\<close>

definition partition_chr :: "char \<Rightarrow> string \<Rightarrow> string \<times> bool \<times> string" where
  "partition_chr c s =
     (let a = takeWhile (\<lambda>x. x \<noteq> c) s; b = dropWhile (\<lambda>x. x \<noteq> c) s
      in (a, b \<noteq> [], tl b))"

lemma partition_chr_sep:
  "c \<notin> set a \<Longrightarrow> partition_chr c (a @ c # b) = (a, True, b)"
  by (auto simp add: partition_chr_def Let_def takeWhile_append dropWhile_append)

fun join :: "string \<Rightarrow> string list \<Rightarrow> string" where
  "join sep [] = []"
| "join sep [x] = x"
| "join sep (x # y # ys) = x @ sep @ join sep (y # ys)"

lemma split_chr_join:
  "xs \<noteq> [] \<Longrightarrow> \<forall>x\<in>set xs. c \<notin> set x \<Longrightarrow> split_chr c (join [c] xs) = xs"
  by (induction "[c]" xs rule: join.induct) (auto simp: split_chr_no_sep split_chr_append)

fun contains :: "string \<Rightarrow> string \<Rightarrow> bool" where
  "contains [] p = (p = [])"
| "contains (x # xs) p = (startswith (x # xs) p \<or> contains xs p)"

text \<open>Decimal text of a non-negative number, of an integer and of a natural number.\<close>

function show_pos :: "int \<Rightarrow> string" where
  "show_pos n = (if n < 10 then [digit n] else show_pos (n div 10) @ [digit (n mod 10)])"
  by pat_completeness auto
termination by (relation "measure nat") auto

declare show_pos.simps [simp del]

definition show_int :: "int \<Rightarrow> string" where
  "show_int i = (if i < 0 then CHR ''-'' # show_pos (- i) else show_pos i)"

definition show_nat :: "nat \<Rightarrow> string" where
  "show_nat n = show_pos (int n)"

text \<open>Value of a non-empty string of ASCII digits.\<close>

definition num :: "string \<Rightarrow> int option" where
  "num s = (if s \<noteq> [] \<and> list_all is_dig s then Some (foldl (\<lambda>a c. a * 10 + dig_val c) 0 s) else None)"

lemma show_pos_digits: "0 \<le> n \<Longrightarrow> list_all is_dig (show_pos n) \<and> show_pos n \<noteq> []"
proof (induction n rule: show_pos.induct)
  case (1 n)
  then show ?case
    by (cases "n < 10") (simp_all add: show_pos.simps [of n])
qed

lemma foldl_show_pos: "0 \<le> n \<Longrightarrow> foldl (\<lambda>a c. a * 10 + dig_val c) 0 (show_pos n) = n"
proof (induction n rule: show_pos.induct)
  case (1 n)
  show ?case
  proof (cases "n < 10")
    case True
    with 1 show ?thesis by (subst show_pos.simps) simp
  next
    case False
    with 1 have "foldl (\<lambda>a c. a * 10 + dig_val c) 0 (show_pos (n div 10)) = n div 10"
      by simp
    with False show ?thesis
      by (subst show_pos.simps) simp
  qed
qed

lemma num_show_pos [simp]: "0 \<le> n \<Longrightarrow> num (show_pos n) = Some n"
  using show_pos_digits [of n] foldl_show_pos [of n] by (simp add: num_def)

lemma show_pos_inj: "0 \<le> m \<Longrightarrow> 0 \<le> n \<Longrightarrow> show_pos m = show_pos n \<Longrightarrow> m = n"
  by (metis num_show_pos option.inject)

text \<open>\<open>int(s)\<close> for a string: surrounding whitespace, a sign, digits with single underscores
  between them.\<close>

fun drop_underscores :: "string \<Rightarrow> string option" where
  "drop_underscores [] = Some []"
| "drop_underscores [c] = (if c = CHR ''_'' then None else Some [c])"
| "drop_underscores (c # d # cs) =
     (if c = CHR ''_'' then None
      else if d = CHR ''_'' then map_option (Cons c) (case cs of [] \<Rightarrow> None | _ \<Rightarrow> drop_underscores cs)
      else map_option (Cons c) (drop_underscores (d # cs)))"

definition int_of_str :: "string \<Rightarrow> int res" where
  "int_of_str s0 =
     (let s = strip s0;
          (neg, u) = (case s of c # cs \<Rightarrow> if c = CHR ''-'' then (True, cs)
                                           else if c = CHR ''+'' then (False, cs) else (False, s)
                              | [] \<Rightarrow> (False, []))
      in case Option.bind (drop_underscores u) num of
           None \<Rightarrow> Inl ValueError
         | Some n \<Rightarrow> Inr (if neg then - n else n))"

fun py_int :: "py \<Rightarrow> int res" where
  "py_int (PInt i) = Inr i"
| "py_int (PBool b) = Inr (if b then 1 else 0)"
| "py_int (PFlt (Fin r)) = Inr (trunc r)"
| "py_int (PFlt NaN) = Inl ValueError"
| "py_int (PFlt _) = Inl OverflowError"
| "py_int (PStr s) = int_of_str s"
| "py_int _ = Inl TypeError"

text \<open>\<open>==\<close> between values: numbers compare by value across int, bool and float, a NaN is
  different from everything, dictionaries compare as maps.\<close>

fun py_eq :: "py \<Rightarrow> py \<Rightarrow> bool" and py_eqs :: "py list \<Rightarrow> py list \<Rightarrow> bool"
  and py_sub :: "dict \<Rightarrow> dict \<Rightarrow> bool" where
  "py_eq (PStr s) y = (y = PStr s)"
| "py_eq PNone y = (y = PNone)"
| "py_eq (PList xs) y = (case y of PList ys \<Rightarrow> py_eqs xs ys | _ \<Rightarrow> False)"
| "py_eq (PDict d) y = (case y of PDict d' \<Rightarrow> length d = length d' \<and> py_sub d d' | _ \<Rightarrow> False)"
| "py_eq x y = (case (num_val x, num_val y) of
      (Some a, Some b) \<Rightarrow> a = b
    | _ \<Rightarrow> (x = PFlt PosInf \<and> y = PFlt PosInf) \<or> (x = PFlt NegInf \<and> y = PFlt NegInf))"
| "py_eqs [] ys = (ys = [])"
| "py_eqs (x # xs) ys = (case ys of [] \<Rightarrow> False | z # zs \<Rightarrow> py_eq x z \<and> py_eqs xs zs)"
| "py_sub [] d' = True"
| "py_sub ((k, v) # d) d' = ((case map_of d' k of None \<Rightarrow> False | Some w \<Rightarrow> py_eq v w) \<and> py_sub d d')"

text \<open>\<open>str(v)\<close>.  The text of a float is its decimal expansion (at most 17 digits after the
  point); quotes inside the strings of a printed list or dict are not escaped.\<close>

fun frac_digits :: "nat \<Rightarrow> rat \<Rightarrow> string" where
  "frac_digits 0 r = []"
| "frac_digits (Suc n) r =
     (let x = r * 10; d = \<lfloor>x\<rfloor>; rest = x - of_int d
      in digit d # (if rest = 0 then [] else frac_digits n rest))"

fun show_flt :: "flt \<Rightarrow> string" where
  "show_flt PosInf = ''inf''"
| "show_flt NegInf = ''-inf''"
| "show_flt NaN = ''nan''"
| "show_flt (Fin r) =
     (let a = \<bar>r\<bar>; i = \<lfloor>a\<rfloor>
      in (if r < 0 then ''-'' else []) @ show_int i @ ''.'' @ frac_digits 17 (a - of_int i))"

fun py_repr :: "py \<Rightarrow> string" and reprs :: "py list \<Rightarrow> string" and repr_items :: "dict \<Rightarrow> string" where
  "py_repr PNone = ''None''"
| "py_repr (PBool b) = (if b then ''True'' else ''False'')"
| "py_repr (PInt i) = show_int i"
| "py_repr (PFlt x) = show_flt x"
| "py_repr (PStr s) = [CHR 0x27] @ s @ [CHR 0x27]"
| "py_repr (PList xs) = ''['' @ reprs xs @ '']''"
| "py_repr (PDict d) = ''{'' @ repr_items d @ ''}''"
| "reprs [] = []"
| "reprs (x # xs) = py_repr x @ (if xs = [] then [] else '', '' @ reprs xs)"
| "repr_items [] = []"
| "repr_items ((k, v) # d) =
     [CHR 0x27] @ k @ [CHR 0x27] @ '': '' @ py_repr v @ (if d = [] then [] else '', '' @ repr_items d)"

definition py_str :: "py \<Rightarrow> string" where
  "py_str v = (case v of PStr s \<Rightarrow> s | _ \<Rightarrow> py_repr v)"

lemma py_str_PStr [simp]: "py_str (PStr s) = s"
  by (simp add: py_str_def)

lemmas [py_simps] = dget_or_def por_def dict_or_empty_def py_str_def

text \<open>\<open>s.split()\<close> on whitespace, and \<open>s.split(None, n)\<close>, which keeps the rest of the line
  (its leading whitespace dropped) as the last part.\<close>

function ws_split :: "nat \<Rightarrow> string \<Rightarrow> string list" where
  "ws_split n s =
     (let r = dropWhile is_space s in
      if r = [] then []
      else if n = 0 then [r]
      else takeWhile (\<lambda>c. \<not> is_space c) r # ws_split (n - 1) (dropWhile (\<lambda>c. \<not> is_space c) r))"
  by pat_completeness auto
termination by (relation "measure fst") auto

declare ws_split.simps [simp del]

definition words :: "string \<Rightarrow> string list" where
  "words s = ws_split (length s) s"

text \<open>\<open>v.get(k)\<close> on a value that may not be a dict: AttributeError.\<close>

definition pget :: "py \<Rightarrow> string \<Rightarrow> py res" where
  "pget v k = (case v of PDict d \<Rightarrow> Inr (dget d k) | _ \<Rightarrow> Inl AttributeError)"

lemma pget_PDict [simp]: "pget (PDict d) k = Inr (dget d k)"
  by (simp add: pget_def)

section \<open>Lists\<close>

text \<open>\<open>xs[-n:]\<close> for a positive \<open>n\<close>.\<close>

definition last_n :: "nat \<Rightarrow> 'a list \<Rightarrow> 'a list" where
  "last_n n xs = drop (length xs - n) xs"

lemma length_last_n [simp]: "length (last_n n xs) = min n (length xs)"
  by (simp add: last_n_def)

lemma set_last_n: "set (last_n n xs) \<subseteq> set xs"
  by (simp add: last_n_def set_drop_subset)

lemma last_n_append: "length ys = n \<Longrightarrow> last_n n (xs @ ys) = ys"
  by (simp add: last_n_def)

text \<open>A set of values as \<open>sorted(set)\<close> gives it.\<close>

definition sorted_set :: "'a::linorder list \<Rightarrow> 'a list" where
  "sorted_set xs = sort (remdups xs)"

lemma set_sorted_set [simp]: "set (sorted_set xs) = set xs"
  by (simp add: sorted_set_def)

lemma sorted_sorted_set [simp]: "sorted (sorted_set xs)" "distinct (sorted_set xs)"
  by (simp_all add: sorted_set_def)

lemma sorted_set_eq_Nil [simp]: "sorted_set xs = [] \<longleftrightarrow> xs = []"
  by (metis set_empty set_sorted_set)

end
