(* ===== verification/Py_Datetime.thy ===== *)
theory Py_Datetime
  imports Py_Base
begin

text \<open>
  Python's \<open>datetime\<close> as the panel uses it (the C implementation of CPython 3.12).

  A \<open>datetime\<close> is a wall clock reading in microseconds since 1970-01-01 00:00 and, for an
  aware value, its offset from UTC in microseconds.  \<open>isoformat\<close> and \<open>fromisoformat\<close> are
  executable; the theorem \<open>fromisoformat_isoformat\<close> is the round trip on which every stored
  timestamp of the panel (JSON columns hold ISO strings) depends.  The calendar is the
  proleptic Gregorian one of \<open>_ymd2ord\<close> and \<open>_ord2ymd\<close>.

  Moments the code compares with \<open>now\<close> are \<open>time\<close>: microseconds since the epoch in UTC.
  \<open>total_seconds()\<close> is compared with integer constants only; on the range of \<open>datetime\<close> a
  float of that many seconds is exact to the microsecond, so the comparison is made here in
  microseconds.
\<close>

section \<open>Calendar\<close>

type_synonym time = int

definition sec :: "int \<Rightarrow> int" where
  "sec n = n * 1000000"

definition is_leap :: "int \<Rightarrow> bool" where
  "is_leap y \<longleftrightarrow> y mod 4 = 0 \<and> (y mod 100 \<noteq> 0 \<or> y mod 400 = 0)"

definition days_before_year :: "int \<Rightarrow> int" where
  "days_before_year y0 = (let y = y0 - 1 in y * 365 + y div 4 - y div 100 + y div 400)"

definition days_in_month :: "bool \<Rightarrow> int \<Rightarrow> int" where
  "days_in_month leap m =
     (if m = 2 then (if leap then 29 else 28)
      else if m = 4 \<or> m = 6 \<or> m = 9 \<or> m = 11 then 30 else 31)"

definition days_before_month :: "bool \<Rightarrow> int \<Rightarrow> int" where
  "days_before_month leap m =
     (if m = 1 then 0 else if m = 2 then 31
      else (if leap then 1 else 0) +
        (if m = 3 then 59 else if m = 4 then 90 else if m = 5 then 120 else if m = 6 then 151
         else if m = 7 then 181 else if m = 8 then 212 else if m = 9 then 243
         else if m = 10 then 273 else if m = 11 then 304 else 334))"

definition ymd2ord :: "int \<Rightarrow> int \<Rightarrow> int \<Rightarrow> int" where
  "ymd2ord y m d = days_before_year y + days_before_month (is_leap y) m + d"

definition month_of :: "bool \<Rightarrow> int \<Rightarrow> int" where
  "month_of leap n =
     (let l = (if leap then 1 else 0) in
      if n < 31 then 1 else if n < 59 + l then 2 else if n < 90 + l then 3
      else if n < 120 + l then 4 else if n < 151 + l then 5 else if n < 181 + l then 6
      else if n < 212 + l then 7 else if n < 243 + l then 8 else if n < 273 + l then 9
      else if n < 304 + l then 10 else if n < 334 + l then 11 else 12)"

definition ord2ymd :: "int \<Rightarrow> int \<times> int \<times> int" where
  "ord2ymd n0 =
     (let n = n0 - 1; n400 = n div 146097; n = n mod 146097;
          n100 = n div 36524; n = n mod 36524;
          n4 = n div 1461; n = n mod 1461;
          n1 = n div 365; n = n mod 365;
          y = n400 * 400 + n100 * 100 + n4 * 4 + n1 + 1
      in if n1 = 4 \<or> n100 = 4 then (y - 1, 12, 31)
         else (let leap = (n1 = 3 \<and> (n4 \<noteq> 24 \<or> n100 = 3)); m = month_of leap n
               in (y, m, n - days_before_month leap m + 1)))"

text \<open>A date the constructor of \<open>datetime\<close> accepts.\<close>

definition date_ok :: "int \<Rightarrow> int \<Rightarrow> int \<Rightarrow> bool" where
  "date_ok y m d \<longleftrightarrow> 1 \<le> y \<and> y \<le> 9999 \<and> 1 \<le> m \<and> m \<le> 12
     \<and> 1 \<le> d \<and> d \<le> days_in_month (is_leap y) m"

lemma month_of_day:
  fixes n :: int
  assumes "0 \<le> n" "n < (if leap then 366 else 365)"
  shows "1 \<le> month_of leap n \<and> month_of leap n \<le> 12 \<and>
    1 \<le> n - days_before_month leap (month_of leap n) + 1 \<and>
    n - days_before_month leap (month_of leap n) + 1 \<le> days_in_month leap (month_of leap n)"
proof -
  have *: "P (month_of leap n)" if
    "\<And>m. 1 \<le> m \<Longrightarrow> m \<le> 12 \<Longrightarrow> days_before_month leap m \<le> n \<Longrightarrow>
       n < days_before_month leap m + days_in_month leap m \<Longrightarrow> P m" for P
    using that assms unfolding month_of_def Let_def
    by (cases leap) (simp_all add: days_before_month_def days_in_month_def)
  show ?thesis by (rule *) auto
qed

lemma mod_pred: "0 < k \<Longrightarrow> y mod k = 0 \<longleftrightarrow> (y - 1) mod k = k - (1::int)"
proof -
  assume k: "0 < k"
  have "y mod k = 0 \<longleftrightarrow> (y - 1 - (k - 1)) mod k = 0"
    by (simp add: mod_diff_right_eq [symmetric] flip: mod_diff_left_eq)
  also have "\<dots> \<longleftrightarrow> (y - 1) mod k = (k - 1) mod k"
    by (metis mod_eq_dvd_iff dvd_eq_mod_eq_0)
  also have "(k - 1) mod k = k - 1"
    using k by (intro mod_pos_pos_trivial) auto
  finally show ?thesis .
qed

lemma year_parts:
  fixes a b c e :: int
  assumes "0 \<le> b" "b < 4" "0 \<le> c" "c < 25" "0 \<le> e" "e < 4"
  defines "y \<equiv> a * 400 + b * 100 + c * 4 + e + 1"
  shows "days_before_year y = a * 146097 + b * 36524 + c * 1461 + e * 365"
    "is_leap y \<longleftrightarrow> e = 3 \<and> (c \<noteq> 24 \<or> b = 3)"
proof -
  have eq: "y - 1 = 4 * (a * 100 + b * 25 + c) + e" "y - 1 = 100 * (a * 4 + b) + (c * 4 + e)"
    "y - 1 = 400 * a + (b * 100 + c * 4 + e)"
    by (simp_all add: y_def algebra_simps)
  have d4: "(y - 1) div 4 = a * 100 + b * 25 + c" and m4: "(y - 1) mod 4 = e"
    using assms(1-6) int_div_pos_eq [OF eq(1)] int_mod_pos_eq [OF eq(1)] by auto
  have d100: "(y - 1) div 100 = a * 4 + b" and m100: "(y - 1) mod 100 = c * 4 + e"
    using assms(1-6) int_div_pos_eq [OF eq(2)] int_mod_pos_eq [OF eq(2)] by auto
  have d400: "(y - 1) div 400 = a" and m400: "(y - 1) mod 400 = b * 100 + c * 4 + e"
    using assms(1-6) int_div_pos_eq [OF eq(3)] int_mod_pos_eq [OF eq(3)] by auto
  show "days_before_year y = a * 146097 + b * 36524 + c * 1461 + e * 365"
    unfolding days_before_year_def Let_def d4 d100 d400 by (simp add: y_def)
  have "y mod 4 = 0 \<longleftrightarrow> (y - 1) mod 4 = 3" "y mod 100 = 0 \<longleftrightarrow> (y - 1) mod 100 = 99"
    "y mod 400 = 0 \<longleftrightarrow> (y - 1) mod 400 = 399"
    using mod_pred [of 4 y] mod_pred [of 100 y] mod_pred [of 400 y] by simp_all
  then show "is_leap y \<longleftrightarrow> e = 3 \<and> (c \<noteq> 24 \<or> b = 3)"
    unfolding is_leap_def m4 m100 m400 using assms by auto
qed

lemma year_parts_last:
  fixes a b c e :: int
  assumes "0 \<le> b" "0 \<le> c" "c < 25" "0 \<le> e"
  shows "e = 4 \<Longrightarrow> b < 4 \<Longrightarrow> c < 24 \<or> b = 3 \<Longrightarrow>
      ymd2ord (a * 400 + b * 100 + c * 4 + e) 12 31 = a * 146097 + b * 36524 + c * 1461 + e * 365 + 1"
    "b = 4 \<Longrightarrow> ymd2ord (a * 400 + b * 100) 12 31 = a * 146097 + b * 36524 + 1"
proof -
  show "ymd2ord (a * 400 + b * 100 + c * 4 + e) 12 31 = a * 146097 + b * 36524 + c * 1461 + e * 365 + 1"
    if "e = 4" "b < 4" "c < 24 \<or> b = 3"
    using year_parts [of b c 3 a] that assms by (auto simp: ymd2ord_def days_before_month_def ac_simps)
  show "ymd2ord (a * 400 + b * 100) 12 31 = a * 146097 + b * 36524 + 1" if "b = 4"
    using year_parts [of 3 24 3 a] that by (simp add: ymd2ord_def days_before_month_def ac_simps)
qed

text \<open>The quotients of \<open>_ord2ymd\<close> name the date whose ordinal is \<open>n\<close>.\<close>

lemma ord2ymd_parts:
  obtains a b c e u where
    "n = a * 146097 + b * 36524 + c * 1461 + e * 365 + u + 1"
    "0 \<le> b" "b \<le> 4" "0 \<le> c" "c < 25" "0 \<le> e" "e \<le> 4" "0 \<le> u" "u < 365"
    "b = 4 \<Longrightarrow> c = 0 \<and> e = 0 \<and> u = 0" "e = 4 \<Longrightarrow> b < 4 \<and> u = 0 \<and> (c < 24 \<or> b = 3)"
    "ord2ymd n = (if e = 4 \<or> b = 4 then (a * 400 + b * 100 + c * 4 + e, 12, 31)
      else (let leap = (e = 3 \<and> (c \<noteq> 24 \<or> b = 3)); m = month_of leap u
            in (a * 400 + b * 100 + c * 4 + e + 1, m, u - days_before_month leap m + 1)))"
proof -
  define k a r b s c t e u where defs: "k = n - 1" "a = k div 146097" "r = k mod 146097"
    "b = r div 36524" "s = r mod 36524" "c = s div 1461" "t = s mod 1461"
    "e = t div 365" "u = t mod 365"
  have k: "k = a * 146097 + r" "r = b * 36524 + s" "s = c * 1461 + t" "t = e * 365 + u"
    unfolding defs by (simp_all only: div_mult_mod_eq)
  have r: "0 \<le> r" "r < 146097" "0 \<le> s" "s < 36524" "0 \<le> t" "t < 1461" "0 \<le> u" "u < 365"
    unfolding defs by simp_all
  show thesis
  proof (rule that)
    show "n = a * 146097 + b * 36524 + c * 1461 + e * 365 + u + 1"
      using k defs(1) by linarith
    show q: "0 \<le> b" "b \<le> 4" "0 \<le> c" "c < 25" "0 \<le> e" "e \<le> 4" "0 \<le> u" "u < 365"
      using k r by linarith+
    show "b = 4 \<Longrightarrow> c = 0 \<and> e = 0 \<and> u = 0" "e = 4 \<Longrightarrow> b < 4 \<and> u = 0 \<and> (c < 24 \<or> b = 3)"
      using k r q by linarith+
    show "ord2ymd n = (if e = 4 \<or> b = 4 then (a * 400 + b * 100 + c * 4 + e, 12, 31)
      else (let leap = (e = 3 \<and> (c \<noteq> 24 \<or> b = 3)); m = month_of leap u
            in (a * 400 + b * 100 + c * 4 + e + 1, m, u - days_before_month leap m + 1)))"
      unfolding ord2ymd_def Let_def defs by simp
  qed
qed

lemma ymd2ord_ord2ymd:
  assumes "ord2ymd n = (y, m, d)"
  shows "ymd2ord y m d = n \<and> 1 \<le> m \<and> m \<le> 12 \<and> 1 \<le> d \<and> d \<le> days_in_month (is_leap y) m"
proof (rule ord2ymd_parts [of n])
  fix a b c e u
  assume n: "n = a * 146097 + b * 36524 + c * 1461 + e * 365 + u + 1"
    and q: "0 \<le> b" "b \<le> 4" "0 \<le> c" "c < 25" "0 \<le> e" "e \<le> 4" "0 \<le> u" "u < 365"
    and b4: "b = 4 \<Longrightarrow> c = 0 \<and> e = 0 \<and> u = 0"
    and e4: "e = 4 \<Longrightarrow> b < 4 \<and> u = 0 \<and> (c < 24 \<or> b = 3)"
    and res: "ord2ymd n = (if e = 4 \<or> b = 4 then (a * 400 + b * 100 + c * 4 + e, 12, 31)
      else (let leap = (e = 3 \<and> (c \<noteq> 24 \<or> b = 3)); m = month_of leap u
            in (a * 400 + b * 100 + c * 4 + e + 1, m, u - days_before_month leap m + 1)))"
  show ?thesis
  proof (cases "e = 4 \<or> b = 4")
    case True
    have "ymd2ord (a * 400 + b * 100 + c * 4 + e) 12 31 = n"
    proof (cases "b = 4")
      case b: True
      show ?thesis using year_parts_last(2) [of b c e a] b4 [OF b] b n by simp
    next
      case False
      with True have e: "e = 4" by simp
      show ?thesis using year_parts_last(1) [of b c e a] e4 [OF e] e n q by simp
    qed
    moreover have "(y, m, d) = (a * 400 + b * 100 + c * 4 + e, 12, 31)"
      using res assms True by argo
    ultimately show ?thesis
      by (simp add: days_in_month_def)
  next
    case False
    define leap where "leap = (e = 3 \<and> (c \<noteq> 24 \<or> b = 3))"
    have y: "y = a * 400 + b * 100 + c * 4 + e + 1" and m: "m = month_of leap u"
      and d: "d = u - days_before_month leap m + 1"
      using res assms False by (simp_all add: Let_def leap_def)
    have bc: "b < 4" "e < 4" using False q by auto
    have L: "is_leap y = leap" "days_before_year y = a * 146097 + b * 36524 + c * 1461 + e * 365"
      using year_parts [of b c e a] q bc by (simp_all add: y leap_def)
    have "u < (if leap then 366 else 365)" using q by simp
    then show ?thesis
      using month_of_day [of u leap] q L n
      by (simp add: m d ymd2ord_def)
  qed
qed

lemma ord2ymd_year:
  assumes "ord2ymd n = (y, m, d)" "1 \<le> n" "n \<le> 3652059"
  shows "1 \<le> y \<and> y \<le> 9999"
proof (rule ord2ymd_parts [of n])
  fix a b c e u
  assume n: "n = a * 146097 + b * 36524 + c * 1461 + e * 365 + u + 1"
    and q: "0 \<le> b" "b \<le> 4" "0 \<le> c" "c < 25" "0 \<le> e" "e \<le> 4" "0 \<le> u" "u < 365"
    and b4: "b = 4 \<Longrightarrow> c = 0 \<and> e = 0 \<and> u = 0"
    and e4: "e = 4 \<Longrightarrow> b < 4 \<and> u = 0 \<and> (c < 24 \<or> b = 3)"
    and res: "ord2ymd n = (if e = 4 \<or> b = 4 then (a * 400 + b * 100 + c * 4 + e, 12, 31)
      else (let leap = (e = 3 \<and> (c \<noteq> 24 \<or> b = 3)); m = month_of leap u
            in (a * 400 + b * 100 + c * 4 + e + 1, m, u - days_before_month leap m + 1)))"
  have y: "y = a * 400 + b * 100 + c * 4 + e + (if e = 4 \<or> b = 4 then 0 else 1)"
    using res assms(1) by (simp add: Let_def split: if_splits)
  have "0 \<le> b * 36524" "b * 36524 \<le> 146096" "0 \<le> c * 1461" "0 \<le> e * 365"
    using q by linarith+
  then have a: "0 \<le> a" using n q b4 e4 assms(2) by linarith
  have "a * 400 + b * 100 + c * 4 + e \<le> 9998"
  proof (cases "a \<le> 23 \<or> b \<le> 2 \<or> c \<le> 23")
    case True
    have "a \<le> 24" "a = 24 \<Longrightarrow> b \<le> 3" using n q assms(3) by linarith+
    then show ?thesis using True q by linarith
  next
    case False
    then have "a = 24" "b = 3" "c = 24" using n q a assms(3) by linarith+
    then show ?thesis using n q assms(3) by linarith
  qed
  with y a q b4 e4 show ?thesis by (auto split: if_splits)
qed

section \<open>datetime values\<close>

datatype dt = DT (dt_wall: int) (dt_off: "int option")

text \<open>\<open>t if t.tzinfo else t.replace(tzinfo=timezone.utc)\<close>\<close>

definition aware :: "dt \<Rightarrow> dt" where
  "aware t = (if dt_off t = None then DT (dt_wall t) (Some 0) else t)"

text \<open>The moment of a value in UTC (a naive one is read as UTC).\<close>

definition dt_utc :: "dt \<Rightarrow> time" where
  "dt_utc t = dt_wall t - (case dt_off t of None \<Rightarrow> 0 | Some z \<Rightarrow> z)"

definition utc :: "time \<Rightarrow> dt" where
  "utc t = DT t (Some 0)"

lemma dt_utc_utc [simp]: "dt_utc (utc t) = t"
  by (simp add: dt_utc_def utc_def)

lemma dt_utc_aware [simp]: "dt_utc (aware d) = dt_utc d"
  by (simp add: aware_def dt_utc_def)

lemma aware_utc [simp]: "aware (utc t) = utc t"
  by (simp add: aware_def utc_def)

text \<open>\<open>a - b\<close> of two datetimes, in microseconds: a naive and an aware value do not mix.\<close>

definition dt_sub :: "dt \<Rightarrow> dt \<Rightarrow> int res" where
  "dt_sub a b = (if (dt_off a = None) = (dt_off b = None) then Inr (dt_utc a - dt_utc b) else Inl TypeError)"

lemma dt_sub_utc [simp]: "dt_sub (utc a) (utc b) = Inr (a - b)"
  by (simp add: dt_sub_def) (simp add: utc_def dt_utc_def)

subsection \<open>isoformat\<close>

definition day_us :: int where
  "day_us = 86400000000"

definition epoch_ord :: int where
  "epoch_ord = 719163"

definition pad2 :: "int \<Rightarrow> string" where
  "pad2 n = [digit (n div 10 mod 10), digit (n mod 10)]"

definition pad4 :: "int \<Rightarrow> string" where
  "pad4 n = pad2 (n div 100) @ pad2 n"

definition pad6 :: "int \<Rightarrow> string" where
  "pad6 n = pad2 (n div 10000) @ pad2 (n div 100) @ pad2 n"

definition iso_hms :: "int \<Rightarrow> string" where
  "iso_hms us =
     (let s = us div 1000000; f = us mod 1000000
      in pad2 (s div 3600) @ '':'' @ pad2 (s div 60 mod 60) @ '':'' @ pad2 (s mod 60)
         @ (if f = 0 then [] else ''.'' @ pad6 f))"

definition iso_off :: "int \<Rightarrow> string" where
  "iso_off z =
     (let a = \<bar>z\<bar>; s = a div 1000000; f = a mod 1000000
      in (if z < 0 then ''-'' else ''+'') @ pad2 (s div 3600) @ '':'' @ pad2 (s div 60 mod 60)
         @ (if s mod 60 = 0 \<and> f = 0 then [] else '':'' @ pad2 (s mod 60))
         @ (if f = 0 then [] else ''.'' @ pad6 f))"

definition iso_date :: "int \<Rightarrow> string" where
  "iso_date n = (case ord2ymd n of (y, m, d) \<Rightarrow> pad4 y @ ''-'' @ pad2 m @ ''-'' @ pad2 d)"

definition isoformat :: "dt \<Rightarrow> string" where
  "isoformat t = iso_date (epoch_ord + dt_wall t div day_us) @ ''T'' @ iso_hms (dt_wall t mod day_us)
     @ (case dt_off t of None \<Rightarrow> [] | Some z \<Rightarrow> iso_off z)"

text \<open>\<open>now.isoformat()\<close> for an aware UTC moment.\<close>

definition iso :: "time \<Rightarrow> string" where
  "iso t = isoformat (utc t)"

subsection \<open>fromisoformat\<close>

text \<open>Two ASCII digits at the front of a string.\<close>

fun num2 :: "string \<Rightarrow> (int \<times> string) option" where
  "num2 (a # b # r) = (if is_dig a \<and> is_dig b then Some (dig_val a * 10 + dig_val b, r) else None)"
| "num2 _ = None"

fun num4 :: "string \<Rightarrow> (int \<times> string) option" where
  "num4 (a # b # c # d # r) =
     (case (num2 [a, b], num2 [c, d]) of
        (Some (x, _), Some (y, _)) \<Rightarrow> Some (x * 100 + y, r) | _ \<Rightarrow> None)"
| "num4 _ = None"

definition isoweek1monday :: "int \<Rightarrow> int" where
  "isoweek1monday y =
     (let firstday = ymd2ord y 1 1; wd = (firstday + 6) mod 7; mon = firstday - wd
      in if wd > 3 then mon + 7 else mon)"

definition isoweek_to_gregorian :: "int \<Rightarrow> int \<Rightarrow> int \<Rightarrow> (int \<times> int \<times> int) option" where
  "isoweek_to_gregorian y w d =
     (if \<not> (1 \<le> y \<and> y \<le> 9999) then None
      else if \<not> (0 < w \<and> w < 53) \<and> \<not> (w = 53 \<and>
        (let fw = ymd2ord y 1 1 mod 7 in fw = 4 \<or> fw = 3 \<and> is_leap y)) then None
      else if \<not> (0 < d \<and> d < 8) then None
      else Some (ord2ymd (isoweek1monday y + (w - 1) * 7 + (d - 1))))"

text \<open>Where the date ends: at the separator, if there is a time part.\<close>

definition find_sep :: "string \<Rightarrow> nat option" where
  "find_sep s =
     (let n = length s in
      if n = 7 then Some 7
      else if s ! 4 = CHR ''-'' then
        (if s ! 5 = CHR ''W'' then
           (if n > 8 \<and> s ! 8 = CHR ''-'' then
              (if n = 9 then None else if n > 10 \<and> is_dig (s ! 10) then Some 8 else Some 10)
            else Some 8)
         else Some 10)
      else if s ! 4 = CHR ''W'' then
        (let i = 7 + length (takeWhile is_dig (drop 7 s)) in
         if i < 9 then Some i else if even i then Some 7 else Some 8)
      else Some 8)"

definition parse_date :: "string \<Rightarrow> (int \<times> int \<times> int) option" where
  "parse_date s =
     (case num4 s of
        None \<Rightarrow> None
      | Some (y, r) \<Rightarrow>
         (let sep = (take 1 r = ''-''); r = (if sep then tl r else r) in
          if take 1 r = ''W'' then
            (case num2 (tl r) of
               None \<Rightarrow> None
             | Some (w, r2) \<Rightarrow>
                if r2 = [] then isoweek_to_gregorian y w 1
                else if (take 1 r2 = ''-'') \<noteq> sep then None
                else (case (if sep then tl r2 else r2) of
                        [c] \<Rightarrow> if is_dig c then isoweek_to_gregorian y w (dig_val c) else None
                      | _ \<Rightarrow> None))
          else (case num2 r of
                  None \<Rightarrow> None
                | Some (m, r2) \<Rightarrow>
                   if (take 1 r2 = ''-'') \<noteq> sep then None
                   else (case num2 (if sep then tl r2 else r2) of
                           Some (d, []) \<Rightarrow> Some (y, m, d) | _ \<Rightarrow> None))))"

definition parse_frac :: "string \<Rightarrow> int option" where
  "parse_frac r =
     (case r of
        [] \<Rightarrow> Some 0
      | c # ds \<Rightarrow>
         if (c = CHR ''.'' \<or> c = CHR '','') \<and> list_all is_dig ds then
           map_option (\<lambda>n. n * 10 ^ (6 - length (take 6 ds))) (num (take 6 ds))
         else None)"

definition parse_hms :: "string \<Rightarrow> (int \<times> int) option" where
  \<comment> \<open>seconds since midnight, microseconds; the ranges are checked as the constructor does\<close>
  "parse_hms s =
     (let fin = (\<lambda>h m sc f. if h \<le> 23 \<and> m \<le> 59 \<and> sc \<le> 59 then Some (h * 3600 + m * 60 + sc, f) else None) in
      case num2 s of
        None \<Rightarrow> None
      | Some (h, r1) \<Rightarrow>
         if r1 = [] then fin h 0 0 0
         else (let sep = (take 1 r1 = '':'') in
               case num2 (if sep then tl r1 else r1) of
                 None \<Rightarrow> None
               | Some (m, r2) \<Rightarrow>
                  if r2 = [] then fin h m 0 0
                  else if sep \<and> take 1 r2 \<noteq> '':'' then None
                  else (case num2 (if sep then tl r2 else r2) of
                          None \<Rightarrow> None
                        | Some (sc, r3) \<Rightarrow>
                           (case parse_frac r3 of None \<Rightarrow> None | Some f \<Rightarrow> fin h m sc f))))"

definition is_tz_mark :: "char \<Rightarrow> bool" where
  "is_tz_mark c \<longleftrightarrow> c = CHR ''+'' \<or> c = CHR ''-'' \<or> c = CHR ''Z''"

definition parse_off :: "string \<Rightarrow> int option option" where
  "parse_off z =
     (case z of
        [] \<Rightarrow> Some None
      | c # r \<Rightarrow>
         if c = CHR ''Z'' then (if r = [] then Some (Some 0) else None)
         else (case parse_hms r of
                 None \<Rightarrow> None
               | Some (s, f) \<Rightarrow> Some (Some ((if c = CHR ''-'' then -1 else 1) * (s * 1000000 + f)))))"

definition parse_time :: "string \<Rightarrow> (int \<times> int option) option" where
  "parse_time s =
     (case (parse_hms (takeWhile (\<lambda>c. \<not> is_tz_mark c) s),
            parse_off (dropWhile (\<lambda>c. \<not> is_tz_mark c) s)) of
        (Some (sc, f), Some z) \<Rightarrow> Some (sc * 1000000 + f, z)
      | _ \<Rightarrow> None)"

text \<open>\<open>datetime.fromisoformat(s)\<close>; \<open>None\<close> is the ValueError.\<close>

definition fromisoformat :: "string \<Rightarrow> dt option" where
  "fromisoformat s =
     (if length s < 7 then None
      else case find_sep s of
        None \<Rightarrow> None
      | Some i \<Rightarrow>
         (case (parse_date (take i s),
                if drop (Suc i) s = [] then Some (0, None) else parse_time (drop (Suc i) s)) of
            (Some (y, m, d), Some (us, z)) \<Rightarrow>
               if date_ok y m d then Some (DT ((ymd2ord y m d - epoch_ord) * day_us + us) z) else None
          | _ \<Rightarrow> None))"

subsection \<open>The round trip\<close>

lemma is_dig_marks [simp]:
  "\<not> is_dig CHR ''-''" "\<not> is_dig CHR ''W''" "\<not> is_dig CHR '':''" "\<not> is_dig CHR ''.''"
  "\<not> is_dig CHR ''+''" "\<not> is_dig CHR ''Z''" "\<not> is_dig CHR '',''"
  by (simp_all add: is_dig_def chr_between_def)

lemma digit_mod_neq [simp]: "\<not> is_dig c \<Longrightarrow> digit (n mod 10) \<noteq> c"
  by (metis is_dig_digit pos_mod_bound pos_mod_sign zero_less_numeral)

lemma is_dig_digit_mod [simp]: "is_dig (digit (n mod 10))"
  by simp

lemma dig_val_digit_mod [simp]: "dig_val (digit (n mod 10)) = n mod 10"
  by simp

lemma length_pad [simp]: "length (pad2 n) = 2" "length (pad4 n) = 4" "length (pad6 n) = 6"
  by (simp_all add: pad2_def pad4_def pad6_def)

lemma pad2_digits [simp]: "list_all is_dig (pad2 n)" "list_all is_dig (pad6 n)"
  by (simp_all add: pad2_def pad6_def)

lemma two_digits: "n div 10 mod 10 * 10 + n mod 10 = (n mod 100 :: int)"
  using zmod_zmult2_eq [of 10 n 10] by simp

lemma four_digits: "n div 100 mod 100 * 100 + n mod 100 = (n mod 10000 :: int)"
  using zmod_zmult2_eq [of 100 n 100] by simp

lemma six_digits: "n div 10000 mod 100 * 10000 + n mod 10000 = (n mod 1000000 :: int)"
proof -
  have e: "(1000000 :: int) = 10000 * 100" by simp
  show ?thesis unfolding e by (simp only: zmod_zmult2_eq mult.commute [of _ 10000])
qed

lemma num2_pad2_mod: "num2 (pad2 n @ r) = Some (n mod 100, r)"
  using two_digits [of n] by (simp add: pad2_def)

lemma num2_pad2 [simp]: "0 \<le> n \<Longrightarrow> n < 100 \<Longrightarrow> num2 (pad2 n @ r) = Some (n, r)"
  by (simp add: num2_pad2_mod)

lemma num2_pad2' [simp]: "0 \<le> n \<Longrightarrow> n < 100 \<Longrightarrow> num2 (pad2 n) = Some (n, [])"
  using num2_pad2 [of n "[]"] by simp

lemma pad2_take1 [simp]: "\<not> is_dig c \<Longrightarrow> take (Suc 0) (pad2 n) \<noteq> [c]"
  by (simp add: pad2_def)

lemma num4_pad4 [simp]:
  assumes "0 \<le> n" "n < 10000"
  shows "num4 (pad4 n @ r) = Some (n, r)"
proof -
  have "num4 (pad4 n @ r) = Some ((n div 100 mod 100) * 100 + n mod 100, r)"
    using num2_pad2_mod [of "n div 100" "[]"] num2_pad2_mod [of n "[]"]
    by (simp add: pad4_def pad2_def del: num2.simps)
  also have "(n div 100 mod 100) * 100 + n mod 100 = n"
    unfolding four_digits using assms by (rule mod_pos_pos_trivial)
  finally show ?thesis .
qed

lemma foldl_pad2: "foldl (\<lambda>a c. a * 10 + dig_val c) x (pad2 n) = x * 100 + n mod 100"
  using two_digits [of n] by (simp add: pad2_def)

lemma num_pad6 [simp]:
  assumes "0 \<le> n" "n < 1000000"
  shows "num (pad6 n) = Some n"
proof -
  have "n mod 1000000 = n" using assms by (rule mod_pos_pos_trivial)
  moreover have "(a * 100 + b) * 100 + c = a * 10000 + (b * 100 + c)" for a b c :: int
    by simp
  ultimately have "(n div 10000 mod 100 * 100 + n div 100 mod 100) * 100 + n mod 100 = n"
    by (simp only: four_digits six_digits)
  moreover have "pad6 n \<noteq> []"
    by (simp add: pad6_def pad2_def)
  then have "num (pad6 n) = Some (foldl (\<lambda>a c. a * 10 + dig_val c) 0 (pad6 n))"
    by (simp only: num_def pad2_digits simp_thms if_True)
  ultimately show ?thesis
    by (simp only: pad6_def foldl_append foldl_pad2 mult_zero_left add_0_left)
qed

lemma parse_date_iso:
  assumes "0 \<le> y" "y < 10000" "0 \<le> m" "m < 100" "0 \<le> d" "d < 100"
  shows "parse_date (pad4 y @ ''-'' @ pad2 m @ ''-'' @ pad2 d) = Some (y, m, d)"
  using assms by (simp add: parse_date_def Let_def)

lemma hms_parts:
  fixes s :: int
  assumes "0 \<le> s" "s < 86400"
  shows "0 \<le> s div 3600" "s div 3600 \<le> 23" "0 \<le> s div 60 mod 60" "s div 60 mod 60 \<le> 59"
    "0 \<le> s mod 60" "s mod 60 \<le> 59" "s div 3600 * 3600 + s div 60 mod 60 * 60 + s mod 60 = s"
proof -
  show "0 \<le> s div 3600" "s div 3600 \<le> 23" using assms by auto
  show "0 \<le> s div 60 mod 60" "0 \<le> s mod 60" by simp_all
  show "s div 60 mod 60 \<le> 59" using pos_mod_bound [of 60 "s div 60"] by simp
  show "s mod 60 \<le> 59" using pos_mod_bound [of 60 s] by simp
  show "s div 3600 * 3600 + s div 60 mod 60 * 60 + s mod 60 = s"
    using zmod_zmult2_eq [of 60 s 60] div_mult_mod_eq [of s 3600] by simp
qed

lemma parse_frac_iso [simp]:
  "0 \<le> f \<Longrightarrow> f < 1000000 \<Longrightarrow> parse_frac (CHR ''.'' # pad6 f) = Some f" "parse_frac [] = Some 0"
  by (simp_all add: parse_frac_def)

lemma parse_hms_str:
  assumes "0 \<le> h" "h \<le> 23" "0 \<le> m" "m \<le> 59" "0 \<le> s" "s \<le> 59" "0 \<le> f" "f < 1000000"
  shows "parse_hms (pad2 h @ '':'' @ pad2 m) = Some (h * 3600 + m * 60, 0)"
    "parse_hms (pad2 h @ '':'' @ pad2 m @ '':'' @ pad2 s) = Some (h * 3600 + m * 60 + s, 0)"
    "parse_hms (pad2 h @ '':'' @ pad2 m @ '':'' @ pad2 s @ ''.'' @ pad6 f) = Some (h * 3600 + m * 60 + s, f)"
  using assms by (simp_all add: parse_hms_def Let_def)

lemma parse_hms_iso:
  assumes "0 \<le> us" "us < day_us"
  shows "parse_hms (iso_hms us) = Some (us div 1000000, us mod 1000000)"
proof -
  define s f where sf: "s = us div 1000000" "f = us mod 1000000"
  have s: "0 \<le> s" "s < 86400" using assms by (auto simp: sf day_us_def)
  have f: "0 \<le> f" "f < 1000000" by (simp_all add: sf)
  note p = parse_hms_str [OF hms_parts(1-6) [OF s] f, unfolded hms_parts(7) [OF s]]
  show ?thesis
    unfolding iso_hms_def Let_def sf [symmetric] using p(2,3)
    by (cases "f = 0") (simp_all only: simp_thms if_True if_False append_Nil2)
qed


lemma parse_off_iso:
  assumes "\<bar>z\<bar> < day_us"
  shows "parse_off (iso_off z) = Some (Some z)"
proof -
  define s f where sf: "s = \<bar>z\<bar> div 1000000" "f = \<bar>z\<bar> mod 1000000"
  have s: "0 \<le> s" "s < 86400" using assms by (auto simp: sf day_us_def)
  have f: "0 \<le> f" "f < 1000000" by (simp_all add: sf)
  have z: "s * 1000000 + f = \<bar>z\<bar>" unfolding sf by (rule div_mult_mod_eq)
  note p = parse_hms_str [OF hms_parts(1-6) [OF s] f, unfolded hms_parts(7) [OF s]]
  define r where "r = pad2 (s div 3600) @ '':'' @ pad2 (s div 60 mod 60)
     @ (if s mod 60 = 0 \<and> f = 0 then [] else '':'' @ pad2 (s mod 60)) @ (if f = 0 then [] else ''.'' @ pad6 f)"
  have "parse_hms r = Some (s, f)"
  proof (cases "s mod 60 = 0 \<and> f = 0")
    case True
    then have "s div 3600 * 3600 + s div 60 mod 60 * 60 = s" using hms_parts(7) [OF s] by linarith
    then show ?thesis unfolding r_def using p(1) True
      by (simp only: simp_thms if_True if_False append_Nil2)
  next
    case False
    then show ?thesis unfolding r_def using p(2,3)
      by (cases "f = 0") (simp_all only: simp_thms if_True if_False append_Nil2 append_assoc)
  qed
  moreover have "iso_off z = (if z < 0 then CHR ''-'' else CHR ''+'') # r"
    by (simp add: iso_off_def Let_def r_def flip: sf)
  ultimately show ?thesis
    using z by (auto simp: parse_off_def)
qed

lemma no_tz_mark_digits: "list_all is_dig xs \<Longrightarrow> list_all (\<lambda>c. \<not> is_tz_mark c) xs"
  by (auto simp: list_all_iff is_tz_mark_def)

lemma iso_hms_no_tz: "list_all (\<lambda>c. \<not> is_tz_mark c) (iso_hms us)"
proof -
  have "\<not> is_tz_mark CHR '':''" "\<not> is_tz_mark CHR ''.''"
    by (simp_all add: is_tz_mark_def)
  then show ?thesis
    by (simp add: iso_hms_def Let_def no_tz_mark_digits)
qed

lemma parse_time_iso:
  assumes "0 \<le> us" "us < day_us" "case z of None \<Rightarrow> True | Some o' \<Rightarrow> \<bar>o'\<bar> < day_us"
  shows "parse_time (iso_hms us @ (case z of None \<Rightarrow> [] | Some o' \<Rightarrow> iso_off o')) = Some (us, z)"
proof -
  have hd: "iso_off o' = c # r \<Longrightarrow> is_tz_mark c" for o' c r
    by (auto simp: iso_off_def Let_def is_tz_mark_def split: if_splits)
  have tw: "takeWhile (\<lambda>c. \<not> is_tz_mark c) (iso_hms us @ t) = iso_hms us"
    "dropWhile (\<lambda>c. \<not> is_tz_mark c) (iso_hms us @ t) = t" if "\<And>c r. t = c # r \<Longrightarrow> is_tz_mark c" for t
    using iso_hms_no_tz [of us] that
    by (cases t; auto simp: list_all_iff takeWhile_append dropWhile_append)+
  have "parse_off (case z of None \<Rightarrow> [] | Some o' \<Rightarrow> iso_off o') = Some z"
    using assms(3) by (auto simp: parse_off_iso parse_off_def [of "[]"] split: option.splits)
  moreover have "c # r = (case z of None \<Rightarrow> [] | Some o' \<Rightarrow> iso_off o') \<Longrightarrow> is_tz_mark c" for c r
    by (cases z) (auto dest!: sym [of "_ # _"] hd)
  ultimately show ?thesis
    using assms(1,2) by (simp add: parse_time_def tw parse_hms_iso)
qed

text \<open>The values \<open>datetime\<close> can hold: years 1 to 9999, an offset below a day.\<close>

definition dt_ok :: "dt \<Rightarrow> bool" where
  "dt_ok t \<longleftrightarrow> (1 - epoch_ord) * day_us \<le> dt_wall t \<and> dt_wall t < (3652059 + 1 - epoch_ord) * day_us
     \<and> (case dt_off t of None \<Rightarrow> True | Some z \<Rightarrow> \<bar>z\<bar> < day_us)"

lemma euclid_bounds:
  fixes q :: int
  assumes "0 \<le> r" "r < D"
  shows "L * D \<le> q * D + r \<Longrightarrow> L \<le> q" "q * D + r < U * D \<Longrightarrow> q < U"
proof -
  have D: "0 < D" using assms by simp
  show "L \<le> q" if "L * D \<le> q * D + r"
  proof -
    have "L * D < (q + 1) * D" using that assms by (simp add: distrib_right)
    then have "L < q + 1" using D by (simp only: mult_less_cancel_right_pos)
    then show ?thesis by simp
  qed
  show "q < U" if "q * D + r < U * D"
  proof -
    have "q * D < U * D" using that assms(1) by linarith
    then show ?thesis using D by (simp only: mult_less_cancel_right_pos)
  qed
qed

text \<open>Every timestamp the panel stores reads back as itself.\<close>

lemma fromisoformat_isoformat:
  assumes "dt_ok t"
  shows "fromisoformat (isoformat t) = Some t"
proof -
  define n us where n: "n = epoch_ord + dt_wall t div day_us" and us: "us = dt_wall t mod day_us"
  obtain y m d where ymd: "ord2ymd n = (y, m, d)" by (metis prod_cases3)
  have us_r: "0 \<le> us" "us < day_us" by (simp_all add: us day_us_def)
  have wall: "(n - epoch_ord) * day_us + us = dt_wall t"
    by (simp add: n us)
  have "1 - epoch_ord \<le> n - epoch_ord" "n - epoch_ord < 3652059 + 1 - epoch_ord"
    using assms euclid_bounds(1) [OF us_r, of "1 - epoch_ord" "n - epoch_ord"]
      euclid_bounds(2) [OF us_r, of "n - epoch_ord" "3652059 + 1 - epoch_ord"]
    unfolding wall dt_ok_def by blast+
  then have "1 \<le> n" "n \<le> 3652059" by simp_all
  with ymd have y: "1 \<le> y \<and> y \<le> 9999" by (rule ord2ymd_year)
  note o = ymd2ord_ord2ymd [OF ymd]
  have "date_ok y m d" using y o by (simp add: date_ok_def)
  have d: "d \<le> 31" using o by (auto simp: days_in_month_def split: if_splits)
  have date: "parse_date (pad4 y @ ''-'' @ pad2 m @ ''-'' @ pad2 d) = Some (y, m, d)"
    using y o d by (intro parse_date_iso) auto
  define tail where "tail = iso_hms us @ (case dt_off t of None \<Rightarrow> [] | Some z \<Rightarrow> iso_off z)"
  have time: "parse_time tail = Some (us, dt_off t)"
    unfolding tail_def using us_r assms by (intro parse_time_iso) (auto simp: dt_ok_def)
  have tail: "tail \<noteq> []" by (auto simp: tail_def iso_hms_def Let_def pad2_def)
  define s where "s = pad4 y @ ''-'' @ pad2 m @ ''-'' @ pad2 d"
  have len: "length s = 10" and s4: "s ! 4 = CHR ''-''" and s5: "s ! 5 \<noteq> CHR ''W''"
    by (simp_all add: s_def nth_append pad2_def)
  have iso: "isoformat t = s @ CHR ''T'' # tail"
    by (simp add: isoformat_def iso_date_def ymd s_def tail_def flip: n us)
  have "find_sep (isoformat t) = Some 10"
    using len s4 s5 by (simp add: iso find_sep_def Let_def nth_append)
  moreover have "take 10 (isoformat t) = s" "drop (Suc 10) (isoformat t) = tail" "\<not> length (isoformat t) < 7"
    using len by (simp_all add: iso)
  ultimately show ?thesis
    using date [folded s_def] time tail \<open>date_ok y m d\<close> wall o
    by (cases t) (simp add: fromisoformat_def)
qed

definition time_ok :: "time \<Rightarrow> bool" where
  "time_ok t \<longleftrightarrow> (1 - epoch_ord) * day_us \<le> t \<and> t < (3652059 + 1 - epoch_ord) * day_us"

lemma fromisoformat_iso [simp]: "time_ok t \<Longrightarrow> fromisoformat (iso t) = Some (utc t)"
  unfolding iso_def by (rule fromisoformat_isoformat) (simp add: dt_ok_def time_ok_def utc_def day_us_def)

lemma iso_not_Nil [simp]: "iso t \<noteq> []"
  by (simp add: iso_def isoformat_def iso_date_def pad4_def pad2_def split: prod.splits)

section \<open>Dates\<close>

text \<open>A date is its ordinal; \<open>date.isoformat()\<close> and \<open>date.weekday()\<close> (Monday is 0).\<close>

definition date_of :: "time \<Rightarrow> int" where
  "date_of t = epoch_ord + t div day_us"

definition weekday :: "int \<Rightarrow> int" where
  "weekday n = (n + 6) mod 7"

text \<open>\<open>date.fromisoformat(s)\<close>; \<open>None\<close> is the ValueError.\<close>

definition date_fromisoformat :: "string \<Rightarrow> int option" where
  "date_fromisoformat s =
     (if length s \<notin> {7, 8, 10} then None
      else case parse_date s of
        Some (y, m, d) \<Rightarrow> if date_ok y m d then Some (ymd2ord y m d) else None
      | None \<Rightarrow> None)"

end
