(* ===== verification/Panel_Rows.thy ===== *)
theory Panel_Rows
  imports Py_Datetime
begin

text \<open>
  The database rows and the settings the components read: the columns of \<open>models.Server\<close> that
  the modelled operations use, and the fields of \<open>config.Settings\<close>.  A JSON column is a value
  of type \<open>py\<close> or a dict; a datetime column is a \<open>dt\<close>, naive or aware, as the driver gives it.
\<close>

record settings =
  panel_url :: string
  agent_source_guard :: bool
  gre_pool :: string
  gre_host_ip :: string

definition settings0 :: settings where
  "settings0 = \<lparr>panel_url = [], agent_source_guard = False, gre_pool = ''10.254.0.0/16'', gre_host_ip = []\<rparr>"

record server =
  sid :: int
  srv_name :: string
  srv_group :: "string option"
  srv_parent_id :: "int option"
  alert_state :: "dict option"
  offline_after_seconds :: int
  agent_version :: string
  probe_pending_at :: "dt option"
  enabled :: bool
  external_ip :: string
  agent_ip :: string
  agent_source_ips :: "py"
  last_seen :: "dt option"
  last_report :: "dict option"
  relay_enabled :: bool
  relay_port :: int
  relay_user :: string
  relay_password :: string
  relay_state :: "dict option"
  relay_seen_at :: "dt option"
  relay_via_id :: "int option"
  gre_enabled :: bool
  gre_net :: "string option"
  gre_peer :: string
  gre_state :: "dict option"
  gre_seen_at :: "dt option"
  gre_agent_at :: "dt option"

definition server0 :: server where
  "server0 = \<lparr>sid = 1, srv_name = ''node'', srv_group = None, srv_parent_id = None, alert_state = None,
     offline_after_seconds = 120, agent_version = [], probe_pending_at = None, enabled = True, external_ip = [], agent_ip = [], agent_source_ips = PList [],
     last_seen = None, last_report = None,
     relay_enabled = False, relay_port = 0, relay_user = [], relay_password = [], relay_state = None,
     relay_seen_at = None, relay_via_id = None,
     gre_enabled = False, gre_net = None, gre_peer = [], gre_state = None, gre_seen_at = None,
     gre_agent_at = None\<rparr>"

text \<open>\<open>row.column or {}\<close> for a nullable JSON dict.\<close>

definition or_empty :: "dict option \<Rightarrow> dict" where
  "or_empty d = (case d of None \<Rightarrow> [] | Some d \<Rightarrow> d)"

lemma or_empty_simps [simp]: "or_empty None = []" "or_empty (Some d) = d"
  by (simp_all add: or_empty_def)

text \<open>\<open>datetime.fromtimestamp(i, timezone.utc).isoformat()\<close> for an int.\<close>

definition fromtimestamp_iso :: "int \<Rightarrow> string res" where
  "fromtimestamp_iso i =
     (if time_ok (i * 1000000) then Inr (iso (i * 1000000))
      else if \<bar>i\<bar> < 2 ^ 63 then Inl ValueError else Inl OverflowError)"

text \<open>\<open>int(now.timestamp())\<close>.\<close>

definition unix :: "time \<Rightarrow> int" where
  "unix t = (if t < 0 then - ((- t) div 1000000) else t div 1000000)"

end
