(* ===== verification/Py_Ipaddress.thy ===== *)
theory Py_Ipaddress
  imports Py_Base
begin

text \<open>
  Python's \<open>ipaddress\<close> as the panel uses it (CPython 3.12.3): addresses with their textual form,
  networks, and the registry predicates.  An address is its number; an IPv6 address may carry a
  scope.  The parsers are executable and reject what the module rejects; the printed form of an
  IPv4 address reads back as the address.
\<close>

section \<open>Addresses\<close>

datatype ip = V4 int | V6 int "string option"

definition octet :: "string \<Rightarrow> int option" where
  "octet s =
     (if s = [] \<or> \<not> list_all is_dig s \<or> length s > 3 \<or> (length s > 1 \<and> hd s = CHR ''0'') then None
      else case num s of None \<Rightarrow> None | Some n \<Rightarrow> if n > 255 then None else Some n)"

definition parse_v4 :: "string \<Rightarrow> int option" where
  "parse_v4 s =
     (case split_chr CHR ''.'' s of
        [a, b, c, d] \<Rightarrow>
          (case (octet a, octet b, octet c, octet d) of
             (Some w, Some x, Some y, Some z) \<Rightarrow> Some (((w * 256 + x) * 256 + y) * 256 + z)
           | _ \<Rightarrow> None)
      | _ \<Rightarrow> None)"

definition hex_val :: "char \<Rightarrow> int option" where
  "hex_val c = (let n = (of_char c :: int) in
     if 48 \<le> n \<and> n \<le> 57 then Some (n - 48)
     else if 65 \<le> n \<and> n \<le> 70 then Some (n - 55)
     else if 97 \<le> n \<and> n \<le> 102 then Some (n - 87) else None)"

fun hex_num :: "int \<Rightarrow> string \<Rightarrow> int option" where
  "hex_num acc [] = Some acc"
| "hex_num acc (c # cs) = (case hex_val c of None \<Rightarrow> None | Some v \<Rightarrow> hex_num (acc * 16 + v) cs)"

definition hextet :: "string \<Rightarrow> int option" where
  "hextet s = (if s = [] \<or> length s > 4 then None else hex_num 0 s)"

text \<open>The parts of an IPv6 address as options of numbers; \<open>Some None\<close> is an empty part.\<close>

fun fold_hextets :: "int \<Rightarrow> string list \<Rightarrow> int option" where
  "fold_hextets acc [] = Some acc"
| "fold_hextets acc (p # ps) = (case hextet p of None \<Rightarrow> None | Some v \<Rightarrow> fold_hextets (acc * 65536 + v) ps)"

text \<open>Indices of the empty parts between the first and the last one.\<close>

definition inner_empty :: "string list \<Rightarrow> nat list" where
  "inner_empty ps = filter (\<lambda>i. ps ! i = []) [1..<length ps - 1]"

definition hextets_value :: "string list \<Rightarrow> int option" where
  "hextets_value ps =
     (if length ps < 3 \<or> length ps > 9 then None
      else case inner_empty ps of
        [] \<Rightarrow> if length ps \<noteq> 8 then None else fold_hextets 0 ps
      | [k] \<Rightarrow>
         (let lo = length ps - k - 1;
              hi' = (if hd ps = [] then k - 1 else k);
              lo' = (if last ps = [] then lo - 1 else lo)
          in if hd ps = [] \<and> hi' \<noteq> 0 then None
             else if last ps = [] \<and> lo' \<noteq> 0 then None
             else if hi' + lo' \<ge> 8 then None
             else (case fold_hextets 0 (take hi' ps) of
                     None \<Rightarrow> None
                   | Some v \<Rightarrow> fold_hextets (v * 65536 ^ (8 - (hi' + lo'))) (drop (length ps - lo') ps)))
      | _ \<Rightarrow> None)"

definition hex_digit :: "int \<Rightarrow> char" where
  "hex_digit n = (if n < 10 then char_of (48 + n) else char_of (87 + n))"

function show_hex :: "int \<Rightarrow> string" where
  "show_hex n = (if n < 16 then [hex_digit n] else show_hex (n div 16) @ [hex_digit (n mod 16)])"
  by pat_completeness auto
termination by (relation "measure nat") auto

declare show_hex.simps [simp del]

definition parse_v6 :: "string \<Rightarrow> (int \<times> string option) option" where
  "parse_v6 s =
     (case partition_chr CHR ''%'' s of
        (addr, sep, scope) \<Rightarrow>
          if sep \<and> (scope = [] \<or> CHR ''%'' \<in> set scope) then None
          else
            (let ps = split_chr CHR '':'' addr;
                 ps' = (if CHR ''.'' \<in> set (last ps)
                        then map_option (\<lambda>n. butlast ps @ [show_hex (n div 65536), show_hex (n mod 65536)])
                               (parse_v4 (last ps))
                        else Some ps)
             in if length ps < 3 then None
                else map_option (\<lambda>v. (v, if sep then Some scope else None)) (Option.bind ps' hextets_value)))"

text \<open>\<open>ipaddress.ip_address(s)\<close>; \<open>None\<close> is the ValueError.\<close>

definition ip_address :: "string \<Rightarrow> ip option" where
  "ip_address s =
     (if CHR ''/'' \<in> set s then None
      else case parse_v4 s of
        Some n \<Rightarrow> Some (V4 n)
      | None \<Rightarrow> map_option (\<lambda>(n, z). V6 n z) (parse_v6 s))"

text \<open>\<open>str(ip)\<close>.\<close>

definition show_v4 :: "int \<Rightarrow> string" where
  "show_v4 n = join ''.'' (map show_pos [n div 16777216, n div 65536 mod 256, n div 256 mod 256, n mod 256])"

definition v6_parts :: "int \<Rightarrow> int list" where
  "v6_parts n = map (\<lambda>i. n div 65536 ^ (7 - i) mod 65536) [0..<8]"

text \<open>Longest run of zero parts: (start, length), the leftmost of the longest.\<close>

fun zero_run :: "nat \<Rightarrow> nat \<Rightarrow> nat \<times> nat \<Rightarrow> int list \<Rightarrow> nat \<times> nat" where
  "zero_run i len best [] = best"
| "zero_run i len best (x # xs) =
     (if x = 0 then zero_run (Suc i) (Suc len) (if Suc len > snd best then (i - len, Suc len) else best) xs
      else zero_run (Suc i) 0 best xs)"

definition show_v6 :: "int \<Rightarrow> string" where
  "show_v6 n =
     (let hs = map show_hex (v6_parts n); (st, len) = zero_run 0 0 (0, 0) (v6_parts n)
      in if len > 1 then
           join '':'' ((if st = 0 then [[]] else []) @ take st hs @ [[]] @ drop (st + len) hs
                       @ (if st + len = 8 then [[]] else []))
         else join '':'' hs)"

fun show_ip :: "ip \<Rightarrow> string" where
  "show_ip (V4 n) = show_v4 n"
| "show_ip (V6 n z) = show_v6 n @ (case z of None \<Rightarrow> [] | Some s \<Rightarrow> ''%'' @ s)"

section \<open>Networks\<close>

datatype net = Net4 int nat | Net6 int nat

text \<open>\<open>ip in net\<close>: the same version and the same first \<open>p\<close> bits.\<close>

fun ip_in :: "ip \<Rightarrow> net \<Rightarrow> bool" where
  "ip_in (V4 n) (Net4 b p) = (n div 2 ^ (32 - p) = b div 2 ^ (32 - p))"
| "ip_in (V6 n _) (Net6 b p) = (n div 2 ^ (128 - p) = b div 2 ^ (128 - p))"
| "ip_in _ _ = False"

definition mask_prefix :: "int \<Rightarrow> nat option" where
  "mask_prefix m =
     (case find (\<lambda>p. m = 2 ^ 32 - 2 ^ (32 - p)) [0..<33] of
        Some p \<Rightarrow> Some p
      | None \<Rightarrow> find (\<lambda>p. m = 2 ^ (32 - p) - 1) [0..<33])"

definition prefix_num :: "nat \<Rightarrow> string \<Rightarrow> nat option" where
  "prefix_num mx s = (case num s of None \<Rightarrow> None | Some n \<Rightarrow> if n \<le> int mx then Some (nat n) else None)"

text \<open>\<open>ipaddress.ip_network(s, strict=False)\<close>: host bits are cleared.\<close>

definition ip_network :: "string \<Rightarrow> net option" where
  "ip_network s =
     (case split_chr CHR ''/'' s of
        [a] \<Rightarrow> (case ip_address a of
                  Some (V4 n) \<Rightarrow> Some (Net4 n 32)
                | Some (V6 n _) \<Rightarrow> Some (Net6 n 128)
                | None \<Rightarrow> None)
      | [a, m] \<Rightarrow>
         (case ip_address a of
            Some (V4 n) \<Rightarrow>
              map_option (\<lambda>p. Net4 (n div 2 ^ (32 - p) * 2 ^ (32 - p)) p)
                (case prefix_num 32 m of Some p \<Rightarrow> Some p | None \<Rightarrow> Option.bind (parse_v4 m) mask_prefix)
          | Some (V6 n _) \<Rightarrow> map_option (\<lambda>p. Net6 (n div 2 ^ (128 - p) * 2 ^ (128 - p)) p) (prefix_num 128 m)
          | None \<Rightarrow> None)
      | _ \<Rightarrow> None)"

text \<open>\<open>ipaddress.IPv4Network(s, strict)\<close>: base address and prefix length; a strict network has no host
  bits in its text.\<close>

definition ipv4_network :: "bool \<Rightarrow> string \<Rightarrow> (int \<times> nat) option" where
  "ipv4_network strict s =
     (let am = (case split_chr CHR ''/'' s of
                  [a] \<Rightarrow> Some (parse_v4 a, Some 32)
                | [a, m] \<Rightarrow> Some (parse_v4 a,
                     (case prefix_num 32 m of Some p \<Rightarrow> Some p | None \<Rightarrow> Option.bind (parse_v4 m) mask_prefix))
                | _ \<Rightarrow> None)
      in case am of
           Some (Some n, Some p) \<Rightarrow>
             (let b = n div 2 ^ (32 - p) * 2 ^ (32 - p)
              in if strict \<and> b \<noteq> n then None else Some (b, p))
         | _ \<Rightarrow> None)"

fun show_net :: "net \<Rightarrow> string" where
  "show_net (Net4 b p) = show_v4 b @ ''/'' @ show_nat p"
| "show_net (Net6 b p) = show_v6 b @ ''/'' @ show_nat p"

section \<open>Registry predicates\<close>

definition v4 :: "int \<Rightarrow> int \<Rightarrow> int \<Rightarrow> int \<Rightarrow> int" where
  "v4 a b c d = ((a * 256 + b) * 256 + c) * 256 + d"

text \<open>\<open>v6h a b c\<close> is the address whose first three parts are given, the others zero.\<close>

definition v6h :: "int \<Rightarrow> int \<Rightarrow> int \<Rightarrow> int" where
  "v6h a b c = ((a * 65536 + b) * 65536 + c) * 2 ^ 80"

definition ipv4_mapped :: "ip \<Rightarrow> ip option" where
  "ipv4_mapped a = (case a of V6 n _ \<Rightarrow> if n div 2 ^ 32 = 65535 then Some (V4 (n mod 2 ^ 32)) else None
                   | V4 _ \<Rightarrow> None)"

definition private_nets :: "net list" where
  "private_nets =
    [Net4 0 8, Net4 (v4 10 0 0 0) 8, Net4 (v4 127 0 0 0) 8, Net4 (v4 169 254 0 0) 16, Net4 (v4 172 16 0 0) 12,
     Net4 (v4 192 0 0 0) 24, Net4 (v4 192 0 0 170) 31, Net4 (v4 192 0 2 0) 24, Net4 (v4 192 168 0 0) 16,
     Net4 (v4 198 18 0 0) 15, Net4 (v4 198 51 100 0) 24, Net4 (v4 203 0 113 0) 24, Net4 (v4 240 0 0 0) 4,
     Net4 (v4 255 255 255 255) 32,
     Net6 1 128, Net6 0 128, Net6 (65535 * 2 ^ 32) 96, Net6 (v6h 0x64 0xff9b 1) 48, Net6 (v6h 0x100 0 0) 64,
     Net6 (v6h 0x2001 0 0) 23, Net6 (v6h 0x2001 0xdb8 0) 32, Net6 (v6h 0x2002 0 0) 16, Net6 (v6h 0xfc00 0 0) 7,
     Net6 (v6h 0xfe80 0 0) 10]"

definition private_exceptions :: "net list" where
  "private_exceptions =
    [Net4 (v4 192 0 0 9) 32, Net4 (v4 192 0 0 10) 32,
     Net6 (v6h 0x2001 1 0 + 1) 128, Net6 (v6h 0x2001 1 0 + 2) 128, Net6 (v6h 0x2001 3 0) 32,
     Net6 (v6h 0x2001 4 0x112) 48, Net6 (v6h 0x2001 0x20 0) 28, Net6 (v6h 0x2001 0x30 0) 28]"

definition reserved_nets :: "net list" where
  "reserved_nets =
    [Net4 (v4 240 0 0 0) 4,
     Net6 0 8, Net6 (v6h 0x100 0 0) 8, Net6 (v6h 0x200 0 0) 7, Net6 (v6h 0x400 0 0) 6, Net6 (v6h 0x800 0 0) 5,
     Net6 (v6h 0x1000 0 0) 4, Net6 (v6h 0x4000 0 0) 3, Net6 (v6h 0x6000 0 0) 3, Net6 (v6h 0x8000 0 0) 3,
     Net6 (v6h 0xA000 0 0) 3, Net6 (v6h 0xC000 0 0) 3, Net6 (v6h 0xE000 0 0) 4, Net6 (v6h 0xF000 0 0) 5,
     Net6 (v6h 0xF800 0 0) 6, Net6 (v6h 0xFE00 0 0) 9]"

definition in_any :: "net list \<Rightarrow> ip \<Rightarrow> bool" where
  "in_any nets a = list_ex (ip_in a) nets"

definition is_private :: "ip \<Rightarrow> bool" where
  "is_private a = (let b = (case ipv4_mapped a of Some m \<Rightarrow> m | None \<Rightarrow> a)
                   in in_any private_nets b \<and> \<not> in_any private_exceptions b)"

definition is_global :: "ip \<Rightarrow> bool" where
  "is_global a = (\<not> is_private a \<and> \<not> ip_in a (Net4 (v4 100 64 0 0) 10))"

definition is_link_local :: "ip \<Rightarrow> bool" where
  "is_link_local a = in_any [Net4 (v4 169 254 0 0) 16, Net6 (v6h 0xfe80 0 0) 10] a"

definition is_multicast :: "ip \<Rightarrow> bool" where
  "is_multicast a = in_any [Net4 (v4 224 0 0 0) 4, Net6 (v6h 0xff00 0 0) 8] a"

definition is_reserved :: "ip \<Rightarrow> bool" where
  "is_reserved a = in_any reserved_nets a"

definition ip_num :: "ip \<Rightarrow> int" where
  "ip_num a = (case a of V4 n \<Rightarrow> n | V6 n _ \<Rightarrow> n)"

definition is_unspecified :: "ip \<Rightarrow> bool" where
  "is_unspecified a = (ip_num a = 0)"

definition is_loopback :: "ip \<Rightarrow> bool" where
  "is_loopback a = (case a of V4 n \<Rightarrow> ip_in a (Net4 (v4 127 0 0 0) 8) | V6 n _ \<Rightarrow> n = 1)"

section \<open>The printed form of an IPv4 address\<close>

lemma show_pos_one: "n < 10 \<Longrightarrow> show_pos n = [digit n]"
  by (simp add: show_pos.simps)

lemma length_show_pos: "0 \<le> n \<Longrightarrow> n < 1000 \<Longrightarrow> length (show_pos n) \<le> 3"
proof -
  assume n: "0 \<le> n" "n < 1000"
  have one: "length (show_pos m) \<le> 1" if "m < 10" for m using that by (simp add: show_pos_one)
  have two: "length (show_pos m) \<le> 2" if "m < 100" for m
    using one [of "m div 10"] that by (subst show_pos.simps) auto
  show ?thesis using two [of "n div 10"] n by (subst show_pos.simps) auto
qed

lemma hd_show_pos: "0 < n \<Longrightarrow> hd (show_pos n) \<noteq> CHR ''0''"
proof (induction n rule: show_pos.induct)
  case (1 n)
  show ?case
  proof (cases "n < 10")
    case True
    then have "(of_char (digit n) :: nat) \<noteq> of_char CHR ''0''"
      using 1 by (simp add: of_char_digit)
    then show ?thesis using True by (auto simp: show_pos_one)
  next
    case False
    with 1 have "hd (show_pos (n div 10)) \<noteq> CHR ''0''" by simp
    then show ?thesis using False show_pos_digits [of "n div 10"] by (simp add: show_pos.simps [of n])
  qed
qed

lemma octet_show_pos:
  assumes "0 \<le> n" "n < 256"
  shows "octet (show_pos n) = Some n"
proof -
  have "length (show_pos n) \<le> 3" using assms by (simp add: length_show_pos)
  moreover have "\<not> (length (show_pos n) > 1 \<and> hd (show_pos n) = CHR ''0'')"
    using hd_show_pos [of n] assms by (cases "n = 0") (auto simp: show_pos_one)
  ultimately show ?thesis
    using assms show_pos_digits [of n] by (simp add: octet_def)
qed

lemma dot_notin_show_pos: "0 \<le> n \<Longrightarrow> CHR ''.'' \<notin> set (show_pos n) \<and> CHR ''/'' \<notin> set (show_pos n)"
  using show_pos_digits [of n] by (auto simp: list_all_iff is_dig_def chr_between_def)

lemma v4_digits:
  fixes n :: int
  shows "((n div 16777216 * 256 + n div 65536 mod 256) * 256 + n div 256 mod 256) * 256 + n mod 256 = n"
proof -
  have a: "n div 65536 = n div 256 div 256"
    using zdiv_zmult2_eq [of 256 n 256] by simp
  have b: "n div 16777216 = n div 65536 div 256"
    using zdiv_zmult2_eq [of 256 n 65536] by simp
  have "n div 16777216 * 256 + n div 65536 mod 256 = n div 65536"
    unfolding b by (rule div_mult_mod_eq)
  moreover have "n div 65536 * 256 + n div 256 mod 256 = n div 256"
    unfolding a by (rule div_mult_mod_eq)
  ultimately show ?thesis by (simp only: div_mult_mod_eq)
qed

lemma parse_v4_octets:
  assumes "0 \<le> a" "a < 256" "0 \<le> b" "b < 256" "0 \<le> c" "c < 256" "0 \<le> d" "d < 256"
  shows "parse_v4 (join ''.'' (map show_pos [a, b, c, d])) = Some (((a * 256 + b) * 256 + c) * 256 + d)"
proof -
  have "split_chr CHR ''.'' (join ''.'' (map show_pos [a, b, c, d])) = map show_pos [a, b, c, d]"
    using assms by (intro split_chr_join) (auto simp: dot_notin_show_pos)
  then show ?thesis
    using assms by (simp add: parse_v4_def octet_show_pos)
qed

lemma parse_v4_show:
  assumes "0 \<le> n" "n < 4294967296"
  shows "parse_v4 (show_v4 n) = Some n"
proof -
  have "0 \<le> n div 16777216" "n div 16777216 < 256"
    using assms by (simp_all add: pos_imp_zdiv_nonneg_iff)
  then show ?thesis
    using parse_v4_octets [of "n div 16777216" "n div 65536 mod 256" "n div 256 mod 256" "n mod 256"]
    unfolding show_v4_def v4_digits by (simp only: pos_mod_sign pos_mod_bound zero_less_numeral)
qed

lemma slash_notin_show_v4: "0 \<le> n \<Longrightarrow> CHR ''/'' \<notin> set (show_v4 n)"
  by (simp add: show_v4_def dot_notin_show_pos pos_imp_zdiv_nonneg_iff)

text \<open>An IPv4 address reads back from its text.\<close>

lemma ip_address_show_v4: "0 \<le> n \<Longrightarrow> n < 4294967296 \<Longrightarrow> ip_address (show_ip (V4 n)) = Some (V4 n)"
  by (simp add: ip_address_def slash_notin_show_v4 parse_v4_show)

end
