(* ===== verification/Check_Rows.thy ===== *)
theory Check_Rows
  imports Panel_Rows Py_Ipaddress
begin

text \<open>
  The row of a site monitor (the columns of \<open>models.Check\<close> that the modelled operations use), the
  result of a check (\<open>checks.CheckOutcome\<close>), the tables a check writes to, and the queue of alerts
  (\<open>collector.Pending\<close>); with the two parsers of addresses from \<open>checks.py\<close> and \<open>inside_probe.py\<close>
  and the part of \<open>urllib.parse\<close> they use.
\<close>

section \<open>Rows\<close>

record check =
  ck_id :: int
  ck_name :: string
  ck_type :: string
  ck_target :: string
  ck_group :: "string option"
  parent_mode :: "string option"
  parent_server_id :: "int option"
  ck_enabled :: bool
  interval_seconds :: int
  alert_after_failures :: int
  degraded_after_failures :: int
  check_ssl :: bool
  check_domain :: bool
  ssl_warn_days :: "int list"
  domain_warn_days :: "int list"
  check_locations :: bool
  location_ids :: "int list option"
  probe_local :: bool
  probe_server_id :: "int option"
  probe_bound_at :: "dt option"
  paths_changed_at :: "dt option"
  created_at :: "dt option"
  dns_expect :: string
  dns_baseline :: "string list"
  dns_last :: "string list"
  consecutive_fails :: int
  last_status :: string
  last_message :: string
  last_latency_ms :: "int option"
  last_value :: "rat option"
  last_checked_at :: "dt option"
  flap_state :: "dict option"
  flaky_since :: "dt option"
  flaky_notified :: bool
  known_issue :: "dict option"
  ssl_days :: "int option"
  domain_days :: "int option"
  ssl_message :: string
  domain_message :: string
  expiry_checked_at :: "dt option"
  ssl_alerted_days :: "int option"
  domain_alerted_days :: "int option"
  expiry_snooze :: py
  last_ip_results :: "py"
  last_path_results :: "py"
  last_phases :: "py"
  last_inside :: "py"

definition check0 :: check where
  "check0 = \<lparr>ck_id = 1, ck_name = ''site'', ck_type = ''http'', ck_target = ''https://example.com'', ck_group = None, parent_mode = None, parent_server_id = None, ck_enabled = True,
     interval_seconds = 60, alert_after_failures = 3, degraded_after_failures = 5, check_ssl = True, check_domain = True,
     ssl_warn_days = [7, 1], domain_warn_days = [7, 1], check_locations = True, location_ids = None,
     probe_local = False, probe_server_id = None, probe_bound_at = None, paths_changed_at = None, created_at = None,
     dns_expect = [], dns_baseline = [], dns_last = [], consecutive_fails = 0, last_status = ''unknown'', last_message = [],
     last_latency_ms = None, last_value = None, last_checked_at = None, flap_state = None, flaky_since = None,
     flaky_notified = False, known_issue = None, ssl_days = None, domain_days = None, ssl_message = [], domain_message = [],
     expiry_checked_at = None, ssl_alerted_days = None, domain_alerted_days = None, expiry_snooze = PNone,
     last_ip_results = PNone, last_path_results = PNone, last_phases = PNone, last_inside = PNone\<rparr>"

record outcome =
  oc_status :: string
  oc_latency_ms :: "int option"
  oc_value :: "rat option"
  oc_message :: string
  oc_ip_results :: "dict list option"
  oc_path_results :: py
  oc_answers :: "string list option"
  oc_phases :: py

record sample =
  sm_check :: int
  sm_ts :: time
  sm_status :: string
  sm_message :: string
  sm_latency_ms :: "int option"
  sm_value :: "rat option"
  sm_phases :: dict

record ip_sample =
  is_check :: int
  is_ip :: py
  is_status :: py
  is_latency :: py
  is_ts :: time

record incident =
  in_id :: int
  in_check :: int
  in_status :: string
  in_started_at :: dt
  in_ended_at :: "dt option"
  in_last_message :: string
  in_notified :: bool

record site_db =
  samples :: "sample list"
  ip_samples :: "ip_sample list"
  incidents :: "incident list"
  known_audit :: "(string \<times> string) list"  \<comment> \<open>action and monitor of the entries written by the panel itself\<close>
  probe_requests :: "(int \<times> int \<times> time) list"  \<comment> \<open>the requests of kind \<open>inside\<close>: monitor, server, when\<close>
  db_servers :: "server list"

definition site_db0 :: site_db where
  "site_db0 = \<lparr>samples = [], ip_samples = [], incidents = [], known_audit = [], probe_requests = [], db_servers = []\<rparr>"

text \<open>The queue of alerts.  Texts are codes with their arguments; a flag is what a delivered alert writes
  into the row.\<close>

datatype site_text =
    RawText string
  | StableAgain string
  | FlakyText int int string                \<comment> \<open>failures, checks, last error\<close>
  | FlakyOver
  | KnownReminder string dict
  | SslRenewed int
  | SslExpires int
  | DomainRenewed string int
  | DomainExpires string int int            \<comment> \<open>domain, days, monitors on it\<close>

datatype flag = FlapState dict | FlakyNotified bool | SslAlerted int | DomainAlerted int

record pending =
  pd_kind :: string
  pd_name :: string
  pd_status :: string
  pd_text :: site_text
  pd_inc :: "int option"
  pd_check :: int
  pd_flags :: "flag list"

section \<open>urllib.parse\<close>

text \<open>\<open>urlsplit(url).netloc\<close>; the checks of non-ASCII and of bracketed hosts other than IPv6 addresses are left out.\<close>

definition is_scheme_char :: "char \<Rightarrow> bool" where
  "is_scheme_char c \<longleftrightarrow> chr_between 65 90 c \<or> chr_between 97 122 c \<or> is_dig c \<or> c \<in> {CHR ''+'', CHR ''-'', CHR ''.''}"

definition url_netloc :: "string \<Rightarrow> string res" where
  "url_netloc url0 =
     (let url = filter (\<lambda>c. of_char c \<notin> {9, 10, 13 :: nat}) (dropWhile (\<lambda>c. of_char c \<le> (32 :: nat)) url0);
          (pre, sep, rest) = partition_chr CHR '':'' url;
          rest = (if sep \<and> pre \<noteq> [] \<and> (chr_between 65 90 (hd pre) \<or> chr_between 97 122 (hd pre)) \<and> list_all is_scheme_char pre
                  then rest else url)
      in if take 2 rest = ''//'' then
           (let netloc = takeWhile (\<lambda>c. c \<notin> {CHR ''/'', CHR ''?'', CHR ''#''}) (drop 2 rest)
            in if (CHR ''['' \<in> set netloc) \<noteq> (CHR '']'' \<in> set netloc) then Inl ValueError
               else if CHR ''['' \<in> set netloc \<and>
                 parse_v6 (takeWhile (\<lambda>c. c \<noteq> CHR '']'') (tl (dropWhile (\<lambda>c. c \<noteq> CHR ''['') netloc))) = None
               then Inl ValueError
               else Inr netloc)
         else Inr [])"

definition url_hostinfo :: "string \<Rightarrow> string \<times> string" where
  "url_hostinfo netloc =
     (let hostinfo = last (split_chr CHR ''@'' netloc);
          (_, br, bracketed) = partition_chr CHR ''['' hostinfo
      in if br then
           (case partition_chr CHR '']'' bracketed of (h, _, p) \<Rightarrow> (h, snd (snd (partition_chr CHR '':'' p))))
         else (case partition_chr CHR '':'' hostinfo of (h, _, p) \<Rightarrow> (h, p)))"

definition url_hostname :: "string \<Rightarrow> string" where
  "url_hostname netloc =
     (case partition_chr CHR ''%'' (fst (url_hostinfo netloc)) of
        (h, sep, zone) \<Rightarrow> lower h @ (if sep then CHR ''%'' # zone else []))"

definition url_port :: "string \<Rightarrow> int option res" where
  "url_port netloc =
     (let p = snd (url_hostinfo netloc) in
      if p = [] then Inr None
      else case num p of
        None \<Rightarrow> Inl ValueError
      | Some n \<Rightarrow> if n \<le> 65535 then Inr (Some n) else Inl ValueError)"

section \<open>Addresses of monitors\<close>

definition MULTI_TLD :: "string list" where
  "MULTI_TLD = [''co.uk'', ''org.uk'', ''ac.uk'', ''gov.uk'', ''me.uk'', ''com.au'', ''net.au'', ''org.au'',
     ''co.nz'', ''com.cy'', ''co.il'', ''com.br'', ''com.tr'', ''co.jp'', ''com.sg'', ''com.hk'',
     ''com.ua'', ''co.za'', ''com.mx'', ''com.ar'']"

definition registrable_domain :: "string \<Rightarrow> string res" where
  "registrable_domain target =
     rbind (let host = strip target in
            if contains host ''://''
            then rbind (url_netloc host) (\<lambda>n. let h = url_hostname n in Inr (if h \<noteq> [] then h else host))
            else Inr host) (\<lambda>host.
       let host = lower (rstrip_chars (\<lambda>c. c = CHR ''.'')
                    (strip (hd (split_chr CHR '':'' (hd (split_chr CHR ''/'' host))))));
           labels = filter (\<lambda>x. x \<noteq> []) (split_chr CHR ''.'' host)
       in if length labels \<le> 2 then Inr (join ''.'' labels)
          else (let last2 = join ''.'' (last_n 2 labels)
                in Inr (if last2 \<in> set MULTI_TLD then join ''.'' (last_n 3 labels) else last2)))"

text \<open>\<open>inside_probe._port\<close>: \<open>None\<close> is the default port, -1 an address that cannot be read.\<close>

definition probe_port :: "string \<Rightarrow> int option" where
  "probe_port target =
     (let t = strip target in
      case rbind (url_netloc (if contains t ''://'' then t else ''http://'' @ t)) url_port of
        Inr p \<Rightarrow> p
      | Inl _ \<Rightarrow> Some (- 1))"

end
