(* ===== verification/Tunnels.thy ===== *)
theory Tunnels
  imports Panel_Rows Py_Ipaddress
begin

text \<open>
  How an agent that cannot reach the panel directly gets there: \<open>relay.py\<close> (a proxy on another
  server) and \<open>gre.py\<close> (a GRE tunnel with a /30 of its own from a pool).

  Modelled: the addresses and the credentials of a relay, the state shown on its card, what a
  helper's report is reduced to; the allocation of a tunnel network, the replacement of the
  tunnel's inner address by the public one, the path of the last report, the parser of the
  host's answer file, the list written for the host, the state machine of the card, the alert
  for a broken tunnel and the readiness of the install command.  The Russian texts are codes.
\<close>

section \<open>relay.py\<close>

definition DEFAULT_PORT :: int where
  "DEFAULT_PORT = 8790"

definition relay_HELPER :: string where
  "relay_HELPER = ''relay-setup''"

definition relay_USER :: string where
  "relay_USER = ''kervax''"

definition relay_STALE :: int where
  "relay_STALE = 5 * 60 * 1000000"

definition port_of :: "server \<Rightarrow> int" where
  "port_of r = (if relay_port r \<noteq> 0 then relay_port r else DEFAULT_PORT)"

definition valid_ip :: "string \<Rightarrow> bool" where
  "valid_ip s \<longleftrightarrow> ip_address s \<noteq> None"

definition address_of :: "server \<Rightarrow> string" where
  "address_of s =
     (case find valid_ip [strip (agent_ip s), strip (external_ip s)] of
        Some a \<Rightarrow> a
      | None \<Rightarrow> [])"

text \<open>\<open>token\<close> is what \<open>secrets.token_urlsafe(18)\<close> gives this time.\<close>

definition ensure_credentials :: "string \<Rightarrow> server \<Rightarrow> server" where
  "ensure_credentials token r =
     (let r1 = (if relay_user r = [] then r\<lparr>relay_user := relay_USER\<rparr> else r)
      in if relay_password r1 = [] then r1\<lparr>relay_password := token\<rparr> else r1)"

definition proxy_url :: "server \<Rightarrow> string" where
  "proxy_url r =
     (let host = address_of r;
          host = (if CHR '':'' \<in> set host then ''['' @ host @ '']'' else host)
      in ''http://'' @ relay_user r @ '':'' @ relay_password r @ ''@'' @ host @ '':'' @ show_int (port_of r))"

datatype relay_problem = PlainHttpPanel | NeverSeen | NotOnline | ItselfBehindProxy | NoAddress

definition relay_enable_problem :: "settings \<Rightarrow> server \<Rightarrow> bool \<Rightarrow> relay_problem option" where
  "relay_enable_problem st r online =
     (if startswith (lower (panel_url st)) ''http://'' then Some PlainHttpPanel
      else if last_seen r = None then Some NeverSeen
      else if \<not> online then Some NotOnline
      else if truthy (dget (or_empty (last_report r)) ''proxy'') then Some ItselfBehindProxy
      else if address_of r = [] then Some NoAddress
      else None)"

definition clients :: "server list \<Rightarrow> server \<Rightarrow> string list" where
  "clients rows r =
     sorted_set (filter (\<lambda>ip. ip \<noteq> [])
       (map address_of (filter (\<lambda>s. relay_via_id s = Some (sid r) \<and> sid s \<noteq> sid r) rows)))"

text \<open>The exceptions caught are TypeError and ValueError: an infinite float still raises.\<close>

definition relay_count :: "py \<Rightarrow> int res" where
  "relay_count v =
     (case py_int (por v (PInt 0)) of
        Inr n \<Rightarrow> Inr (max 0 n)
      | Inl e \<Rightarrow> if e = TypeError \<or> e = ValueError then Inr 0 else Inl e)"

definition installed_helper :: "string \<Rightarrow> server \<Rightarrow> py res" where
  "installed_helper h s = pget (por (dget (or_empty (last_report s)) ''setup_versions'') (PDict [])) h"

definition opt_iso :: "dt option \<Rightarrow> py" where
  "opt_iso t = (case t of None \<Rightarrow> PNone | Some d \<Rightarrow> PStr (isoformat d))"

definition py_or_empty_str :: "py \<Rightarrow> string" where
  "py_or_empty_str v = (if truthy v then py_str v else [])"

definition relay_view_state :: "server \<Rightarrow> time \<Rightarrow> py \<Rightarrow> string" where
  "relay_view_state r now installed =
     (case map_option aware (relay_seen_at r) of
        None \<Rightarrow> if truthy installed then ''waiting'' else ''no_helper''
      | Some seen \<Rightarrow>
          if now - dt_utc seen > relay_STALE then ''stale''
          else if truthy (dget (or_empty (relay_state r)) ''error'') then ''error''
          else ''ok'')"

definition relay_view :: "server \<Rightarrow> time \<Rightarrow> dict option res" where
  "relay_view r now =
     (if \<not> relay_enabled r then Inr None
      else
        (let st = or_empty (relay_state r) in
         rbind (installed_helper relay_HELPER r) (\<lambda>installed.
         rbind (relay_count (dget st ''clients'')) (\<lambda>cl.
         rbind (py_int (por (dget st ''conns'') (PInt 0))) (\<lambda>conns.
         rbind (py_int (por (dget st ''denied'') (PInt 0))) (\<lambda>denied.
           Inr (Some
             [(''state'', PStr (relay_view_state r now installed)),
              (''port'', PInt (port_of r)),
              (''clients'', PInt cl),
              (''firewall'', PStr (py_or_empty_str (dget st ''firewall''))),
              (''error'', PStr (take 300 (py_or_empty_str (dget st ''error'')))),
              (''conns'', PInt conns),
              (''denied'', PInt denied),
              (''seen_at'', opt_iso (map_option aware (relay_seen_at r))),
              (''helper'', PStr (if truthy installed then py_str installed else []))])))))))"

definition known_firewall :: "string \<Rightarrow> string" where
  "known_firewall fw = (if fw \<in> {''ufw'', ''firewalld'', ''none''} then fw else [])"

definition relay_helper_status :: "dict \<Rightarrow> dict res" where
  "relay_helper_status body =
     (let fw = py_or_empty_str (dget body ''firewall'') in
      rbind (relay_count (dget body ''conns'')) (\<lambda>conns.
      rbind (relay_count (dget body ''denied'')) (\<lambda>denied.
      rbind (relay_count (dget body ''clients'')) (\<lambda>cl.
        Inr [(''version'', PStr (take 16 (py_or_empty_str (dget body ''version'')))),
             (''listening'', PBool (truthy (dget body ''listening''))),
             (''firewall'', PStr (known_firewall fw)),
             (''error'', PStr (take 300 (py_or_empty_str (dget body ''error'')))),
             (''conns'', PInt conns),
             (''denied'', PInt denied),
             (''clients'', PInt cl)]))))"

section \<open>gre.py: networks\<close>

type_synonym net4 = "int \<times> nat"

definition default_pool :: net4 where
  "default_pool = (184418304, 16)"

definition pool :: "settings \<Rightarrow> net4" where
  "pool st = (case ip_network (gre_pool st) of
     Some (Net4 b p) \<Rightarrow> if p \<le> 30 then (b, p) else default_pool
   | _ \<Rightarrow> default_pool)"

definition iface_of :: "server \<Rightarrow> string" where
  "iface_of s = ''kvxg'' @ show_int (sid s)"

text \<open>\<open>IPv4Network.__contains__\<close>, \<open>broadcast_address\<close> and \<open>overlaps\<close>.\<close>

definition net_size :: "net4 \<Rightarrow> int" where
  "net_size n = 2 ^ (32 - snd n)"

definition in_net :: "int \<Rightarrow> net4 \<Rightarrow> bool" where
  "in_net x n \<longleftrightarrow> x div net_size n * net_size n = fst n"

definition broadcast :: "net4 \<Rightarrow> int" where
  "broadcast n = fst n + net_size n - 1"

definition overlaps :: "net4 \<Rightarrow> net4 \<Rightarrow> bool" where
  "overlaps a b \<longleftrightarrow> in_net (fst b) a \<or> in_net (broadcast b) a \<or> in_net (fst a) b \<or> in_net (broadcast a) b"

definition addrs :: "string \<Rightarrow> string \<times> string" where
  "addrs net =
     (case ipv4_network True net of
        None \<Rightarrow> ([], [])
      | Some (b, p) \<Rightarrow> if p \<noteq> 30 then ([], []) else (show_v4 (b + 1), show_v4 (b + 2)))"

definition net_str :: "server \<Rightarrow> string" where
  "net_str s = (case gre_net s of None \<Rightarrow> [] | Some n \<Rightarrow> n)"

text \<open>The loop over \<open>pool().subnets(new_prefix=30)\<close>: bases \<open>b, b + 4, \<dots>\<close> below \<open>e\<close>.\<close>

function first_free :: "net4 list \<Rightarrow> int \<Rightarrow> int \<Rightarrow> int option" where
  "first_free taken b e =
     (if e \<le> b then None
      else if \<not> list_ex (overlaps (b, 30)) taken then Some b
      else first_free taken (b + 4) e)"
  by pat_completeness auto
termination by (relation "measure (\<lambda>(t, b, e). nat (e - b))") auto

declare first_free.simps [simp del]

definition allocate :: "settings \<Rightarrow> string option list \<Rightarrow> server \<Rightarrow> (string option \<times> server) res" where
  "allocate st nets s =
     (if fst (addrs (net_str s)) \<noteq> [] then Inr (gre_net s, s)
      else
        (let taken = List.map_filter (\<lambda>v. Option.bind v (ipv4_network False)) nets;
             pl = pool st
         in case first_free taken (fst pl) (fst pl + net_size pl) of
              None \<Rightarrow> Inl ValueError
            | Some b \<Rightarrow> (let net = show_net (Net4 b 30) in Inr (Some net, s\<lparr>gre_net := Some net\<rparr>))))"

definition not_public :: "net4 list" where
  "not_public = [(0, 8), (v4 10 0 0 0, 8), (v4 100 64 0 0, 10), (v4 127 0 0 0, 8), (v4 169 254 0 0, 16),
     (v4 172 16 0 0, 12), (v4 192 168 0 0, 16), (v4 198 18 0 0, 15), (v4 224 0 0 0, 3)]"

definition is_public :: "string \<Rightarrow> bool" where
  "is_public s = (case ip_address s of
     Some (V4 n) \<Rightarrow> \<not> list_ex (in_net n) not_public
   | _ \<Rightarrow> False)"

definition peer_of :: "server \<Rightarrow> string" where
  "peer_of s =
     (let p = strip (gre_peer s) in
      if is_public p then p
      else (let a = address_of s in if is_public a then a else []))"

definition in_pool :: "settings \<Rightarrow> string \<Rightarrow> bool" where
  "in_pool st s = (case ip_address s of Some (V4 n) \<Rightarrow> in_net n (pool st) | _ \<Rightarrow> False)"

definition real_ip :: "settings \<Rightarrow> server \<Rightarrow> string \<Rightarrow> time \<Rightarrow> string \<times> server" where
  "real_ip st s ext now =
     (if ext = [] \<or> \<not> in_pool st ext then (ext, s)
      else if net_str s \<noteq> [] \<and> ext = snd (addrs (net_str s))
        then (let s' = s\<lparr>gre_agent_at := Some (utc now)\<rparr> in (peer_of s', s'))
      else ([], s))"

section \<open>gre.py: the path of the last report\<close>

definition PATH_KEY :: string where
  "PATH_KEY = ''gre_path''"

fun as_int :: "py \<Rightarrow> int option" where
  "as_int (PInt i) = Some i"
| "as_int (PBool b) = Some (if b then 1 else 0)"
| "as_int _ = None"

definition track_path :: "server \<Rightarrow> dict \<Rightarrow> dict \<Rightarrow> bool \<Rightarrow> time \<Rightarrow> dict" where
  "track_path s prev_rep rep via_gre now =
     (if \<not> gre_enabled s \<and> \<not> via_gre then rep
      else
        (let via = (if via_gre then ''gre'' else ''direct'');
             prev = dict_or_empty (dget prev_rep PATH_KEY);
             since = (if dget prev ''via'' = PStr via then dget prev ''since'' else PNone)
         in dset PATH_KEY (PDict [(''via'', PStr via),
              (''since'', if as_int since \<noteq> None then since else PInt (unix now))]) rep))"

definition gre_path :: "server \<Rightarrow> (string \<times> string option) res" where
  "gre_path s =
     (let p = dict_or_empty (dget (or_empty (last_report s)) PATH_KEY);
          via = dget p ''via'';
          legacy =
            (case (map_option aware (last_seen s), map_option aware (gre_agent_at s)) of
               (None, _) \<Rightarrow> ([], None)
             | (Some seen, Some agent_at) \<Rightarrow>
                 if \<bar>dt_utc seen - dt_utc agent_at\<bar> < 2000000 then (''gre'', None) else (''direct'', None)
             | (Some seen, None) \<Rightarrow> (''direct'', None))
      in case via of
           PStr v \<Rightarrow>
             if v \<in> {''gre'', ''direct''} then
               (case as_int (dget p ''since'') of
                  None \<Rightarrow> Inr (v, None)
                | Some i \<Rightarrow> rbind (fromtimestamp_iso i) (\<lambda>z. Inr (v, Some z)))
             else Inr legacy
         | _ \<Rightarrow> Inr legacy)"

datatype gre_problem = AgentBehindProxy | NoPublicAddress

definition gre_enable_problem :: "server \<Rightarrow> gre_problem option" where
  "gre_enable_problem s =
     (if truthy (dget (or_empty (last_report s)) ''proxy'') then Some AgentBehindProxy
      else if peer_of s = [] then Some NoPublicAddress
      else None)"

section \<open>gre.py: the answer of the panel's host\<close>

record iface_state =
  if_peer :: string
  if_local :: string
  if_ok :: bool
  if_error :: string

record host_answer =
  h_fw :: string
  h_ts :: int
  h_ifaces :: "(string \<times> iface_state) list"

definition host_token :: "host_answer \<Rightarrow> string \<Rightarrow> host_answer" where
  "host_token out tok =
     (case partition_chr CHR ''='' tok of
        (k, _, v) \<Rightarrow>
          if k = ''fw'' then out\<lparr>h_fw := v\<rparr>
          else if k = ''ts'' then (case int_of_str v of Inr n \<Rightarrow> out\<lparr>h_ts := n\<rparr> | Inl _ \<Rightarrow> out)
          else out)"

definition host_line :: "host_answer \<Rightarrow> string \<Rightarrow> host_answer" where
  "host_line out line =
     (if startswith line ''#'' then foldl host_token out (words (drop 1 line))
      else
        (let f = ws_split 4 line in
         if 4 \<le> length f \<and> startswith (f ! 0) ''kvxg'' then
           out\<lparr>h_ifaces := dset (f ! 0)
             \<lparr>if_peer = f ! 1, if_local = f ! 2, if_ok = (f ! 3 = ''ok''),
              if_error = (if 4 < length f then take 200 (f ! 4) else [])\<rparr> (h_ifaces out)\<rparr>
         else out))"

text \<open>\<open>host_state\<close>: \<open>None\<close> for the lines is a file that is not there, and the answer \<open>None\<close> is the
  empty dict.  The cache keyed by the file's time and size is not modelled: it returns what a new
  reading of the same file would.\<close>

definition host_state :: "string list option \<Rightarrow> host_answer option" where
  "host_state file =
     map_option (foldl host_line \<lparr>h_fw = [], h_ts = 0, h_ifaces = []\<rparr>) file"

definition iface_entry :: "host_answer option \<Rightarrow> server \<Rightarrow> iface_state option" where
  "iface_entry host s = Option.bind host (\<lambda>h. map_of (h_ifaces h) (iface_of s))"

definition panel_ip :: "settings \<Rightarrow> server \<Rightarrow> host_answer option \<Rightarrow> string" where
  "panel_ip st s host =
     (let fixed = strip (gre_host_ip st) in
      if is_public fixed then fixed
      else case iface_entry host s of
        None \<Rightarrow> []
      | Some i \<Rightarrow> if if_ok i \<and> is_public (if_local i) then if_local i else [])"

definition tunnel_line :: "server \<Rightarrow> string option" where
  "tunnel_line s =
     (let (mine, node) = addrs (net_str s); peer = peer_of s in
      if mine \<noteq> [] \<and> peer \<noteq> [] then Some (join '' '' [iface_of s, peer, mine @ ''/30'', node]) else None)"

text \<open>The text of \<open>data/gre_tunnels\<close>; the rows come in the order of their ids.\<close>

definition write_tunnels :: "server list \<Rightarrow> string list" where
  "write_tunnels rows = ''# kervax-gre v1'' #
     List.map_filter tunnel_line (sort_key sid (filter gre_enabled rows))"

section \<open>gre.py: does the server need a tunnel, and how is it doing\<close>

definition gre_count :: "py \<Rightarrow> int res" where
  "gre_count v =
     (case py_int (por v (PInt 0)) of
        Inr n \<Rightarrow> Inr (max 0 (min n 1000))
      | Inl e \<Rightarrow> if e = TypeError \<or> e = ValueError then Inr 0 else Inl e)"

record need_report =
  n_big_ok :: int
  n_big :: int
  n_small_ok :: int
  n_small :: int
  n_kb :: int

definition need :: "dict \<Rightarrow> need_report option res" where
  "need rep =
     (case dget rep ''net_probe'' of
        PDict p \<Rightarrow>
          rbind (gre_count (dget p ''big_n'')) (\<lambda>big_n.
          rbind (gre_count (dget p ''big_ok'')) (\<lambda>big_ok.
          rbind (gre_count (dget p ''small_n'')) (\<lambda>small_n.
          rbind (gre_count (dget p ''small_ok'')) (\<lambda>small_ok.
            if big_n < 4 \<or> small_ok < 3 then Inr None
            else if big_ok * 4 > big_n \<or> small_ok * 3 < small_n * 2 then Inr None
            else rbind (gre_count (dget p ''big_kb'')) (\<lambda>kb.
              Inr (Some \<lparr>n_big_ok = big_ok, n_big = big_n, n_small_ok = small_ok, n_small = small_n,
                         n_kb = (if kb \<noteq> 0 then kb else 100)\<rparr>))))))
      | _ \<Rightarrow> Inr None)"

definition gre_STALE :: int where
  "gre_STALE = 5 * 60 * 1000000"

definition AGENT_FRESH :: int where
  "AGENT_FRESH = 5 * 60 * 1000000"

definition HOST_STALE :: int where
  "HOST_STALE = 15 * 60 * 1000000"

definition host_ts :: "host_answer option \<Rightarrow> int" where
  "host_ts host = (case host of None \<Rightarrow> 0 | Some h \<Rightarrow> h_ts h)"

text \<open>\<open>clock\<close> is \<open>time.time()\<close>, in microseconds.\<close>

definition host_fresh :: "time \<Rightarrow> host_answer option \<Rightarrow> bool" where
  "host_fresh clock host \<longleftrightarrow> clock - host_ts host * 1000000 < HOST_STALE"

definition gre_host_ok :: "time \<Rightarrow> host_answer option \<Rightarrow> server \<Rightarrow> bool" where
  "gre_host_ok clock host s \<longleftrightarrow>
     (case iface_entry host s of None \<Rightarrow> False | Some i \<Rightarrow> if_ok i) \<and> host_fresh clock host"

definition gre_view_state ::
  "settings \<Rightarrow> server \<Rightarrow> time \<Rightarrow> bool \<Rightarrow> py \<Rightarrow> string" where
  "gre_view_state st s now host_ok installed =
     (let gs = or_empty (gre_state s) in
      case map_option dt_utc (gre_seen_at s) of
        None \<Rightarrow> if truthy installed then ''waiting'' else ''no_helper''
      | Some seen \<Rightarrow>
          if now - seen > gre_STALE then ''stale''
          else if truthy (dget gs ''nat'') then ''nat''
          else if \<not> host_ok \<and> strip (gre_host_ip st) = [] then ''host''
          else if truthy (dget gs ''error'') then ''error''
          else if (case map_option dt_utc (gre_agent_at s) of
                     None \<Rightarrow> False | Some a \<Rightarrow> now - a < AGENT_FRESH) then ''ok''
          else if truthy (dget gs ''up'') then ''up'' else ''down'')"

definition probe_counts :: "py \<Rightarrow> py res" where
  "probe_counts probe =
     (case probe of
        PDict p \<Rightarrow>
          if p = [] then Inr PNone
          else
            rbind (gre_count (dget p ''small_ok'')) (\<lambda>a.
            rbind (gre_count (dget p ''small_n'')) (\<lambda>b.
            rbind (gre_count (dget p ''big_ok'')) (\<lambda>c.
            rbind (gre_count (dget p ''big_n'')) (\<lambda>d.
            rbind (gre_count (dget p ''big_kb'')) (\<lambda>e.
              Inr (PDict [(''small_ok'', PInt a), (''small_n'', PInt b), (''big_ok'', PInt c),
                          (''big_n'', PInt d), (''big_kb'', PInt e)]))))))
      | _ \<Rightarrow> Inr PNone)"

definition gre_view ::
  "settings \<Rightarrow> server \<Rightarrow> time \<Rightarrow> time \<Rightarrow> host_answer option \<Rightarrow> dict option res" where
  "gre_view st s now clock host =
     (if \<not> gre_enabled s then Inr None
      else
        (let gs = or_empty (gre_state s);
             host_ok = gre_host_ok clock host s;
             (mine, node) = addrs (net_str s);
             rep = or_empty (last_report s);
             hi_error = (case iface_entry host s of None \<Rightarrow> [] | Some i \<Rightarrow> if_error i)
         in
         rbind (installed_helper ''gre-setup'' s) (\<lambda>installed.
         rbind (gre_path s) (\<lambda>(via, via_since).
         rbind (if host_ts host \<noteq> 0 then rbind (fromtimestamp_iso (host_ts host)) (\<lambda>t. Inr (PStr t))
                else Inr PNone) (\<lambda>host_at.
         rbind (probe_counts (dget rep ''net_probe'')) (\<lambda>probe.
           Inr (Some
             [(''state'', PStr (gre_view_state st s now host_ok installed)),
              (''net'', PStr (net_str s)),
              (''panel_addr'', PStr mine),
              (''node_addr'', PStr node),
              (''peer'', PStr (peer_of s)),
              (''local_ip'', PStr (py_or_empty_str (dget gs ''local_ip''))),
              (''firewall'', PStr (py_or_empty_str (dget gs ''firewall''))),
              (''error'', PStr (take 300 (if truthy (dget gs ''error'') then py_str (dget gs ''error'') else hi_error))),
              (''up'', PBool (truthy (dget gs ''up''))),
              (''host'', PBool host_ok),
              (''host_fw'', PStr (case host of None \<Rightarrow> [] | Some h \<Rightarrow> h_fw h)),
              (''seen_at'', opt_iso (map_option aware (gre_seen_at s))),
              (''agent_at'', opt_iso (map_option aware (gre_agent_at s))),
              (''helper'', PStr (if truthy installed then py_str installed else [])),
              (''iface'', PStr (iface_of s)),
              (''node_iface'', PStr ''kervax-gre''),
              (''mtu'', PInt 1476),
              (''panel_ip'', PStr (panel_ip st s host)),
              (''host_at'', host_at),
              (''via'', PStr via),
              (''via_since'', case via_since of None \<Rightarrow> PNone | Some t \<Rightarrow> PStr t),
              (''connect'', PStr (take 64 (py_or_empty_str (dget rep ''connect'')))),
              (''connect_down'', PBool (truthy (dget rep ''connect_down''))),
              (''probe'', probe)])))))))"

text \<open>The texts of the alert.\<close>

datatype down_text =
    HostErrorDirect string string   \<comment> \<open>interface, the host's error\<close>
  | HostErrorTunnel string string
  | GoesDirectError string          \<comment> \<open>the helper's error\<close>
  | GoesDirect string               \<comment> \<open>the code, a key of \<open>_DOWN_WHY\<close> or another one\<close>

record gre_down =
  d_level :: int
  d_why :: string
  d_direct :: bool
  d_text :: down_text

definition down ::
  "settings \<Rightarrow> server \<Rightarrow> time \<Rightarrow> time \<Rightarrow> host_answer option \<Rightarrow> gre_down option res" where
  "down st s now clock host =
     (if \<not> gre_enabled s then Inr None
      else rbind (gre_path s) (\<lambda>(via, _).
        let direct = (via = ''direct'');
            rep = or_empty (last_report s);
            later =
              (if \<not> direct \<or> gre_agent_at s = None then Inr None
               else rbind (gre_view st s now clock host) (\<lambda>v.
                 let v = or_empty v;
                     code = (if truthy (dget rep ''connect_down'') then ''connect_down''
                             else py_or_empty_str (dget v ''state''))
                 in Inr (Some \<lparr>d_level = 2, d_why = code, d_direct = True,
                      d_text = (if code = ''error''
                                then GoesDirectError (if truthy (dget v ''error'') then py_str (dget v ''error'') else ''?'')
                                else GoesDirect code)\<rparr>)))
        in case iface_entry host s of
             Some i \<Rightarrow>
               if \<not> if_ok i \<and> host_fresh clock host then
                 (let err = take 200 (strip (if_error i)) in
                  Inr (Some \<lparr>d_level = (if direct then 2 else 1), d_why = ''host_error'', d_direct = direct,
                    d_text = (if direct then HostErrorDirect (iface_of s) err
                              else HostErrorTunnel (iface_of s) err)\<rparr>))
               else later
           | None \<Rightarrow> later))"

section \<open>gre.py: the install command and the helper's report\<close>

record install_answer =
  iv_state :: string
  iv_cmd :: "(string \<times> string \<times> string) option"  \<comment> \<open>the arguments of \<open>install_cmd\<close>\<close>
  iv_connect :: string
  iv_error :: string
  iv_age :: "int option"
  iv_net :: string

definition HOST_SKIP_SLACK :: int where
  "HOST_SKIP_SLACK = 60 * 1000000"

text \<open>\<open>listed\<close> is when the list for the host was last written, in microseconds.\<close>

definition host_lag :: "install_answer \<Rightarrow> time \<Rightarrow> time \<Rightarrow> time option \<Rightarrow> install_answer" where
  "host_lag out ts now listed =
     (case listed of
        None \<Rightarrow> out\<lparr>iv_state := ''host_wait''\<rparr>
      | Some l \<Rightarrow>
          if ts > l + HOST_SKIP_SLACK then out\<lparr>iv_state := ''host_skip'', iv_age := Some (unix (now - l))\<rparr>
          else out\<lparr>iv_state := ''host_wait''\<rparr>)"

definition install_view ::
  "settings \<Rightarrow> server \<Rightarrow> host_answer option \<Rightarrow> time \<Rightarrow> time option \<Rightarrow> install_answer" where
  "install_view st s host now listed =
     (let out = \<lparr>iv_state = ''off'', iv_cmd = None, iv_connect = [], iv_error = [], iv_age = None, iv_net = []\<rparr> in
      if \<not> gre_enabled s then out
      else
        (let (mine, node) = addrs (net_str s);
             peer = peer_of s;
             out = out\<lparr>iv_net := (if mine \<noteq> [] then net_str s else [])\<rparr>
         in if mine = [] \<or> peer = [] then out\<lparr>iv_state := ''no_ip''\<rparr>
         else
           (let fixed = strip (gre_host_ip st);
                hi = iface_entry host s;
                ts = host_ts host * 1000000;
                fin = (let remote = panel_ip st s host in
                       if remote = [] then out\<lparr>iv_state := ''host_wait''\<rparr>
                       else out\<lparr>iv_state := ''ready'', iv_cmd := Some (remote, node @ ''/30'', peer),
                                iv_connect := mine\<rparr>)
            in case host of
                 None \<Rightarrow> if \<not> is_public fixed then out\<lparr>iv_state := ''host_missing''\<rparr> else fin
               | Some h \<Rightarrow>
                   if now - ts > HOST_STALE then out\<lparr>iv_state := ''host_stale'', iv_age := Some (unix (now - ts))\<rparr>
                   else
                     (case hi of
                        None \<Rightarrow> host_lag out ts now listed
                      | Some i \<Rightarrow>
                          if if_peer i \<noteq> peer then host_lag out ts now listed
                          else if \<not> if_ok i then
                            out\<lparr>iv_state := ''host_error'', iv_error := take 300 (if_error i)\<rparr>
                          else fin))))"

definition gre_helper_status :: "dict \<Rightarrow> dict" where
  "gre_helper_status body =
     (let fw = py_or_empty_str (dget body ''firewall'');
          ip = (case ip_address (take 64 (py_or_empty_str (dget body ''local_ip''))) of
                  None \<Rightarrow> [] | Some a \<Rightarrow> show_ip a)
      in [(''version'', PStr (take 16 (py_or_empty_str (dget body ''version'')))),
          (''up'', PBool (truthy (dget body ''up''))),
          (''nat'', PBool (truthy (dget body ''nat''))),
          (''local_ip'', PStr ip),
          (''firewall'', PStr (known_firewall fw)),
          (''error'', PStr (take 300 (py_or_empty_str (dget body ''error''))))])"

section \<open>Properties\<close>

lemma num_nonneg: "num s = Some n \<Longrightarrow> 0 \<le> n"
proof -
  have "0 \<le> a \<Longrightarrow> list_all is_dig s \<Longrightarrow> 0 \<le> foldl (\<lambda>a c. a * 10 + dig_val c) a s" for a
    by (induction s arbitrary: a) (auto simp: is_dig_def chr_between_def dig_val_def)
  from this [of 0] show "num s = Some n \<Longrightarrow> 0 \<le> n"
    by (auto simp: num_def split: if_splits)
qed

lemma octet_bounds: "octet s = Some n \<Longrightarrow> 0 \<le> n \<and> n \<le> 255"
  by (auto simp: octet_def num_nonneg split: if_splits option.splits)

lemma parse_v4_bounds: "parse_v4 s = Some n \<Longrightarrow> 0 \<le> n \<and> n < 4294967296"
  by (auto simp: parse_v4_def split: list.splits option.splits dest!: octet_bounds)

text \<open>A network is an aligned block of the IPv4 space.\<close>

definition wf_net :: "net4 \<Rightarrow> bool" where
  "wf_net n \<longleftrightarrow> snd n \<le> 32 \<and> net_size n dvd fst n \<and> 0 \<le> fst n \<and> fst n + net_size n \<le> 4294967296"

lemma net_size_pos [simp]: "0 < net_size n"
  by (simp add: net_size_def)

lemma in_net_iff: "wf_net n \<Longrightarrow> in_net x n \<longleftrightarrow> fst n \<le> x \<and> x < fst n + net_size n"
proof -
  assume "wf_net n"
  then obtain q where q: "fst n = net_size n * q" by (auto simp: wf_net_def)
  let ?k = "net_size n"
  have "x div ?k * ?k + x mod ?k = x" "0 \<le> x mod ?k" "x mod ?k < ?k" by simp_all
  moreover have "x div ?k = q" if "fst n \<le> x" "x < fst n + ?k"
    using that q by (intro int_div_pos_eq [where r = "x - fst n"]) auto
  ultimately show ?thesis
    using q unfolding in_net_def by (metis add_increasing2 add_left_mono add_strict_left_mono mult.commute order_refl)
qed

lemma overlaps_iff: "wf_net a \<Longrightarrow> wf_net b \<Longrightarrow> overlaps a b \<longleftrightarrow> (\<exists>x. in_net x a \<and> in_net x b)"
proof -
  assume w: "wf_net a" "wf_net b"
  have p: "0 < net_size a" "0 < net_size b" by simp_all
  show ?thesis
  proof
    assume "overlaps a b"
    then show "\<exists>x. in_net x a \<and> in_net x b"
      using p by (auto simp: overlaps_def broadcast_def in_net_iff w intro: exI [of _ "fst b"]
        exI [of _ "fst b + net_size b - 1"] exI [of _ "fst a"] exI [of _ "fst a + net_size a - 1"])
  next
    assume "\<exists>x. in_net x a \<and> in_net x b"
    then show "overlaps a b"
      using p by (auto simp: overlaps_def broadcast_def in_net_iff w)
  qed
qed

lemma wf_net_clear:
  assumes "0 \<le> n" "n < 4294967296" "p \<le> 32"
  shows "wf_net (n div 2 ^ (32 - p) * 2 ^ (32 - p), p)"
proof -
  define k :: int where "k = 2 ^ (32 - p)"
  have k: "0 < k" by (simp add: k_def)
  have e: "4294967296 = 2 ^ p * k"
    using assms(3) by (simp add: k_def flip: power_add)
  have "n div k < 2 ^ p"
  proof (rule ccontr)
    assume "\<not> n div k < 2 ^ p"
    then have "2 ^ p * k \<le> n div k * k" using k by (intro mult_right_mono) auto
    also have "\<dots> \<le> n" using pos_mod_sign [OF k, of n] div_mult_mod_eq [of n k] by linarith
    finally show False using e assms(2) by simp
  qed
  then have "(n div k + 1) * k \<le> 2 ^ p * k" using k by (intro mult_right_mono) auto
  then have "n div k * k + k \<le> 4294967296" using e by (simp add: algebra_simps)
  then show ?thesis using assms k
    by (simp add: wf_net_def net_size_def flip: k_def) (simp add: pos_imp_zdiv_nonneg_iff)
qed

lemma mask_prefix_le: "mask_prefix m = Some p \<Longrightarrow> p \<le> 32"
  by (auto simp: mask_prefix_def find_Some_iff split: option.splits)

lemma prefix_num_le: "prefix_num mx s = Some p \<Longrightarrow> p \<le> mx"
  by (auto simp: prefix_num_def split: option.splits if_splits)

lemma wf_ipv4_network: "ipv4_network str s = Some n \<Longrightarrow> wf_net n"
  by (auto simp: ipv4_network_def Let_def split: list.splits option.splits if_splits
      dest!: parse_v4_bounds prefix_num_le mask_prefix_le intro!: wf_net_clear
      simp: bind_eq_Some_conv wf_net_clear [where p = 32, simplified])

lemma wf_pool: "wf_net (pool st) \<and> snd (pool st) \<le> 30"
proof -
  have d: "wf_net default_pool" "snd default_pool \<le> 30"
    by (simp_all add: default_pool_def wf_net_def net_size_def)
  have "wf_net (b, p)" if "ip_network s = Some (Net4 b p)" for s b p
    using that by (auto simp: ip_network_def ip_address_def bind_eq_Some_conv
        split: list.splits option.splits if_splits ip.splits
        dest!: parse_v4_bounds prefix_num_le mask_prefix_le intro!: wf_net_clear
        simp: wf_net_clear [where p = 32, simplified])
  with d show ?thesis
    by (auto simp: pool_def split: option.splits net.splits)
qed

lemma first_free_Some:
  "first_free taken b e = Some c \<Longrightarrow> b \<le> c \<and> c < e \<and> (c - b) mod 4 = 0 \<and> \<not> list_ex (overlaps (c, 30)) taken"
proof (induction taken b e rule: first_free.induct)
  case (1 taken b e)
  show ?case
  proof (cases "e \<le> b \<or> \<not> list_ex (overlaps (b, 30)) taken")
    case True
    then show ?thesis using 1(2) by (auto simp: first_free.simps [of taken b e] split: if_splits)
  next
    case False
    with 1 have "b + 4 \<le> c \<and> c < e \<and> (c - (b + 4)) mod 4 = 0 \<and> \<not> list_ex (overlaps (c, 30)) taken"
      by (simp add: first_free.simps [of taken b e])
    moreover have "(c - b) mod 4 = (c - (b + 4)) mod 4" by presburger
    ultimately show ?thesis by simp
  qed
qed

lemma first_free_None:
  "first_free taken b e = None \<Longrightarrow> 0 \<le> k \<Longrightarrow> b + 4 * k < e \<Longrightarrow> list_ex (overlaps (b + 4 * k, 30)) taken"
proof (induction taken b e arbitrary: k rule: first_free.induct)
  case (1 taken b e)
  have b: "\<not> e \<le> b" "list_ex (overlaps (b, 30)) taken" "first_free taken (b + 4) e = None"
    using 1(2-) by (auto simp: first_free.simps [of taken b e] split: if_splits)
  show ?case
  proof (cases "k = 0")
    case True
    then show ?thesis using b by simp
  next
    case False
    then have "list_ex (overlaps (b + 4 + 4 * (k - 1), 30)) taken"
      using 1 b by (intro "1.IH") auto
    then show ?thesis by (simp add: algebra_simps)
  qed
qed

lemma show_v4_not_Nil [simp]: "0 \<le> n \<Longrightarrow> show_v4 n \<noteq> []"
  by (simp add: show_v4_def)

lemma addrs_show_net:
  assumes "wf_net (b, 30)"
  shows "ipv4_network str (show_net (Net4 b 30)) = Some (b, 30)"
    and "addrs (show_net (Net4 b 30)) = (show_v4 (b + 1), show_v4 (b + 2))"
proof -
  have b: "0 \<le> b" "b < 4294967296" "b div 4 * 4 = b"
    using assms by (auto simp: wf_net_def net_size_def)
  have n: "show_nat 30 = ''30''" by code_simp
  have "prefix_num 32 ''30'' = Some 30" by code_simp
  then show *: "ipv4_network str (show_net (Net4 b 30)) = Some (b, 30)" for str
    using b by (simp add: ipv4_network_def n split_chr_append_sep split_chr_no_sep slash_notin_show_v4 parse_v4_show)
  show "addrs (show_net (Net4 b 30)) = (show_v4 (b + 1), show_v4 (b + 2))"
    by (simp add: addrs_def * del: show_net.simps)
qed

lemma allocate_new:
  assumes "allocate st nets s = Inr (net, s')" and "fst (addrs (net_str s)) = []"
  obtains b where "net = Some (show_net (Net4 b 30))" "s' = s\<lparr>gre_net := net\<rparr>"
    "addrs (net_str s') = (show_v4 (b + 1), show_v4 (b + 2))" "show_v4 (b + 1) \<noteq> []"
    "\<forall>x. in_net x (b, 30) \<longrightarrow> in_net x (pool st)"
    "\<forall>v\<in>set nets. \<forall>t. Option.bind v (ipv4_network False) = Some t \<longrightarrow>
       \<not> (\<exists>x. in_net x (b, 30) \<and> in_net x t)"
proof -
  let ?taken = "List.map_filter (\<lambda>v. Option.bind v (ipv4_network False)) nets"
  obtain b where b: "first_free ?taken (fst (pool st)) (fst (pool st) + net_size (pool st)) = Some b"
    and r: "net = Some (show_net (Net4 b 30))" "s' = s\<lparr>gre_net := net\<rparr>"
    using assms by (auto simp: allocate_def Let_def split: option.splits)
  note f = first_free_Some [OF b]
  define B K where BK: "B = fst (pool st)" "K = net_size (pool st)"
  have "32 - snd (pool st) = Suc (Suc (30 - snd (pool st)))"
    using wf_pool [of st] by arith
  then have "4 dvd K" unfolding BK net_size_def by simp
  moreover have "K dvd B" using wf_pool [of st] by (simp add: wf_net_def BK)
  ultimately have "4 dvd B" "4 dvd K" by (auto dest: dvd_trans)
  moreover have "B \<le> b" "b < B + K" "(b - B) mod 4 = 0" using f by (simp_all add: BK)
  ultimately have al: "4 dvd b" "b + 4 \<le> B + K" by presburger+
  then have wf: "wf_net (b, 30)"
    using wf_pool [of st] f unfolding wf_net_def BK [symmetric] by (auto simp: net_size_def)
  have "in_net x (pool st)" if "in_net x (b, 30)" for x
    using that al f wf_pool [of st] by (simp add: in_net_iff wf BK) (simp add: net_size_def)
  moreover have "\<not> (\<exists>x. in_net x (b, 30) \<and> in_net x t)"
    if "v \<in> set nets" "Option.bind v (ipv4_network False) = Some t" for v t
  proof -
    have "t \<in> set ?taken" using that by (force simp: List.map_filter_def)
    then have "\<not> overlaps (b, 30) t" using f by (simp add: list_ex_iff)
    moreover have "wf_net t" using that by (auto simp: bind_eq_Some_conv wf_ipv4_network)
    ultimately show ?thesis using overlaps_iff [OF wf] by blast
  qed
  moreover have "addrs (net_str s') = (show_v4 (b + 1), show_v4 (b + 2))"
    using r addrs_show_net(2) [OF wf] by (simp add: net_str_def)
  moreover have "show_v4 (b + 1) \<noteq> []"
    using wf by (intro show_v4_not_Nil) (simp add: wf_net_def)
  ultimately show ?thesis using r that by blast
qed

text \<open>C38. A server without a tunnel network gets a /30 inside the configured pool that has no
  address in common with any network a row already holds, and the two ends of the tunnel are the
  first two host addresses of it.\<close>

theorem allocate_fresh:
  assumes "allocate st nets s = Inr (net, s')" and "fst (addrs (net_str s)) = []"
  shows "\<exists>b. net = Some (show_net (Net4 b 30)) \<and> s' = s\<lparr>gre_net := net\<rparr> \<and>
    addrs (net_str s') = (show_v4 (b + 1), show_v4 (b + 2)) \<and>
    (\<forall>x. in_net x (b, 30) \<longrightarrow> in_net x (pool st)) \<and>
    (\<forall>v\<in>set nets. \<forall>t. Option.bind v (ipv4_network False) = Some t \<longrightarrow>
       \<not> (\<exists>x. in_net x (b, 30) \<and> in_net x t))"
  using allocate_new [OF assms] by metis

theorem allocate_fresh_witness:
  "\<exists>b. Some (show_net (Net4 (184418304 + 4) 30)) = Some (show_net (Net4 b 30)) \<and>
     \<not> (\<exists>x. in_net x (b, 30) \<and> in_net x (184418304, 30))"
proof -
  have "allocate settings0 [Some ''10.254.0.0/30'', None] server0
      = Inr (Some (show_net (Net4 (184418304 + 4) 30)), server0\<lparr>gre_net := Some (show_net (Net4 (184418304 + 4) 30))\<rparr>)"
    by code_simp
  moreover have "fst (addrs (net_str server0)) = []" by code_simp
  moreover have "ipv4_network False ''10.254.0.0/30'' = Some (184418304, 30)" by code_simp
  ultimately show ?thesis
    using allocate_fresh [of settings0 "[Some ''10.254.0.0/30'', None]" server0] by fastforce
qed

text \<open>The allocation fails exactly when the server has no valid network and every /30 of the pool
  overlaps a network that is already taken.\<close>

theorem allocate_fails_iff_pool_full:
  "(\<exists>e. allocate st nets s = Inl e) \<longleftrightarrow>
     fst (addrs (net_str s)) = [] \<and>
     (\<forall>k. 0 \<le> k \<and> 4 * k < net_size (pool st) \<longrightarrow>
        (\<exists>v\<in>set nets. \<exists>t. Option.bind v (ipv4_network False) = Some t \<and> overlaps (fst (pool st) + 4 * k, 30) t))"
proof -
  let ?taken = "List.map_filter (\<lambda>v. Option.bind v (ipv4_network False)) nets"
  let ?B = "fst (pool st)" and ?K = "net_size (pool st)"
  have t: "list_ex P ?taken \<longleftrightarrow> (\<exists>v\<in>set nets. \<exists>t. Option.bind v (ipv4_network False) = Some t \<and> P t)" for P
    by (force simp: list_ex_iff List.map_filter_def)
  have "first_free ?taken ?B (?B + ?K) = None \<longleftrightarrow>
      (\<forall>k. 0 \<le> k \<and> 4 * k < ?K \<longrightarrow> list_ex (overlaps (?B + 4 * k, 30)) ?taken)"
  proof (intro iffI)
    assume "first_free ?taken ?B (?B + ?K) = None"
    then show "\<forall>k. 0 \<le> k \<and> 4 * k < ?K \<longrightarrow> list_ex (overlaps (?B + 4 * k, 30)) ?taken"
      using first_free_None by simp
  next
    assume all: "\<forall>k. 0 \<le> k \<and> 4 * k < ?K \<longrightarrow> list_ex (overlaps (?B + 4 * k, 30)) ?taken"
    show "first_free ?taken ?B (?B + ?K) = None"
    proof (rule ccontr)
      assume "\<not> ?thesis"
      then obtain b where "first_free ?taken ?B (?B + ?K) = Some b" by auto
      note f = first_free_Some [OF this]
      obtain k where "b - ?B = 4 * k" using f by (metis mod_0_imp_dvd dvdE)
      then have "b = ?B + 4 * k" by simp
      with f all show False by auto
    qed
  qed
  then show ?thesis
    unfolding t by (auto simp: allocate_def Let_def split: option.splits)
qed

theorem allocate_fails_iff_pool_full_witness:
  "\<exists>e. allocate (settings0\<lparr>gre_pool := ''10.0.0.0/30''\<rparr>) [None, Some ''10.0.0.0/24''] server0 = Inl e"
proof -
  let ?st = "settings0\<lparr>gre_pool := ''10.0.0.0/30''\<rparr>" and ?nets = "[None, Some ''10.0.0.0/24'']"
  have p: "pool ?st = (167772160, 30)" "fst (addrs (net_str server0)) = []" by code_simp+
  have t: "ipv4_network False ''10.0.0.0/24'' = Some (167772160, 24)" "overlaps (167772160, 30) (167772160, 24)" by code_simp+
  have "\<forall>k. 0 \<le> k \<and> 4 * k < net_size (pool ?st) \<longrightarrow>
      (\<exists>v\<in>set ?nets. \<exists>t. Option.bind v (ipv4_network False) = Some t \<and> overlaps (fst (pool ?st) + 4 * k, 30) t)"
  proof (intro allI impI)
    fix k :: int assume "0 \<le> k \<and> 4 * k < net_size (pool ?st)"
    then have "k = 0" by (simp add: p net_size_def)
    then show "\<exists>v\<in>set ?nets. \<exists>t. Option.bind v (ipv4_network False) = Some t \<and> overlaps (fst (pool ?st) + 4 * k, 30) t"
      using t by (simp add: p)
  qed
  with p(2) show ?thesis
    unfolding allocate_fails_iff_pool_full [of ?st ?nets server0] by blast
qed

text \<open>An allocated network stays with the server: asking again returns it unchanged, whatever the
  other servers hold by then.\<close>

theorem allocate_stable:
  assumes "allocate st nets s = Inr (net, s')"
  shows "allocate st' nets' s' = Inr (net, s')"
proof (cases "fst (addrs (net_str s)) = []")
  case True
  with allocate_new [OF assms] obtain b where "addrs (net_str s') = (show_v4 (b + 1), show_v4 (b + 2))"
      "s' = s\<lparr>gre_net := net\<rparr>" "show_v4 (b + 1) \<noteq> []"
    by metis
  then show ?thesis by (simp add: allocate_def)
next
  case False
  with assms show ?thesis by (auto simp: allocate_def)
qed

theorem allocate_stable_witness:
  "allocate settings0 [Some ''10.254.0.0/30''] (server0\<lparr>gre_net := Some ''10.254.0.0/30''\<rparr>)
     = Inr (Some ''10.254.0.0/30'', server0\<lparr>gre_net := Some ''10.254.0.0/30''\<rparr>)"
proof -
  have "allocate settings0 [] server0 = Inr (Some ''10.254.0.0/30'', server0\<lparr>gre_net := Some ''10.254.0.0/30''\<rparr>)"
    by code_simp
  then show ?thesis by (rule allocate_stable)
qed

lemma ip_address_Nil: "ip_address [] = None"
  by code_simp

lemma is_publicE:
  assumes "is_public s"
  obtains n where "ip_address s = Some (V4 n)" "\<not> list_ex (in_net n) not_public"
  using assms by (auto simp: is_public_def split: option.splits ip.splits)

lemma peer_of_public: "peer_of s = [] \<or> is_public (peer_of s)"
  by (auto simp: peer_of_def Let_def)

text \<open>The address recorded for a server is never an inner address of the tunnels, as long as the
  pool lies inside 10.0.0.0/8 (the default one does): a request through the server's own tunnel is
  shown with the public address of the node, one from another tunnel leaves no address at all.\<close>

theorem real_ip_never_in_pool:
  assumes "\<And>x. in_net x (pool st) \<Longrightarrow> in_net x (v4 10 0 0 0, 8)"
  shows "\<not> in_pool st (fst (real_ip st s ext now))"
proof -
  have "\<not> in_pool st a" if "is_public a" for a
    using that assms by (elim is_publicE) (auto simp: in_pool_def not_public_def)
  moreover have "\<not> in_pool st []" by (simp add: in_pool_def ip_address_Nil)
  ultimately show ?thesis
    using peer_of_public by (auto simp: real_ip_def Let_def) metis
qed

theorem real_ip_never_in_pool_witness:
  "\<not> in_pool settings0 (fst (real_ip settings0
     (server0\<lparr>gre_net := Some ''10.254.0.0/30'', gre_peer := ''203.0.113.7''\<rparr>) ''10.254.0.2'' 0))"
proof (rule real_ip_never_in_pool)
  have p: "pool settings0 = (184418304, 16)" by code_simp
  fix x assume "in_net x (pool settings0)"
  then have "x div 65536 = 2814" by (simp add: p in_net_def net_size_def)
  then have "x div 65536 div 256 = 10" by simp
  then have "x div 16777216 = 10" using zdiv_zmult2_eq [of 256 x 65536] by simp
  then show "in_net x (v4 10 0 0 0, 8)" by (simp add: in_net_def net_size_def v4_def)
qed

lemma track_path_key:
  assumes "gre_enabled s" and "dget rep PATH_KEY = PDict [(''via'', PStr (if v then ''gre'' else ''direct'')), (''since'', PInt i)]"
  shows "dget (track_path s rep rep' v t) PATH_KEY
    = PDict [(''via'', PStr (if v then ''gre'' else ''direct'')), (''since'', PInt i)]"
  using assms by (simp add: track_path_def)

text \<open>The moment since which the agent uses its path is the moment of the first report of the
  current run: it is set when the path changes and carried through every later report that came the
  same way, whatever the reports contain.\<close>

theorem track_path_since_first_of_run:
  assumes "gre_enabled s"
    and "dget (dict_or_empty (dget prev PATH_KEY)) ''via'' \<noteq> PStr (if v then ''gre'' else ''direct'')"
  shows "dget (foldl (\<lambda>p (t', body'). track_path s p body' v t') (track_path s prev body v t) later) PATH_KEY
    = PDict [(''via'', PStr (if v then ''gre'' else ''direct'')), (''since'', PInt (unix t))]"
proof -
  have run: "dget p PATH_KEY = PDict [(''via'', PStr (if v then ''gre'' else ''direct'')), (''since'', PInt i)] \<Longrightarrow>
      dget (foldl (\<lambda>p (t', body'). track_path s p body' v t') p later) PATH_KEY
        = PDict [(''via'', PStr (if v then ''gre'' else ''direct'')), (''since'', PInt i)]" for p i
    by (induction later arbitrary: p) (auto simp only: foldl.simps prod.case split_paired_all track_path_key [OF assms(1)])
  show ?thesis
    by (rule run) (use assms in \<open>simp add: track_path_def Let_def\<close>)
qed

theorem track_path_since_first_of_run_witness:
  "dget (foldl (\<lambda>p (t', body'). track_path (server0\<lparr>gre_enabled := True\<rparr>) p body' True t')
     (track_path (server0\<lparr>gre_enabled := True\<rparr>) [] [] True 5000000)
     [(9000000, [(''cpu'', PInt 3)]), (13000000, [])]) PATH_KEY
   = PDict [(''via'', PStr ''gre''), (''since'', PInt 5)]"
  using track_path_since_first_of_run [of "server0\<lparr>gre_enabled := True\<rparr>" "[]" True "[]" 5000000
      "[(9000000, [(''cpu'', PInt 3)]), (13000000, [])]"]
  by (simp add: unix_def del: foldl.simps)

text \<open>The install command through GRE is handed out only when it can work: the tunnel is switched
  on, both ends have public addresses, and, unless the host is set up by hand, its latest answer is
  fresh and reports the interface of this server up towards this very address.\<close>

theorem install_ready_means_host_ready:
  assumes "iv_state (install_view st s host now listed) = ''ready''"
  shows "gre_enabled s \<and> is_public (peer_of s) \<and> is_public (panel_ip st s host) \<and>
    iv_cmd (install_view st s host now listed) = Some (panel_ip st s host, snd (addrs (net_str s)) @ ''/30'', peer_of s) \<and>
    iv_connect (install_view st s host now listed) = fst (addrs (net_str s)) \<and>
    (case host of
       None \<Rightarrow> is_public (strip (gre_host_ip st))
     | Some h \<Rightarrow> now - h_ts h * 1000000 \<le> HOST_STALE \<and>
         (\<exists>i. iface_entry host s = Some i \<and> if_ok i \<and> if_peer i = peer_of s))"
proof -
  have pub: "panel_ip st s host \<noteq> [] \<Longrightarrow> is_public (panel_ip st s host)"
    by (auto simp: panel_ip_def Let_def split: option.splits if_splits)
  have lag: "iv_state (host_lag out ts now listed) \<noteq> ''ready''" for out ts
    by (simp add: host_lag_def split: option.splits)
  obtain mine node where a: "addrs (net_str s) = (mine, node)" by fastforce
  note defs = install_view_def Let_def a host_ts_def
  show ?thesis
    using assms lag pub peer_of_public [of s]
    by (cases host; cases "iface_entry host s") (auto simp: defs split: if_splits)
qed

theorem install_ready_means_host_ready_witness:
  "is_public (panel_ip settings0 (server0\<lparr>gre_enabled := True, gre_net := Some ''10.254.0.0/30'', agent_ip := ''203.0.113.7''\<rparr>)
     (host_state (Some [''# fw=ufw ts=1700000000'', ''kvxg1 203.0.113.7 198.51.100.1 ok''])))"
proof -
  have "iv_state (install_view settings0
      (server0\<lparr>gre_enabled := True, gre_net := Some ''10.254.0.0/30'', agent_ip := ''203.0.113.7''\<rparr>)
      (host_state (Some [''# fw=ufw ts=1700000000'', ''kvxg1 203.0.113.7 198.51.100.1 ok'']))
      (1700000060 * 1000000) None) = ''ready''"
    by code_simp
  from install_ready_means_host_ready [OF this] show ?thesis by blast
qed

lemma relay_count_nonneg: "relay_count v = Inr n \<Longrightarrow> 0 \<le> n"
  by (auto simp: relay_count_def split: sum.splits if_splits)

lemma relay_count_PInt: "0 \<le> n \<Longrightarrow> relay_count (PInt n) = Inr n"
  by (simp add: relay_count_def por_def)

lemma py_or_empty_str_PStr [simp]: "py_or_empty_str (PStr s) = s"
  by (simp add: py_or_empty_str_def)

lemma known_firewall_idem [simp]: "known_firewall (known_firewall s) = known_firewall s"
  by (simp add: known_firewall_def)

text \<open>What a relay's helper reports is reduced to a normal form: reducing it again changes
  nothing, and the card of the relay can always be computed from it.\<close>

theorem relay_helper_status_normal:
  assumes "relay_helper_status body = Inr d"
  shows "relay_helper_status d = Inr d \<and>
    (installed_helper relay_HELPER r = Inr v \<longrightarrow> (\<exists>c. relay_view (r\<lparr>relay_state := Some d\<rparr>) now = Inr c))"
proof -
  obtain a b c where d: "d = [(''version'', PStr (take 16 (py_or_empty_str (dget body ''version'')))),
             (''listening'', PBool (truthy (dget body ''listening''))),
             (''firewall'', PStr (known_firewall (py_or_empty_str (dget body ''firewall'')))),
             (''error'', PStr (take 300 (py_or_empty_str (dget body ''error'')))),
             (''conns'', PInt a), (''denied'', PInt b), (''clients'', PInt c)]"
    and n: "0 \<le> a" "0 \<le> b" "0 \<le> c"
    using assms by (auto simp: relay_helper_status_def Let_def rbind_Inr_iff relay_count_nonneg)
  have i: "installed_helper relay_HELPER (r\<lparr>relay_state := Some d\<rparr>) = installed_helper relay_HELPER r"
    by (simp add: installed_helper_def)
  have "relay_helper_status d = Inr d"
    using n by (simp add: d relay_helper_status_def relay_count_PInt)
  moreover have "\<exists>c. relay_view (r\<lparr>relay_state := Some d\<rparr>) now = Inr c" if "installed_helper relay_HELPER r = Inr v"
    using n that unfolding relay_view_def i Let_def by (simp add: d relay_count_PInt por_def)
  ultimately show ?thesis by blast
qed

theorem relay_helper_status_normal_witness:
  "relay_helper_status [(''version'', PStr ''2''), (''listening'', PBool True), (''firewall'', PStr ''ufw''),
      (''error'', PStr []), (''conns'', PInt 3), (''denied'', PInt 0), (''clients'', PInt 0)]
   = Inr [(''version'', PStr ''2''), (''listening'', PBool True), (''firewall'', PStr ''ufw''),
      (''error'', PStr []), (''conns'', PInt 3), (''denied'', PInt 0), (''clients'', PInt 0)]"
proof -
  have "relay_helper_status [(''version'', PInt 2), (''listening'', PInt 1), (''firewall'', PStr ''ufw''),
      (''conns'', PStr '' 3 ''), (''denied'', PInt (- 4)), (''clients'', PStr ''many'')]
    = Inr [(''version'', PStr ''2''), (''listening'', PBool True), (''firewall'', PStr ''ufw''),
      (''error'', PStr []), (''conns'', PInt 3), (''denied'', PInt 0), (''clients'', PInt 0)]"
    by code_simp
  from relay_helper_status_normal [OF this, of server0] show ?thesis by blast
qed

lemma gre_count_bounds: "gre_count v = Inr n \<Longrightarrow> 0 \<le> n \<and> n \<le> 1000"
  by (auto simp: gre_count_def split: sum.splits if_splits)

text \<open>A tunnel is suggested only on evidence: at least four big transfers of which at most a
  quarter got through, and at least three small ones through, two thirds of the attempts or more.\<close>

theorem need_has_evidence:
  assumes "need rep = Inr (Some n)"
  shows "4 \<le> n_big n \<and> 4 * n_big_ok n \<le> n_big n \<and> 3 \<le> n_small_ok n \<and> 2 * n_small n \<le> 3 * n_small_ok n \<and>
    0 < n_kb n \<and> n_kb n \<le> 1000 \<and> n_big n \<le> 1000 \<and> n_small_ok n \<le> 1000"
proof -
  obtain p where "dget rep ''net_probe'' = PDict p"
    using assms by (auto simp: need_def split: py.splits)
  then show ?thesis
    using assms by (auto simp: need_def rbind_Inr_iff split: if_splits dest!: gre_count_bounds)
qed

theorem need_has_evidence_witness:
  "4 \<le> n_big \<lparr>n_big_ok = 1, n_big = 6, n_small_ok = 5, n_small = 6, n_kb = 100\<rparr>"
proof -
  have "need [(''net_probe'', PDict [(''big_n'', PInt 6), (''big_ok'', PInt 1), (''small_n'', PInt 6), (''small_ok'', PInt 5)])]
     = Inr (Some \<lparr>n_big_ok = 1, n_big = 6, n_small_ok = 5, n_small = 6, n_kb = 100\<rparr>)"
    by code_simp
  from need_has_evidence [OF this] show ?thesis by blast
qed

end
