(* ===== verification/Net_Trust.thy ===== *)
theory Net_Trust
  imports Tunnels
begin

text \<open>
  Whom the panel believes on the network.

  \<^item> \<open>client_ip.py\<close>: the address of a visitor behind the panel's own proxies.
  \<^item> \<open>agent_auth.py\<close>: the source address an agent's request is accepted from.
  \<^item> \<open>net_guard.py\<close>: where the panel itself may connect on a user's request, over redirects.

  Both address resolvers walk X-Forwarded-For from the right and stop at the first address that is
  not one of the panel's own proxies; the locale \<open>trusted_chain\<close> states that contract once, and its
  consequence that what a client writes into the header itself has no effect.
\<close>

section \<open>The contract of a resolver\<close>

locale trusted_chain =
  fixes trusted :: "'a \<Rightarrow> bool"
    and pick :: "'a list \<Rightarrow> 'a option"
  assumes pick_last: "trusted x \<Longrightarrow> pick (xs @ [x]) = pick xs"
    and pick_stop: "\<not> trusted x \<Longrightarrow> pick (xs @ [x]) = Some x"
    and pick_Nil: "pick [] = None"
begin

lemma pick_suffix: "list_all trusted ys \<Longrightarrow> pick (xs @ ys) = pick xs"
  by (induction ys rule: rev_induct) (simp_all flip: append_assoc add: pick_last)

lemma pick_first_stranger: "\<not> trusted x \<Longrightarrow> list_all trusted ys \<Longrightarrow> pick (xs @ x # ys) = Some x"
  using pick_suffix [of ys "xs @ [x]"] by (simp add: pick_stop)

lemma pick_stranger: "pick xs = Some x \<Longrightarrow> \<not> trusted x \<and> x \<in> set xs"
proof (induction xs rule: rev_induct)
  case (snoc y ys)
  then show ?case by (cases "trusted y") (auto simp: pick_last pick_stop)
qed (simp add: pick_Nil)

lemma pick_None: "pick xs = None \<longleftrightarrow> list_all trusted xs"
proof (induction xs rule: rev_induct)
  case (snoc y ys)
  then show ?case by (cases "trusted y") (auto simp: pick_last pick_stop)
qed (simp add: pick_Nil)

end

lemma trusted_chain_find_rev: "trusted_chain t (\<lambda>xs. find (\<lambda>x. \<not> t x) (rev xs))"
  by unfold_locales auto

section \<open>client_ip.py\<close>

definition PROXY_NETS :: "net list" where
  "PROXY_NETS = [Net4 (v4 10 0 0 0) 8, Net4 (v4 172 16 0 0) 12, Net4 (v4 192 168 0 0) 16,
     Net4 (v4 127 0 0 0) 8, Net6 1 128, Net6 (v6h 0xfc00 0 0) 7]"

definition is_proxy :: "ip \<Rightarrow> bool" where
  "is_proxy a = list_ex (ip_in a) PROXY_NETS"

definition xff_chain :: "string \<Rightarrow> ip list" where
  "xff_chain xff = List.map_filter (\<lambda>part. ip_address (strip part)) (split_chr CHR '','' xff)"

definition first_stranger :: "ip list \<Rightarrow> ip option" where
  "first_stranger chain = find (\<lambda>a. \<not> is_proxy a) (rev chain)"

definition client_key :: "string option \<Rightarrow> string \<Rightarrow> string" where
  "client_key host0 xff =
     (let host = (case host0 of None \<Rightarrow> ''unknown'' | Some h \<Rightarrow> if h = [] then ''unknown'' else h) in
      case ip_address host of
        None \<Rightarrow> host
      | Some a \<Rightarrow>
          if \<not> is_proxy a then host
          else
            (let chain = xff_chain xff in
             case first_stranger chain of
               Some b \<Rightarrow> show_ip b
             | None \<Rightarrow> (case chain of [] \<Rightarrow> host | b # _ \<Rightarrow> show_ip b)))"

interpretation client_chain: trusted_chain is_proxy first_stranger
  unfolding first_stranger_def by (rule trusted_chain_find_rev)

section \<open>agent_auth.py\<close>

definition PROXY_MAX_AGE :: int where
  "PROXY_MAX_AGE = 180"

definition PROXY_FUTURE_SKEW :: int where
  "PROXY_FUTURE_SKEW = 30"

definition unmapped :: "ip \<Rightarrow> ip" where
  "unmapped a = (case ipv4_mapped a of Some b \<Rightarrow> b | None \<Rightarrow> a)"

definition canonical_ip :: "py \<Rightarrow> string option" where
  "canonical_ip value =
     (case value of
        PStr s \<Rightarrow>
          if CHR ''%'' \<in> set s then None
          else (case ip_address (strip s) of
                  None \<Rightarrow> None
                | Some a0 \<Rightarrow> (let a = unmapped a0 in
                    if is_unspecified a \<or> is_multicast a then None else Some (show_ip a)))
      | _ \<Rightarrow> None)"

text \<open>The set comprehension with the test for None.\<close>

definition canonical_all :: "py list \<Rightarrow> string list option" where
  "canonical_all ips =
     (let cs = map canonical_ip ips in if None \<in> set cs then None else Some (map the cs))"

definition role_ips :: "dict \<Rightarrow> string \<Rightarrow> string list option" where
  "role_ips d key = (case dget d key of
     PList ips \<Rightarrow> if int (length ips) > 128 then None else canonical_all ips
   | _ \<Rightarrow> None)"

text \<open>The file of the host: \<open>FileError\<close> is an OSError, \<open>FileBytes n j\<close> the number of bytes read and what
  \<open>json.loads\<close> makes of them (\<open>None\<close> is its ValueError or RecursionError).\<close>

datatype peers_file = FileError | FileBytes int "py option"

definition generated_fresh :: "rat \<Rightarrow> py \<Rightarrow> bool" where
  "generated_fresh clock g =
     (let ok = (\<lambda>r. clock - r \<le> of_int PROXY_MAX_AGE \<and> clock - r \<ge> - of_int PROXY_FUTURE_SKEW)
      in case g of PInt i \<Rightarrow> ok (of_int i) | PFlt (Fin r) \<Rightarrow> ok r | _ \<Rightarrow> False)"

definition proxy_peers :: "rat \<Rightarrow> peers_file \<Rightarrow> (string list \<times> string list) option" where
  "proxy_peers clock file =
     (case file of
        FileError \<Rightarrow> None
      | FileBytes n j \<Rightarrow>
          if n > 65536 then None
          else (case j of
            Some (PDict value) \<Rightarrow>
              if dget value ''v'' \<noteq> PInt 1 then None
              else if \<not> generated_fresh clock (dget value ''generated_at'') then None
              else (case role_ips value ''frontend_peer_ips'' of
                      None \<Rightarrow> None
                    | Some front \<Rightarrow>
                       (case role_ips value ''forwarded_proxy_ips'' of
                          None \<Rightarrow> None
                        | Some forw \<Rightarrow>
                            if set front \<inter> set forw \<noteq> {} then None else Some (front, forw)))
          | _ \<Rightarrow> None))"

text \<open>A request: the address of its connection and the values of its X-Forwarded-For headers.\<close>

record request =
  client_host :: "string option"
  xff_values :: "string list"

definition first_unlisted :: "string list \<Rightarrow> string list \<Rightarrow> string option" where
  "first_unlisted forwarded chain = find (\<lambda>a. a \<notin> set forwarded) (rev chain)"

interpretation agent_chain: trusted_chain "\<lambda>a. a \<in> set forwarded" "first_unlisted forwarded" for forwarded
  unfolding first_unlisted_def by (rule trusted_chain_find_rev)

definition source_ip :: "rat \<Rightarrow> peers_file \<Rightarrow> request \<Rightarrow> string option" where
  "source_ip clock file req =
     (case canonical_ip (case client_host req of None \<Rightarrow> PNone | Some h \<Rightarrow> PStr h) of
        None \<Rightarrow> None
      | Some peer \<Rightarrow>
         (case proxy_peers clock file of
            None \<Rightarrow> None
          | Some (frontends, forwarded) \<Rightarrow>
              if peer \<notin> set frontends then Some peer
              else (case xff_values req of
                      [x] \<Rightarrow>
                        if int (length x) > 8192 then None
                        else (case canonical_all (map PStr (split_chr CHR '','' x)) of
                                None \<Rightarrow> None
                              | Some chain \<Rightarrow>
                                  if chain = [] \<or> length chain > 64 then None
                                  else first_unlisted forwarded chain)
                    | _ \<Rightarrow> None)))"

datatype http_exc = Http403 | PyExc exc

text \<open>The set of configured addresses; a bad entry denies.\<close>

definition configured_ips :: "server \<Rightarrow> http_exc + string list" where
  "configured_ips s =
     (let primary = strip (agent_ip s);
          extras = (case agent_source_ips s of PNone \<Rightarrow> PList [] | e \<Rightarrow> e)
      in case extras of
           PList es \<Rightarrow>
             if length es > 16 then Inl Http403
             else (case canonical_all ((if primary \<noteq> [] then [PStr primary] else []) @ es) of
                     None \<Rightarrow> Inl Http403
                   | Some ips \<Rightarrow> Inr ips)
         | _ \<Rightarrow> Inl Http403)"

text \<open>\<open>get\<close> is \<open>session.get(Server, id)\<close>.\<close>

definition require_agent_source ::
  "settings \<Rightarrow> rat \<Rightarrow> peers_file \<Rightarrow> (int \<Rightarrow> server option) \<Rightarrow> server \<Rightarrow> request \<Rightarrow> http_exc + string option" where
  "require_agent_source st clock file get s req =
     (if \<not> agent_source_guard st then Inr None
      else case configured_ips s of
        Inl e \<Rightarrow> Inl e
      | Inr allowed \<Rightarrow>
          if allowed = [] then Inr None
          else (case source_ip clock file req of
            None \<Rightarrow> Inl Http403
          | Some source \<Rightarrow>
              if source \<in> set allowed then Inr (Some source)
              else
                (let node = snd (addrs (net_str s)) in
                 if gre_enabled s \<and> node \<noteq> [] \<and> Some source = canonical_ip (PStr node) then Inr (Some source)
                 else (case relay_via_id s of
                   None \<Rightarrow> Inl Http403
                 | Some rid \<Rightarrow>
                     if rid = sid s then Inl Http403
                     else (case get rid of
                       None \<Rightarrow> Inl Http403
                     | Some relay \<Rightarrow>
                         if enabled relay \<and> relay_enabled relay then
                           (case configured_ips relay of
                              Inl e \<Rightarrow> Inl e
                            | Inr ips \<Rightarrow> if source \<in> set ips then Inr (Some source) else Inl Http403)
                         else Inl Http403)))))"

section \<open>net_guard.py\<close>

datatype cls = PUBLIC | INTERNAL | FORBIDDEN

fun rank :: "cls \<Rightarrow> nat" where
  "rank PUBLIC = 0"
| "rank INTERNAL = 1"
| "rank FORBIDDEN = 2"

definition METADATA :: "ip list" where
  "METADATA = [V6 (v6h 0xfd00 0xec2 0 + 0x254) None, V4 (v4 100 100 100 200)]"

definition METADATA_NAMES :: "string list" where
  "METADATA_NAMES = [''metadata.google.internal'', ''metadata'', ''instance-data'', ''instance-data.ec2.internal'']"

definition bare_ip :: "string \<Rightarrow> ip option" where
  "bare_ip s = ip_address (hd (split_chr CHR ''%'' (strip_chars (\<lambda>c. c = CHR ''['' \<or> c = CHR '']'') s)))"

definition addr_class :: "ip \<Rightarrow> cls" where
  "addr_class a0 =
     (let a = unmapped a0 in
      if a \<in> set METADATA \<or> is_link_local a \<or> is_unspecified a \<or> is_multicast a then FORBIDDEN
      else if is_loopback a \<or> is_private a \<or> is_reserved a \<or> \<not> is_global a then INTERNAL
      else PUBLIC)"

definition ip_class :: "string \<Rightarrow> cls" where
  "ip_class s = (case bare_ip s of None \<Rightarrow> PUBLIC | Some a \<Rightarrow> addr_class a)"

definition is_ip :: "string \<Rightarrow> bool" where
  "is_ip s \<longleftrightarrow> bare_ip s \<noteq> None"

definition worse :: "cls \<Rightarrow> cls \<Rightarrow> cls" where
  "worse c d = (if rank d > rank c then d else c)"

text \<open>\<open>resolve\<close> is the resolver at the moment of the call: the texts of the addresses, none on failure.\<close>

definition host_class :: "(string \<Rightarrow> string list) \<Rightarrow> string \<Rightarrow> cls" where
  "host_class resolve host =
     (let h = rstrip_chars (\<lambda>c. c = CHR ''.'') (lower (strip host)) in
      if h = [] then PUBLIC
      else if is_ip h then ip_class h
      else if h \<in> set METADATA_NAMES then FORBIDDEN
      else
        (let c = (if CHR ''.'' \<notin> set h \<or> endswith h ''.local'' \<or> endswith h ''.internal''
                     \<or> endswith h ''.localhost'' \<or> h = ''localhost'' then INTERNAL else PUBLIC)
         in foldl worse c (map ip_class (resolve h))))"

datatype hook_result = Pass | ErrForbidden | ErrInternal

text \<open>The closure's state is the class of the first request.\<close>

definition hook_class :: "bool \<Rightarrow> (string \<Rightarrow> string list) \<Rightarrow> string \<Rightarrow> cls" where
  "hook_class proxy resolve host =
     (let c = (if is_ip host \<or> proxy then ip_class host else host_class resolve host) in
      if proxy \<and> \<not> is_ip host \<and> rstrip_chars (\<lambda>c. c = CHR ''.'') (lower host) \<in> set METADATA_NAMES
      then FORBIDDEN else c)"

definition hook ::
  "bool \<Rightarrow> (string \<Rightarrow> string list) \<Rightarrow> cls option \<Rightarrow> string \<Rightarrow> hook_result \<times> cls option" where
  "hook proxy resolve st host =
     (let c = hook_class proxy resolve host;
          first = (case st of None \<Rightarrow> c | Some f \<Rightarrow> f)
      in (if c = FORBIDDEN then ErrForbidden
          else if c = INTERNAL \<and> first = PUBLIC then ErrInternal
          else Pass, Some first))"

definition connect_ok :: "(string \<Rightarrow> string list) \<Rightarrow> string \<Rightarrow> bool" where
  "connect_ok resolve host \<longleftrightarrow> host_class resolve host \<noteq> FORBIDDEN"

section \<open>Properties of the address resolvers\<close>

lemma xff_chain_append: "xff_chain (a @ CHR '','' # b) = xff_chain a @ xff_chain b"
  by (simp add: xff_chain_def split_chr_append_sep List.map_filter_def)

text \<open>A visitor cannot choose the address it is known by.  When the connection comes from one of the
  panel's proxies, and the part of X-Forwarded-For that the proxies appended is the visitor's address
  followed by proxies only, the key is that address, whatever the visitor wrote before it.\<close>

theorem client_key_ignores_forged_header:
  assumes "ip_address host = Some h" "is_proxy h"
    and "xff_chain appended = visitor # proxies" "\<not> is_proxy visitor" "list_all is_proxy proxies"
  shows "client_key (Some host) (forged @ CHR '','' # appended) = show_ip visitor"
proof -
  have "host \<noteq> []" using assms(1) by (auto simp: ip_address_Nil)
  then show ?thesis
    using assms client_chain.pick_first_stranger [of visitor proxies "xff_chain forged"]
    by (simp add: client_key_def xff_chain_append)
qed

theorem client_key_ignores_forged_header_witness:
  "client_key (Some ''172.18.0.5'') (''198.51.100.1, 8.8.8.8'' @ CHR '','' # '' 203.0.113.7, 172.18.0.3'') = ''203.0.113.7''"
proof -
  have v: "xff_chain '' 203.0.113.7, 172.18.0.3'' = V4 (v4 203 0 113 7) # [V4 (v4 172 18 0 3)]" by code_simp
  have h: "ip_address ''172.18.0.5'' = Some (V4 (v4 172 18 0 5))" by code_simp
  have "is_proxy (V4 (v4 172 18 0 5))" "\<not> is_proxy (V4 (v4 203 0 113 7))" "list_all is_proxy [V4 (v4 172 18 0 3)]"
    by code_simp+
  moreover have "show_ip (V4 (v4 203 0 113 7)) = ''203.0.113.7''" by code_simp
  ultimately show ?thesis
    using client_key_ignores_forged_header [OF h _ v, of "''198.51.100.1, 8.8.8.8''"] by presburger
qed

text \<open>A connection that does not come from one of the panel's proxies is known by its own address,
  and the header it sends is not read.\<close>

theorem client_key_stranger_connection:
  assumes "\<forall>h. ip_address host = Some h \<longrightarrow> \<not> is_proxy h" and "host \<noteq> []"
  shows "client_key (Some host) xff = host"
  using assms by (simp add: client_key_def split: option.splits)

theorem client_key_stranger_connection_witness:
  "client_key (Some ''203.0.113.9'') ''10.0.0.1'' = ''203.0.113.9''"
proof (rule client_key_stranger_connection)
  have "ip_address ''203.0.113.9'' = Some (V4 (v4 203 0 113 9))" "\<not> is_proxy (V4 (v4 203 0 113 9))" by code_simp+
  then show "\<forall>h. ip_address ''203.0.113.9'' = Some h \<longrightarrow> \<not> is_proxy h" by simp
qed simp

text \<open>The addresses a server is allowed to speak from, as the settings give them.\<close>

definition authorised :: "(int \<Rightarrow> server option) \<Rightarrow> server \<Rightarrow> string \<Rightarrow> bool" where
  "authorised get s a \<longleftrightarrow>
     (\<exists>ips. configured_ips s = Inr ips \<and> a \<in> set ips)
     \<or> gre_enabled s \<and> Some a = canonical_ip (PStr (snd (addrs (net_str s))))
     \<or> (\<exists>rid relay ips. relay_via_id s = Some rid \<and> rid \<noteq> sid s \<and> get rid = Some relay \<and> enabled relay
          \<and> relay_enabled relay \<and> configured_ips relay = Inr ips \<and> a \<in> set ips)"

lemma canonical_ip_Nil: "canonical_ip (PStr []) = None"
  by (simp add: canonical_ip_def strip_def strip_chars_def rstrip_chars_def lstrip_chars_def ip_address_Nil)

text \<open>The source guard fails closed and lets in only configured sources.  With the guard on and an
  address configured, the request is accepted exactly when its source can be determined and is one of
  the server's addresses, the inner address of its own tunnel, or an address of the switched-on relay it
  is assigned to; everything else is a 403.\<close>

theorem agent_source_guard_exact:
  assumes "agent_source_guard st" "configured_ips s = Inr allowed" "allowed \<noteq> []"
  shows "require_agent_source st clock file get s req =
    (case source_ip clock file req of
       None \<Rightarrow> Inl Http403
     | Some a \<Rightarrow> if authorised get s a then Inr (Some a) else Inl Http403)"
proof (cases "source_ip clock file req")
  case (Some a)
  have "configured_ips r = Inl e \<Longrightarrow> e = Http403" for r e
    by (auto simp: configured_ips_def Let_def split: py.splits option.splits if_splits)
  then show ?thesis
    using assms Some
    by (auto simp: require_agent_source_def authorised_def Let_def canonical_ip_Nil split: option.splits sum.splits)
qed (use assms in \<open>simp add: require_agent_source_def\<close>)

theorem agent_source_guard_exact_witness:
  "require_agent_source (settings0\<lparr>agent_source_guard := True\<rparr>) 100
     (FileBytes 200 (Some (PDict [(''v'', PInt 1), (''generated_at'', PInt 10),
        (''frontend_peer_ips'', PList [PStr ''172.18.0.5'']), (''forwarded_proxy_ips'', PList [PStr ''172.18.0.3''])])))
     (\<lambda>_. None) (server0\<lparr>agent_ip := ''203.0.113.7''\<rparr>)
     \<lparr>client_host = Some ''172.18.0.5'', xff_values = [''203.0.113.7, 172.18.0.3'']\<rparr> = Inr (Some ''203.0.113.7'')"
proof -
  let ?s = "server0\<lparr>agent_ip := ''203.0.113.7''\<rparr>"
  have c: "configured_ips ?s = Inr [''203.0.113.7'']" by code_simp
  have src: "source_ip 100
     (FileBytes 200 (Some (PDict [(''v'', PInt 1), (''generated_at'', PInt 10),
        (''frontend_peer_ips'', PList [PStr ''172.18.0.5'']), (''forwarded_proxy_ips'', PList [PStr ''172.18.0.3''])])))
     \<lparr>client_host = Some ''172.18.0.5'', xff_values = [''203.0.113.7, 172.18.0.3'']\<rparr> = Some ''203.0.113.7''"
    by code_simp
  have a: "authorised (\<lambda>_. None) ?s ''203.0.113.7''"
    unfolding authorised_def c by simp
  have g: "agent_source_guard (settings0\<lparr>agent_source_guard := True\<rparr>)" by simp
  show ?thesis
    unfolding agent_source_guard_exact [OF g c list.distinct(2)] src option.case if_P [OF a] ..
qed

text \<open>The source of an agent's request cannot be forged: behind a frontend it is the last address of the
  single header that is not a forwarding proxy, so a prefix the agent wrote itself changes nothing as long
  as the header stays readable; from any other peer it is the peer.\<close>

theorem source_ip_ignores_forged_header:
  assumes "proxy_peers clock file = Some (frontends, forwarded)"
    and "canonical_ip (PStr host) = Some peer"
    and "source_ip clock file \<lparr>client_host = Some host, xff_values = [forged @ CHR '','' # appended]\<rparr> = Some a"
    and "canonical_all (map PStr (split_chr CHR '','' appended)) = Some (visitor # proxies)"
    and "visitor \<notin> set forwarded" "set proxies \<subseteq> set forwarded"
  shows "a = (if peer \<in> set frontends then visitor else peer)"
proof (cases "peer \<in> set frontends")
  case True
  obtain pre where "canonical_all (map PStr (split_chr CHR '','' (forged @ CHR '','' # appended))) = Some (pre @ visitor # proxies)"
    and "first_unlisted forwarded (pre @ visitor # proxies) = Some a"
    using assms True
    by (auto simp: source_ip_def canonical_all_def Let_def split_chr_append_sep split: if_splits)
  moreover have "list_all (\<lambda>x. x \<in> set forwarded) proxies"
    using assms(6) by (auto simp: list_all_iff)
  ultimately show ?thesis
    using agent_chain.pick_first_stranger [OF assms(5), of proxies pre] True by simp
next
  case False
  then show ?thesis using assms by (simp add: source_ip_def)
qed

theorem source_ip_ignores_forged_header_witness:
  "(''203.0.113.7'' :: string) = (if ''172.18.0.5'' \<in> set [''172.18.0.5''] then ''203.0.113.7'' else ''172.18.0.5'')"
proof -
  let ?f = "FileBytes 200 (Some (PDict [(''v'', PInt 1), (''generated_at'', PInt 10),
        (''frontend_peer_ips'', PList [PStr ''172.18.0.5'']), (''forwarded_proxy_ips'', PList [PStr ''172.18.0.3''])]))"
  have p: "proxy_peers 100 ?f = Some ([''172.18.0.5''], [''172.18.0.3''])" by code_simp
  have c: "canonical_ip (PStr ''172.18.0.5'') = Some ''172.18.0.5''" by code_simp
  have s: "source_ip 100 ?f \<lparr>client_host = Some ''172.18.0.5'',
      xff_values = [''10.9.9.9'' @ CHR '','' # ''203.0.113.7, 172.18.0.3'']\<rparr> = Some ''203.0.113.7''" by code_simp
  have a: "canonical_all (map PStr (split_chr CHR '','' ''203.0.113.7, 172.18.0.3''))
      = Some (''203.0.113.7'' # [''172.18.0.3''])" by code_simp
  show ?thesis
    by (rule source_ip_ignores_forged_header [OF p c s a]) simp_all
qed

section \<open>Properties of the redirect guard\<close>

text \<open>The requests of one client object, each with what the resolver says at that moment.  A request
  that raises ends the run.\<close>

inductive hook_run :: "bool \<Rightarrow> cls option \<Rightarrow> ((string \<Rightarrow> string list) \<times> string) list \<Rightarrow> cls option \<Rightarrow> bool" where
  hook_done: "hook_run proxy st [] st"
| hook_pass: "hook proxy resolve st host = (Pass, st1) \<Longrightarrow> hook_run proxy st1 rest st2 \<Longrightarrow>
    hook_run proxy st ((resolve, host) # rest) st2"

inductive_cases hook_run_ConsE: "hook_run proxy st (x # xs) st2"

lemma hook_Pass_iff:
  "hook proxy resolve st host = (Pass, st1) \<longleftrightarrow>
     st1 = Some (case st of None \<Rightarrow> hook_class proxy resolve host | Some f \<Rightarrow> f) \<and>
     hook_class proxy resolve host \<noteq> FORBIDDEN \<and>
     \<not> (hook_class proxy resolve host = INTERNAL \<and> st1 = Some PUBLIC)"
  by (auto simp: hook_def Let_def split: option.splits)

lemma hook_run_classes:
  "hook_run proxy st reqs st2 \<Longrightarrow> st = Some f \<Longrightarrow>
   \<forall>(resolve, host)\<in>set reqs. hook_class proxy resolve host \<noteq> FORBIDDEN \<and>
     (f = PUBLIC \<longrightarrow> hook_class proxy resolve host = PUBLIC)"
proof (induction rule: hook_run.induct)
  case (hook_pass proxy resolve st host st1 rest st2)
  then show ?case by (cases "hook_class proxy resolve host") (auto simp: hook_Pass_iff)
qed simp

lemma rank_foldl_worse: "rank (foldl worse c cs) = foldl max (rank c) (map rank cs)"
  by (induction cs arbitrary: c) (auto simp: worse_def max_def)

lemma foldl_max_ge: "(a :: nat) \<le> foldl max a xs \<and> (\<forall>x\<in>set xs. x \<le> foldl max a xs)"
proof (induction xs arbitrary: a)
  case (Cons x xs)
  have "max a x \<le> foldl max (max a x) xs" "\<forall>y\<in>set xs. y \<le> foldl max (max a x) xs"
    using Cons.IH [of "max a x"] by blast+
  then show ?case by simp
qed simp

text \<open>
  What the guard is for, said of addresses.  A request goes to the address it names, or to those the resolver gives for its
  name.  An address is closed when it belongs to the metadata of a cloud, to the link itself, to nobody or to many; it is
  inner when it is not an address of the public network.
\<close>

definition host_name :: "string \<Rightarrow> string" where
  "host_name host = rstrip_chars (\<lambda>c. c = CHR ''.'') (lower (strip host))"

definition addresses_of :: "(string \<Rightarrow> string list) \<Rightarrow> string \<Rightarrow> string list" where
  "addresses_of resolve host =
     (if is_ip host then [host]
      else if is_ip (host_name host) then [host_name host]
      else if host_name host = [] then [] else resolve (host_name host))"

definition closed_addr :: "string \<Rightarrow> bool" where
  "closed_addr a \<longleftrightarrow>
     (case bare_ip a of
        None \<Rightarrow> False
      | Some x \<Rightarrow> unmapped x \<in> set METADATA \<or> is_link_local (unmapped x) \<or> is_unspecified (unmapped x) \<or> is_multicast (unmapped x))"

definition inner_addr :: "string \<Rightarrow> bool" where
  "inner_addr a \<longleftrightarrow>
     (case bare_ip a of
        None \<Rightarrow> False
      | Some x \<Rightarrow> is_loopback (unmapped x) \<or> is_private (unmapped x) \<or> is_reserved (unmapped x) \<or> \<not> is_global (unmapped x))"

definition metadata_name :: "string \<Rightarrow> bool" where
  "metadata_name host \<longleftrightarrow> \<not> is_ip host \<and> \<not> is_ip (host_name host) \<and> host_name host \<in> set METADATA_NAMES"

definition inner_name :: "string \<Rightarrow> bool" where
  "inner_name host \<longleftrightarrow>
     \<not> is_ip host \<and> \<not> is_ip (host_name host) \<and> host_name host \<noteq> [] \<and>
     (CHR ''.'' \<notin> set (host_name host) \<or> endswith (host_name host) ''.local'' \<or> endswith (host_name host) ''.internal'' \<or>
      endswith (host_name host) ''.localhost'')"

definition outside :: "(string \<Rightarrow> string list) \<Rightarrow> string \<Rightarrow> bool" where
  "outside resolve host \<longleftrightarrow> \<not> metadata_name host \<and> \<not> inner_name host \<and> (\<forall>a\<in>set (addresses_of resolve host). \<not> closed_addr a \<and> \<not> inner_addr a)"

lemma ip_class_spec:
  "ip_class a = FORBIDDEN \<longleftrightarrow> closed_addr a" "ip_class a = PUBLIC \<longleftrightarrow> \<not> closed_addr a \<and> \<not> inner_addr a"
  by (auto simp: ip_class_def addr_class_def closed_addr_def inner_addr_def Let_def split: option.splits)

lemma worse_iff:
  "worse c d = FORBIDDEN \<longleftrightarrow> c = FORBIDDEN \<or> d = FORBIDDEN" "worse c d = PUBLIC \<longleftrightarrow> c = PUBLIC \<and> d = PUBLIC"
  by (cases c; cases d; simp add: worse_def)+

lemma foldl_worse:
  "foldl worse c cs = FORBIDDEN \<longleftrightarrow> c = FORBIDDEN \<or> (\<exists>d\<in>set cs. d = FORBIDDEN)"
  "foldl worse c cs = PUBLIC \<longleftrightarrow> c = PUBLIC \<and> (\<forall>d\<in>set cs. d = PUBLIC)"
  by (induction cs arbitrary: c) (auto simp: worse_iff)

lemma empty_no_ip: "\<not> is_ip []"
  by code_simp

lemma hook_class_spec:
  "hook_class False resolve host = FORBIDDEN \<longleftrightarrow> metadata_name host \<or> (\<exists>a\<in>set (addresses_of resolve host). closed_addr a)"
  "hook_class False resolve host = PUBLIC \<longleftrightarrow> outside resolve host"
proof -
  let ?h = "host_name host"
  have hc: "hook_class False resolve host = (if is_ip host then ip_class host else host_class resolve host)" by (simp add: hook_class_def)
  consider "is_ip host" | "\<not> is_ip host" "?h = []" | "\<not> is_ip host" "is_ip ?h" | "\<not> is_ip host" "?h \<noteq> []" "\<not> is_ip ?h" "?h \<in> set METADATA_NAMES"
    | "\<not> is_ip host" "?h \<noteq> []" "\<not> is_ip ?h" "?h \<notin> set METADATA_NAMES" by blast
  then have "(hook_class False resolve host = FORBIDDEN \<longleftrightarrow> metadata_name host \<or> (\<exists>a\<in>set (addresses_of resolve host). closed_addr a)) \<and>
    (hook_class False resolve host = PUBLIC \<longleftrightarrow> outside resolve host)"
  proof cases
    case 1
    then show ?thesis by (simp add: hc ip_class_spec addresses_of_def metadata_name_def inner_name_def outside_def)
  next
    case 2
    then show ?thesis using empty_no_ip
      by (simp add: hc host_class_def host_name_def [symmetric] addresses_of_def metadata_name_def inner_name_def outside_def METADATA_NAMES_def)
  next
    case 3
    then have "?h \<noteq> []" using empty_no_ip by metis
    with 3 show ?thesis
      by (simp add: hc host_class_def host_name_def [symmetric] ip_class_spec addresses_of_def metadata_name_def inner_name_def outside_def)
  next
    case 4
    then show ?thesis by (simp add: hc host_class_def host_name_def [symmetric] metadata_name_def outside_def)
  next
    case 5
    define c where "c = (if CHR ''.'' \<notin> set ?h \<or> endswith ?h ''.local'' \<or> endswith ?h ''.internal''
        \<or> endswith ?h ''.localhost'' \<or> ?h = ''localhost'' then INTERNAL else PUBLIC)"
    have c: "c \<noteq> FORBIDDEN" "c = PUBLIC \<longleftrightarrow> \<not> inner_name host" using 5 by (auto simp: c_def inner_name_def)
    have "hook_class False resolve host = foldl worse c (map ip_class (resolve ?h))"
      unfolding hc host_class_def Let_def host_name_def [symmetric] c_def using 5 by simp
    then show ?thesis using 5 c
      by (auto simp: foldl_worse ip_class_spec addresses_of_def metadata_name_def outside_def image_iff)
         (metis ip_class_spec)+
  qed
  then show "hook_class False resolve host = FORBIDDEN \<longleftrightarrow> metadata_name host \<or> (\<exists>a\<in>set (addresses_of resolve host). closed_addr a)"
    "hook_class False resolve host = PUBLIC \<longleftrightarrow> outside resolve host" by blast+
qed

text \<open>C2. Redirects cannot be used to look inside.  In a chain of requests the guard lets through, none goes by any of its
  addresses, as the resolver gave them to the guard, to a closed one, nor by name to the metadata of a cloud; and when the
  first one leads outside all of them do, whatever the resolver answers from one request to the next.\<close>

theorem redirects_stay_outside:
  assumes "hook_run False None ((resolve, host) # redirects) st"
  shows "(\<forall>(res, h)\<in>set ((resolve, host) # redirects). \<not> metadata_name h \<and> (\<forall>a\<in>set (addresses_of res h). \<not> closed_addr a)) \<and>
    (outside resolve host \<longrightarrow> (\<forall>(res, h)\<in>set redirects. outside res h))"
proof -
  obtain st1 where "hook False resolve None host = (Pass, st1)" "hook_run False st1 redirects st"
    using assms by (auto elim: hook_run_ConsE)
  then have "hook_class False resolve host \<noteq> FORBIDDEN \<and>
    (\<forall>(res, h)\<in>set redirects. hook_class False res h \<noteq> FORBIDDEN \<and>
       (hook_class False resolve host = PUBLIC \<longrightarrow> hook_class False res h = PUBLIC))"
    using hook_run_classes [of False st1 redirects st] by (auto simp: hook_Pass_iff)
  then show ?thesis unfolding hook_class_spec by fastforce
qed

theorem redirects_stay_outside_witness:
  "hook_run False None [(\<lambda>_. [''93.184.216.34''], ''example.com''), (\<lambda>_. [''93.184.216.35'', ''93.184.216.36''], ''www.example.com'')] (Some PUBLIC) \<and>
   addresses_of (\<lambda>_. [''93.184.216.35'', ''93.184.216.36'']) ''www.example.com'' = [''93.184.216.35'', ''93.184.216.36''] \<and>
   \<not> inner_addr ''93.184.216.36'' \<and> \<not> closed_addr ''93.184.216.36''"
proof -
  let ?r = "\<lambda>_ :: string. [''93.184.216.35'', ''93.184.216.36'']"
  have "hook False (\<lambda>_. [''93.184.216.34'']) None ''example.com'' = (Pass, Some PUBLIC)"
    "hook False ?r (Some PUBLIC) ''www.example.com'' = (Pass, Some PUBLIC)"
    by code_simp+
  then have r: "hook_run False None [(\<lambda>_. [''93.184.216.34''], ''example.com''), (?r, ''www.example.com'')] (Some PUBLIC)"
    by (auto intro: hook_run.intros)
  have a: "addresses_of ?r ''www.example.com'' = [''93.184.216.35'', ''93.184.216.36'']" "outside (\<lambda>_. [''93.184.216.34'']) ''example.com''"
    by code_simp+
  then have "outside ?r ''www.example.com''" using redirects_stay_outside [OF r] by simp
  then have "\<not> inner_addr ''93.184.216.36'' \<and> \<not> closed_addr ''93.184.216.36''" by (simp add: outside_def a)
  with r a show ?thesis by blast
qed

text \<open>A name is as dangerous as the worst of its addresses: no answer of the resolver makes the class of
  a host milder than the class of one of the addresses in it.\<close>

theorem host_class_is_the_worst:
  assumes "h = rstrip_chars (\<lambda>c. c = CHR ''.'') (lower (strip host))" "h \<noteq> []" "\<not> is_ip h" "a \<in> set (resolve h)"
  shows "rank (ip_class a) \<le> rank (host_class resolve host)"
proof (cases "h \<in> set METADATA_NAMES")
  case True
  have "rank (ip_class a) \<le> 2" by (cases "ip_class a") simp_all
  then show ?thesis using True assms by (simp add: host_class_def)
next
  case False
  define c where "c = (if CHR ''.'' \<notin> set h \<or> endswith h ''.local'' \<or> endswith h ''.internal''
                     \<or> endswith h ''.localhost'' \<or> h = ''localhost'' then INTERNAL else PUBLIC)"
  have "host_class resolve host = foldl worse c (map ip_class (resolve h))"
    unfolding host_class_def Let_def c_def assms(1) [symmetric] using assms(2,3) False by simp
  then show ?thesis
    using foldl_max_ge [of "rank c" "map (rank \<circ> ip_class) (resolve h)"] assms(4) by (simp add: rank_foldl_worse)
qed

theorem host_class_is_the_worst_witness:
  "rank (ip_class ''169.254.169.254'')
     \<le> rank (host_class (\<lambda>_. [''93.184.216.34'', ''169.254.169.254'']) ''rebind.example.com'')"
proof (rule host_class_is_the_worst)
  show "\<not> is_ip ''rebind.example.com''" by code_simp
  show "''rebind.example.com'' = rstrip_chars (\<lambda>c. c = CHR ''.'') (lower (strip ''rebind.example.com''))" by code_simp
qed simp_all

end
