(* ===== verification/Totp.thy ===== *)
theory Totp
  imports Py_Base "HOL-Library.Word"
begin

text \<open>
  One-time codes: \<open>totp.py\<close>, with the parts of the standard library it uses written out
  (\<open>base64.b32decode\<close>, SHA-1 and HMAC of \<open>hashlib\<close> and \<open>hmac\<close>, \<open>struct\<close>).
  Bytes are integers from 0 to 255; the words of SHA-1 are 32-bit words.
\<close>

unbundle bit_operations_syntax

section \<open>Bytes\<close>

fun to_bytes :: "nat \<Rightarrow> int \<Rightarrow> int list" where
  "to_bytes 0 n = []"
| "to_bytes (Suc k) n = to_bytes k (n div 256) @ [n mod 256]"

definition from_bytes :: "int list \<Rightarrow> int" where
  "from_bytes bs = foldl (\<lambda>a b. a * 256 + b) 0 bs"

lemma length_to_bytes [simp]: "length (to_bytes k n) = k"
  by (induction k arbitrary: n) auto

lemma to_bytes_range: "\<forall>b\<in>set (to_bytes k n). 0 \<le> b \<and> b < 256"
  by (induction k arbitrary: n) auto

lemma from_bytes_snoc: "from_bytes (xs @ [b]) = from_bytes xs * 256 + b"
  by (simp add: from_bytes_def)

lemma from_to_bytes: "0 \<le> n \<Longrightarrow> n < 256 ^ k \<Longrightarrow> from_bytes (to_bytes k n) = n"
proof (induction k arbitrary: n)
  case (Suc k)
  then have "n div 256 < 256 ^ k" by (simp add: div_less_iff_less_mult mult.commute)
  with Suc show ?case by (simp add: from_bytes_snoc)
qed (simp add: from_bytes_def)

section \<open>SHA-1 and HMAC\<close>

type_synonym w32 = "32 word"

definition word_of_bytes :: "int list \<Rightarrow> w32" where
  "word_of_bytes bs = word_of_int (from_bytes bs)"

function chunks :: "nat \<Rightarrow> 'a list \<Rightarrow> 'a list list" where
  "chunks k xs = (if xs = [] \<or> k = 0 then [] else take k xs # chunks k (drop k xs))"
  by pat_completeness auto
termination by (relation "measure (\<lambda>(k, xs). length xs)") auto

declare chunks.simps [simp del]

definition sha1_pad :: "int list \<Rightarrow> int list" where
  "sha1_pad m = (let n = length m in m @ [128] @ replicate ((119 - n mod 64) mod 64) 0 @ to_bytes 8 (int n * 8))"

text \<open>The message schedule, newest word first.\<close>

fun sha1_schedule :: "nat \<Rightarrow> w32 list \<Rightarrow> w32 list" where
  "sha1_schedule 0 ws = ws"
| "sha1_schedule (Suc k) ws =
     sha1_schedule k (word_rotl 1 (ws ! 2 XOR ws ! 7 XOR ws ! 13 XOR ws ! 15) # ws)"

type_synonym sha1_state = "w32 \<times> w32 \<times> w32 \<times> w32 \<times> w32"

fun sha1_round :: "nat \<Rightarrow> sha1_state \<Rightarrow> w32 \<Rightarrow> sha1_state" where
  "sha1_round t (a, b, c, d, e) w =
     (let (f, k) =
        (if t < 20 then ((b AND c) OR ((NOT b) AND d), 0x5A827999)
         else if t < 40 then (b XOR c XOR d, 0x6ED9EBA1)
         else if t < 60 then ((b AND c) OR (b AND d) OR (c AND d), 0x8F1BBCDC)
         else (b XOR c XOR d, 0xCA62C1D6))
      in (word_rotl 5 a + f + e + k + w, a, word_rotl 30 b, c, d))"

fun sha1_rounds :: "nat \<Rightarrow> sha1_state \<Rightarrow> w32 list \<Rightarrow> sha1_state" where
  "sha1_rounds t s [] = s"
| "sha1_rounds t s (w # ws) = sha1_rounds (Suc t) (sha1_round t s w) ws"

fun add_state :: "sha1_state \<Rightarrow> sha1_state \<Rightarrow> sha1_state" where
  "add_state (a, b, c, d, e) (a', b', c', d', e') = (a + a', b + b', c + c', d + d', e + e')"

definition sha1_block :: "sha1_state \<Rightarrow> int list \<Rightarrow> sha1_state" where
  "sha1_block s block =
     add_state s (sha1_rounds 0 s (rev (sha1_schedule 64 (rev (map word_of_bytes (chunks 4 block))))))"

definition sha1 :: "int list \<Rightarrow> int list" where
  "sha1 m =
     (case foldl sha1_block (0x67452301, 0xEFCDAB89, 0x98BADCFE, 0x10325476, 0xC3D2E1F0) (chunks 64 (sha1_pad m)) of
        (a, b, c, d, e) \<Rightarrow> concat (map (\<lambda>w. to_bytes 4 (uint w)) [a, b, c, d, e]))"

definition xor_byte :: "int \<Rightarrow> int \<Rightarrow> int" where
  "xor_byte a b = a XOR b"

definition hmac_sha1 :: "int list \<Rightarrow> int list \<Rightarrow> int list" where
  "hmac_sha1 key0 m =
     (let key = (if length key0 > 64 then sha1 key0 else key0);
          key = key @ replicate (64 - length key) 0
      in sha1 (map (xor_byte 0x5C) key @ sha1 (map (xor_byte 0x36) key @ m)))"

lemma length_sha1 [simp]: "length (sha1 m) = 20"
  by (simp add: sha1_def split: prod.splits)

lemma sha1_range: "\<forall>b\<in>set (sha1 m). 0 \<le> b \<and> b < 256"
  by (auto simp: sha1_def dest: to_bytes_range [rule_format] split: prod.splits)

lemma length_hmac_sha1 [simp]: "length (hmac_sha1 k m) = 20"
  by (simp add: hmac_sha1_def Let_def)

lemma hmac_sha1_range: "\<forall>b\<in>set (hmac_sha1 k m). 0 \<le> b \<and> b < 256"
  unfolding hmac_sha1_def Let_def by (rule sha1_range)

section \<open>Base 32\<close>

definition b32_val :: "char \<Rightarrow> int option" where
  "b32_val c = (let n = (of_char c :: int) in
     if 65 \<le> n \<and> n \<le> 90 then Some (n - 65)
     else if 50 \<le> n \<and> n \<le> 55 then Some (n - 24) else None)"

fun b32_acc :: "int \<Rightarrow> string \<Rightarrow> int option" where
  "b32_acc acc [] = Some acc"
| "b32_acc acc (c # cs) = (case b32_val c of None \<Rightarrow> None | Some v \<Rightarrow> b32_acc (acc * 32 + v) cs)"

fun b32_quanta :: "string list \<Rightarrow> int list option" where
  "b32_quanta [] = Some []"
| "b32_quanta (q # qs) =
     (case (b32_acc 0 q, b32_quanta qs) of (Some a, Some as) \<Rightarrow> Some (a # as) | _ \<Rightarrow> None)"

definition b32decode :: "string \<Rightarrow> int list res" where
  "b32decode s0 =
     (if list_ex (\<lambda>c. of_char c > (127 :: int)) s0 \<or> length s0 mod 8 \<noteq> 0 then Inl ValueError
      else
        (let s = rstrip_chars (\<lambda>c. c = CHR ''='') s0; padchars = length s0 - length s
         in case b32_quanta (chunks 8 s) of
              None \<Rightarrow> Inl ValueError
            | Some accs \<Rightarrow>
                if padchars \<notin> {0, 1, 3, 4, 6} then Inl ValueError
                else if padchars > 0 \<and> accs \<noteq> [] then
                  Inr (concat (map (to_bytes 5) (butlast accs))
                       @ take ((43 - 5 * padchars) div 8) (to_bytes 5 (last accs * 32 ^ padchars)))
                else Inr (concat (map (to_bytes 5) accs))))"

section \<open>totp.py\<close>

definition upper_chr :: "char \<Rightarrow> char" where
  "upper_chr c = (let n = (of_char c :: nat) in if 97 \<le> n \<and> n \<le> 122 then char_of (n - 32) else c)"

definition zfill :: "nat \<Rightarrow> string \<Rightarrow> string" where
  "zfill k s = replicate (k - length s) CHR ''0'' @ s"

definition hotp :: "string \<Rightarrow> int \<Rightarrow> string res" where
  "hotp secret counter =
     (let pad = replicate ((8 - length secret mod 8) mod 8) CHR ''='' in
      rbind (b32decode (map upper_chr secret @ pad)) (\<lambda>key.
        if counter < 0 \<or> 2 ^ 64 \<le> counter then Inl StructError
        else
          (let mac = hmac_sha1 key (to_bytes 8 counter);
               offset = nat (last mac AND 0x0F);
               code = from_bytes (take 4 (drop offset mac)) AND 0x7FFFFFFF
           in Inr (zfill 6 (show_pos (code mod 10 ^ 6))))))"

text \<open>\<open>str.isdigit\<close> on the code points below 256, and \<open>hmac.compare_digest\<close> of two strings.\<close>

definition isdigit :: "string \<Rightarrow> bool" where
  "isdigit s \<longleftrightarrow> s \<noteq> [] \<and> list_all (\<lambda>c. is_dig c \<or> of_char c \<in> {178, 179, 185 :: nat}) s"

definition compare_digest :: "string \<Rightarrow> string \<Rightarrow> bool res" where
  "compare_digest a b =
     (if list_ex (\<lambda>c. of_char c > (127 :: int)) (a @ b) then Inl TypeError else Inr (a = b))"

definition code_at :: "string \<Rightarrow> string \<Rightarrow> int \<Rightarrow> bool res" where
  "code_at secret code counter = rbind (hotp secret counter) (\<lambda>h. compare_digest h code)"

text \<open>The loop over \<open>range(-window, window + 1)\<close>; an exception outside the caught ones propagates.\<close>

fun match_loop :: "string \<Rightarrow> string \<Rightarrow> int list \<Rightarrow> int option res" where
  "match_loop secret code [] = Inr None"
| "match_loop secret code (c # cs) =
     (case code_at secret code c of
        Inl e \<Rightarrow> if e = ValueError \<or> e = TypeError then Inr None else Inl e
      | Inr b \<Rightarrow> if b then Inr (Some c) else match_loop secret code cs)"

definition matched_counter :: "int \<Rightarrow> string \<Rightarrow> string \<Rightarrow> int \<Rightarrow> int option res" where
  "matched_counter window secret code0 now =
     (if secret = [] \<or> code0 = [] then Inr None
      else
        (let code = strip code0 in
         if \<not> isdigit code then Inr None
         else (let step = now div 30000000 in
               match_loop secret code (map (\<lambda>w. step + w) [- window..window]))))"

definition totp_verify :: "int \<Rightarrow> string \<Rightarrow> string \<Rightarrow> int \<Rightarrow> bool res" where
  "totp_verify window secret code0 now =
     (if secret = [] \<or> code0 = [] then Inr False
      else
        (let code = strip code0 in
         if \<not> isdigit code then Inr False
         else (let step = now div 30000000 in
               rbind (match_loop secret code (map (\<lambda>w. step + w) [- window..window])) (\<lambda>m. Inr (m \<noteq> None)))))"

section \<open>Properties\<close>

lemma length_show_pos_le: "0 < k \<Longrightarrow> n < 10 ^ k \<Longrightarrow> length (show_pos n) \<le> k"
proof (induction k arbitrary: n)
  case (Suc k)
  show ?case
  proof (cases "n < 10")
    case False
    then have "k \<noteq> 0" using Suc.prems by (cases k) auto
    moreover have "n div 10 < 10 ^ k" using Suc.prems by (simp add: div_less_iff_less_mult mult.commute)
    ultimately show ?thesis using Suc.IH [of "n div 10"] False by (simp add: show_pos.simps [of n])
  qed (simp add: show_pos.simps [of n])
qed simp

lemma strip_digits: "list_all is_dig s \<Longrightarrow> strip s = s"
proof -
  have "\<not> is_space c" if "is_dig c" for c
    using that by (auto simp: is_dig_def is_space_def chr_between_def)
  then have d: "list_all is_dig t \<Longrightarrow> dropWhile is_space t = t" for t
    by (cases t) auto
  show "list_all is_dig s \<Longrightarrow> strip s = s"
    by (simp add: strip_def strip_chars_def rstrip_chars_def lstrip_chars_def d)
qed

lemma hotp_six_digits:
  assumes "hotp secret c = Inr code"
  shows "length code = 6 \<and> list_all is_dig code \<and> 0 \<le> c"
proof -
  obtain m where "code = zfill 6 (show_pos (m mod 10 ^ 6))" "0 \<le> c"
    using assms by (auto simp: hotp_def Let_def rbind_Inr_iff split: if_splits)
  moreover have "length (show_pos (m mod 10 ^ 6)) \<le> 6"
    by (rule length_show_pos_le) simp_all
  ultimately show ?thesis
    using show_pos_digits [of "m mod 10 ^ 6"]
    by (auto simp: zfill_def list_all_iff is_dig_def chr_between_def)
qed

lemma is_dig_ascii: "is_dig c \<Longrightarrow> \<not> of_char c > (127 :: int)"
proof -
  assume "is_dig c"
  then have "int (of_char c) \<le> 57" by (simp add: is_dig_def chr_between_def)
  then show ?thesis by (simp add: of_nat_of_char)
qed

lemma compare_digest_digits:
  "list_all is_dig a \<Longrightarrow> list_all is_dig b \<Longrightarrow> compare_digest a b = Inr (a = b)"
  by (auto simp: compare_digest_def list_all_iff list_ex_iff dest: is_dig_ascii)

lemma match_loop_Some:
  "match_loop secret code cs = Inr (Some c) \<Longrightarrow> c \<in> set cs \<and> code_at secret code c = Inr True"
  by (induction cs) (auto split: sum.splits if_splits)

lemma match_loop_total:
  assumes "list_all is_dig code" "\<forall>c\<in>set cs. \<exists>h. hotp secret c = Inr h" "c \<in> set cs" "hotp secret c = Inr code"
  shows "\<exists>d. match_loop secret code cs = Inr (Some d)"
  using assms
proof (induction cs)
  case (Cons x cs)
  obtain h where h: "hotp secret x = Inr h" using Cons.prems by auto
  then have "code_at secret code x = Inr (h = code)"
    using Cons.prems hotp_six_digits [OF h] by (simp add: code_at_def compare_digest_digits)
  then show ?case using Cons h by (cases "h = code") auto
qed simp

lemma hotp_defined:
  "hotp secret c = Inr h \<Longrightarrow> 0 \<le> d \<Longrightarrow> d < 2 ^ 64 \<Longrightarrow> \<exists>h'. hotp secret d = Inr h'"
  by (auto simp: hotp_def Let_def rbind_Inr_iff)

text \<open>A one-time code is accepted only for a 30-second step within the window around the current
  one, and only when it is the HOTP value of the secret at that step.\<close>

theorem matched_counter_sound:
  assumes "matched_counter window secret code now = Inr (Some c)"
  shows "now div 30000000 - window \<le> c \<and> c \<le> now div 30000000 + window \<and> hotp secret c = Inr (strip code)"
proof -
  have "c \<in> set (map (\<lambda>w. now div 30000000 + w) [- window..window])" "code_at secret (strip code) c = Inr True"
    using assms by (auto simp: matched_counter_def Let_def split: if_splits dest!: match_loop_Some)
  then show ?thesis
    by (auto simp: code_at_def rbind_Inr_iff compare_digest_def split: if_splits)
qed

lemma matched_counter_complete:
  assumes "hotp secret c = Inr code" "secret \<noteq> []"
    and "\<bar>c - now div 30000000\<bar> \<le> window" "window \<le> now div 30000000" "now div 30000000 + window < 2 ^ 64"
  shows "\<exists>d. matched_counter window secret code now = Inr (Some d)"
proof -
  note six = hotp_six_digits [OF assms(1)]
  have "isdigit code" using six by (auto simp: isdigit_def list_all_iff)
  moreover have "\<exists>d. match_loop secret code (map (\<lambda>w. now div 30000000 + w) [- window..window]) = Inr (Some d)"
  proof (rule match_loop_total [where c = c])
    show "list_all is_dig code" using six by simp
    show "c \<in> set (map (\<lambda>w. now div 30000000 + w) [- window..window])"
      using assms(3) by (auto intro!: image_eqI [where x = "c - now div 30000000"])
    show "\<forall>c\<in>set (map (\<lambda>w. now div 30000000 + w) [- window..window]). \<exists>h. hotp secret c = Inr h"
      using assms(4,5) hotp_defined [OF assms(1)] by auto
    show "hotp secret c = Inr code" by fact
  qed
  ultimately show ?thesis
    using assms(2) six by (auto simp: matched_counter_def strip_digits)
qed

lemma matched_counter_complete_ex:
  assumes "b32decode (map upper_chr secret @ replicate ((8 - length secret mod 8) mod 8) CHR ''='') = Inr key"
    and "secret \<noteq> []" "1 \<le> now div 30000000" "now div 30000000 + 1 < 2 ^ 64"
  shows "\<exists>code d. matched_counter 1 secret code now = Inr (Some d)"
proof -
  have "\<exists>h. hotp secret (now div 30000000) = Inr h"
    using assms by (simp add: hotp_def Let_def)
  then show ?thesis
    using matched_counter_complete [of secret "now div 30000000" _ now 1] assms by auto
qed

theorem matched_counter_sound_witness:
  "\<exists>code c. 9 \<le> c \<and> c \<le> 11 \<and> hotp ''GEZDGNBV'' c = Inr (strip code)"
proof -
  have "b32decode (map upper_chr ''GEZDGNBV'' @ replicate ((8 - length ''GEZDGNBV'' mod 8) mod 8) CHR ''='')
     = Inr [49, 50, 51, 52, 53]" by code_simp
  from matched_counter_complete_ex [OF this, of 300000000]
  obtain code c where "matched_counter 1 ''GEZDGNBV'' code 300000000 = Inr (Some c)" by auto
  from matched_counter_sound [OF this] show ?thesis by auto
qed

text \<open>C39. The code an authenticator shows is accepted: the HOTP value of any step within the window around
  the current one passes both checks.\<close>

theorem current_code_accepted:
  assumes "hotp secret c = Inr code" "secret \<noteq> []"
    and "\<bar>c - now div 30000000\<bar> \<le> window" "window \<le> now div 30000000" "now div 30000000 + window < 2 ^ 64"
  shows "(\<exists>d. matched_counter window secret code now = Inr (Some d)) \<and> totp_verify window secret code now = Inr True"
  using matched_counter_complete [OF assms] hotp_six_digits [OF assms(1)]
  by (auto simp: matched_counter_def totp_verify_def Let_def split: if_splits)

theorem current_code_accepted_witness:
  "\<exists>code. totp_verify 1 ''GEZDGNBV'' code 300000000 = Inr True"
proof -
  have "b32decode (map upper_chr ''GEZDGNBV'' @ replicate ((8 - length ''GEZDGNBV'' mod 8) mod 8) CHR ''='')
     = Inr [49, 50, 51, 52, 53]" by code_simp
  then have "\<exists>code. hotp ''GEZDGNBV'' 10 = Inr code" by (simp add: hotp_def Let_def)
  then obtain code where "hotp ''GEZDGNBV'' 10 = Inr code" by blast
  from current_code_accepted [OF this, of 300000000 1] show ?thesis by auto
qed

end
