(* ===== verification/Accounts.thy ===== *)
theory Accounts
  imports Net_Trust Totp
begin

text \<open>
  Signing in: the rows of \<open>models.py\<close> about accounts, the audit log (\<open>audit.py\<close>), the guard against
  password guessing (\<open>ratelimit.py\<close>), and the handlers of \<open>api/auth.py\<close> (login, password change,
  logout, second factor).

  The state is a record \<open>world\<close> with one list per table, in the order of the ids; a new row gets the
  largest id plus one, as SQLite gives it.  A handler is a function from the arguments, the current
  time and the world to a result (an HTTP error or a value) and a new world; one handler runs at a
  time, with a single reading of the clock.  What comes from third-party packages is in the record
  \<open>crypto\<close>: bcrypt's check and hash, and the encoding of a JWT.  Error texts in Russian are codes.
\<close>

section \<open>Rows\<close>

record user =
  u_id :: int
  username :: string
  password_hash :: string
  role :: string
  sections :: "string list"
  server_groups :: "string list"
  site_groups :: "string list"
  can_read_logs :: bool
  totp_secret :: string
  totp_enabled :: bool
  totp_last_counter :: int
  token_version :: int

record failure =
  lf_key :: string
  lf_ts :: time
  lf_username :: string

record ban =
  lb_id :: int
  lb_key :: string
  lb_created_at :: time
  lb_until :: time
  lb_failures :: int
  lb_logins :: string
  lb_repeat :: bool
  lb_blocked :: int
  lb_alerted :: bool

datatype detail =
    NoDetail
  | Whitelisted
  | LockoutDetail int int bool          \<comment> \<open>failures, minutes, again within a day\<close>
  | GuardDetail int int "string list" "string list"
  | Text string
  | ExpiryDetail string "int option"     \<comment> \<open>certificate or domain, the mode\<close>

record audit_row =
  al_ts :: time
  al_username :: string
  al_action :: string
  al_target :: string
  al_detail :: detail
  al_as_user :: string

record impersonation =
  im_id :: int
  im_admin :: string
  im_target :: string
  im_expires_at :: dt
  im_ended_at :: "dt option"
  im_ip :: string

datatype security_alert =
    LockoutAlert string int "string list" string   \<comment> \<open>key, minutes, other keys, logins\<close>
  | PasswordAlert string string                    \<comment> \<open>account, address\<close>

record world =
  users :: "user list"
  failures :: "failure list"
  bans :: "ban list"
  audit_log :: "audit_row list"
  impersonations :: "impersonation list"
  auth_revs :: "(string \<times> string) list"  \<comment> \<open>the settings rows of \<open>auth_generations\<close>\<close>
  login_guard :: "py option"                 \<comment> \<open>the setting after \<open>json.loads\<close>, \<open>None\<close> for none or unreadable\<close>
  sent_alerts :: "security_alert list"

definition world0 :: world where
  "world0 = \<lparr>users = [], failures = [], bans = [], audit_log = [], impersonations = [], auth_revs = [],
     login_guard = None, sent_alerts = []\<rparr>"

definition new_id :: "('a \<Rightarrow> int) \<Rightarrow> 'a list \<Rightarrow> int" where
  "new_id f rows = foldl max 0 (map f rows) + 1"

record crypto =
  checkpw :: "string \<Rightarrow> string \<Rightarrow> bool"
  hashpw :: "string \<Rightarrow> string"
  jwt_encode :: "dict \<Rightarrow> string"
  jwt_ttl_minutes :: int

datatype api_error = ApiError int string | Crash exc

type_synonym 'a answer = "api_error + 'a"

section \<open>impersonate.py and audit.py\<close>

record acting =
  ac_imp_id :: int
  ac_admin :: string
  ac_target :: string
  ac_expires_at :: dt

text \<open>The name written with the Russian word between the two names is shown as a pair.\<close>

datatype shown_name = Name string | NameAs string string

definition label :: "acting option \<Rightarrow> string \<Rightarrow> shown_name" where
  "label a name = (case a of
     Some x \<Rightarrow> if ac_target x = name then NameAs (ac_admin x) (ac_target x) else Name name
   | None \<Rightarrow> Name name)"

definition audit_record ::
  "time \<Rightarrow> acting option \<Rightarrow> string \<Rightarrow> string \<Rightarrow> string \<Rightarrow> detail \<Rightarrow> world \<Rightarrow> world" where
  "audit_record now act name action target det w =
     (let (name, as_user) =
        (case act of Some a \<Rightarrow> if name = ac_target a then (ac_admin a, ac_target a) else (name, [])
         | None \<Rightarrow> (name, []))
      in w\<lparr>audit_log := audit_log w @ [\<lparr>al_ts = now, al_username = name, al_action = action,
             al_target = take 255 target, al_detail = det, al_as_user = as_user\<rparr>]\<rparr>)"

section \<open>ratelimit.py\<close>

definition rl_WINDOW :: int where
  "rl_WINDOW = 900 * 1000000"

definition REPEAT_MINUTES :: int where
  "REPEAT_MINUTES = 24 * 60"

definition FAIL_CHOICES :: "int list" where
  "FAIL_CHOICES = [3, 5, 10, 20]"

definition BAN_CHOICES :: "int list" where
  "BAN_CHOICES = [15, 60, 360, 1440]"

definition minutes_us :: "int \<Rightarrow> int" where
  "minutes_us m = m * 60 * 1000000"

record guard =
  max_failures :: int
  ban_minutes :: int
  allow :: "dict list"

definition guard0 :: guard where
  "guard0 = \<lparr>max_failures = 5, ban_minutes = 60, allow = []\<rparr>"

text \<open>\<open>ipaddress.ip_network(a["net"], strict=False)\<close>: an int is an address, anything else goes by its text.\<close>

definition net_of_py :: "py \<Rightarrow> net option" where
  "net_of_py v =
     (let of_int = (\<lambda>n :: int. if 0 \<le> n \<and> n < 2 ^ 32 then Some (Net4 n 32)
                          else if 0 \<le> n \<and> n < 2 ^ 128 then Some (Net6 n 128) else None)
      in case v of PInt n \<Rightarrow> of_int n | PBool b \<Rightarrow> of_int (if b then 1 else 0) | _ \<Rightarrow> ip_network (py_str v))"

definition guard_allowed :: "guard \<Rightarrow> string \<Rightarrow> dict option" where
  "guard_allowed g key =
     (case ip_address key of
        None \<Rightarrow> None
      | Some a \<Rightarrow> find (\<lambda>e. dhas e ''net'' \<and> (case net_of_py (dget e ''net'') of None \<Rightarrow> False | Some n \<Rightarrow> ip_in a n)) (allow g))"

definition parse_net :: "string \<Rightarrow> string res" where
  "parse_net raw =
     (case ip_network (strip raw) of
        None \<Rightarrow> Inl ValueError
      | Some (Net4 b p) \<Rightarrow> Inr (if p = 32 then show_v4 b else show_net (Net4 b p))
      | Some (Net6 b p) \<Rightarrow> Inr (if p = 128 then show_v6 b else show_net (Net6 b p)))"

definition choice :: "py \<Rightarrow> int list \<Rightarrow> int option" where
  "choice v cs = find (\<lambda>c. py_eq v (PInt c)) cs"

definition load_guard :: "world \<Rightarrow> guard res" where
  "load_guard w =
     (let data = (case login_guard w of None \<Rightarrow> [] | Some v \<Rightarrow> dict_or_empty v);
          mf = (case choice (dget data ''max_failures'') FAIL_CHOICES of None \<Rightarrow> max_failures guard0 | Some n \<Rightarrow> n);
          bm = (case choice (dget data ''ban_minutes'') BAN_CHOICES of None \<Rightarrow> ban_minutes guard0 | Some n \<Rightarrow> n);
          entries = (\<lambda>xs. List.map_filter as_dict (filter (\<lambda>v. truthy (dget (dict_or_empty v) ''net'')) xs))
      in case por (dget data ''allow'') (PList []) of
           PList xs \<Rightarrow> Inr \<lparr>max_failures = mf, ban_minutes = bm, allow = entries xs\<rparr>
         | PStr _ \<Rightarrow> Inr \<lparr>max_failures = mf, ban_minutes = bm, allow = []\<rparr>
         | PDict _ \<Rightarrow> Inr \<lparr>max_failures = mf, ban_minutes = bm, allow = []\<rparr>
         | _ \<Rightarrow> Inl TypeError)"

definition save_guard :: "guard \<Rightarrow> world \<Rightarrow> world" where
  "save_guard g w = w\<lparr>login_guard := Some (PDict
     [(''max_failures'', PInt (max_failures g)), (''ban_minutes'', PInt (ban_minutes g)),
      (''allow'', PList (map PDict (allow g)))])\<rparr>"

definition recent :: "world \<Rightarrow> string \<Rightarrow> time \<Rightarrow> int" where
  "recent w key moment =
     int (length (filter (\<lambda>f. lf_key f = key \<and> lf_ts f \<ge> moment - rl_WINDOW) (failures w)))"

text \<open>\<open>ORDER BY id DESC LIMIT 1\<close>: the rows are kept in the order of their ids.\<close>

definition active_ban :: "time \<Rightarrow> string \<Rightarrow> world \<Rightarrow> ban option" where
  "active_ban now key w = find (\<lambda>b. lb_key b = key \<and> lb_until b > now) (rev (bans w))"

definition note_blocked :: "ban \<Rightarrow> world \<Rightarrow> world" where
  "note_blocked b w =
     w\<lparr>bans := map (\<lambda>x. if lb_id x = lb_id b then x\<lparr>lb_blocked := lb_blocked x + 1\<rparr> else x) (bans w)\<rparr>"

definition new_ban :: "guard \<Rightarrow> string \<Rightarrow> time \<Rightarrow> int \<Rightarrow> world \<Rightarrow> ban" where
  "new_ban g key moment n w =
     (let prev = list_ex (\<lambda>b. lb_key b = key \<and> lb_until b \<ge> moment - day_us) (bans w);
          names = sorted_set (filter (\<lambda>u. u \<noteq> []) (map lf_username (filter (\<lambda>f. lf_key f = key) (failures w))));
          minutes = (if prev then max (ban_minutes g) REPEAT_MINUTES else ban_minutes g)
      in \<lparr>lb_id = new_id lb_id (bans w), lb_key = key, lb_created_at = moment,
          lb_until = moment + minutes_us minutes, lb_failures = n, lb_logins = take 255 (join '', '' names),
          lb_repeat = prev, lb_blocked = 0, lb_alerted = False\<rparr>)"

definition forget_failures :: "string \<Rightarrow> world \<Rightarrow> world" where
  "forget_failures key w = w\<lparr>failures := filter (\<lambda>f. lf_key f \<noteq> key) (failures w)\<rparr>"

definition count_failure :: "string \<Rightarrow> string \<Rightarrow> time \<Rightarrow> world \<Rightarrow> world" where
  "count_failure key name moment w =
     w\<lparr>failures := filter (\<lambda>f. \<not> lf_ts f < moment - rl_WINDOW)
           (failures w @ [\<lparr>lf_key = key, lf_ts = moment, lf_username = take 64 name\<rparr>]),
       bans := filter (\<lambda>b. \<not> lb_until b < moment - 2 * day_us) (bans w)\<rparr>"

definition record_failure :: "guard \<Rightarrow> string \<Rightarrow> string \<Rightarrow> time \<Rightarrow> world \<Rightarrow> ban option \<times> world" where
  "record_failure g key name moment w =
     (let w1 = count_failure key name moment w;
          n = recent w1 key moment
      in if n \<ge> max_failures g \<and> active_ban moment key w1 = None then
           (let b = new_ban g key moment n w1
            in (Some b, forget_failures key (w1\<lparr>bans := bans w1 @ [b]\<rparr>)))
         else (None, w1))"

definition clear :: "string \<Rightarrow> world \<Rightarrow> world" where
  "clear key w = forget_failures key w"

definition unban :: "string \<Rightarrow> world \<Rightarrow> bool \<times> world" where
  "unban key w =
     (list_ex (\<lambda>b. lb_key b = key) (bans w),
      forget_failures key (w\<lparr>bans := filter (\<lambda>b. lb_key b \<noteq> key) (bans w)\<rparr>))"

section \<open>api/auth.py: sign-in\<close>

text \<open>\<open>list(dict.fromkeys(xs))\<close>\<close>

definition first_occurrences :: "'a list \<Rightarrow> 'a list" where
  "first_occurrences xs = rev (remdups (rev xs))"

definition ban_length :: "ban \<Rightarrow> int" where
  "ban_length b = (lb_until b - lb_created_at b) div 60000000"

definition lockout_alert :: "ban \<Rightarrow> world \<Rightarrow> world" where
  "lockout_alert b w =
     (if list_ex (\<lambda>x. lb_id x \<noteq> lb_id b \<and> lb_alerted x \<and> lb_created_at x \<ge> lb_created_at b - minutes_us 60) (bans w)
      then w
      else
        (let quiet = filter (\<lambda>x. lb_id x \<noteq> lb_id b \<and> \<not> lb_alerted x \<and> \<not> lb_repeat x
                               \<and> lb_created_at x \<ge> lb_created_at b - day_us) (bans w);
             ids = map lb_id (b # quiet);
             keys = first_occurrences (filter (\<lambda>k. k \<noteq> lb_key b) (map lb_key quiet))
         in w\<lparr>bans := map (\<lambda>x. if lb_id x \<in> set ids then x\<lparr>lb_alerted := True\<rparr> else x) (bans w),
              sent_alerts := sent_alerts w @ [LockoutAlert (lb_key b) (ban_length b) keys
                 (if keys = [] then lb_logins b else [])]\<rparr>))"

definition auth_record_failure ::
  "time \<Rightarrow> acting option \<Rightarrow> string \<Rightarrow> string \<Rightarrow> string \<Rightarrow> guard \<Rightarrow> bool \<Rightarrow> world \<Rightarrow> world" where
  "auth_record_failure now act key name action g trusted w =
     (if trusted then audit_record now act name action key Whitelisted w
      else
        (let (ban, w1) = record_failure g key name now w;
             w2 = audit_record now act name action key NoDetail w1
         in case ban of
              None \<Rightarrow> w2
            | Some b \<Rightarrow>
                (let w3 = audit_record now act name ''login_lockout'' key
                            (LockoutDetail (lb_failures b) (ban_length b) (lb_repeat b)) w2
                 in if lb_repeat b then w3 else lockout_alert b w3)))"

text \<open>\<open>f"locked:{max(1, math.ceil(left / 60))}"\<close>\<close>

definition locked_text :: "time \<Rightarrow> ban \<Rightarrow> string" where
  "locked_text now b = ''locked:'' @ show_int (max 1 (- ((- (lb_until b - now)) div 60000000)))"

text \<open>Who is at the door: the guard, whether the address is on the white list, and its ban.\<close>

definition door :: "time \<Rightarrow> string \<Rightarrow> world \<Rightarrow> (guard \<times> bool \<times> ban option) res" where
  "door now key w =
     rbind (load_guard w) (\<lambda>g.
       let trusted = (guard_allowed g key \<noteq> None)
       in Inr (g, trusted, if trusted then None else active_ban now key w))"

definition guarded ::
  "time \<Rightarrow> acting option \<Rightarrow> string \<Rightarrow> string \<Rightarrow> string \<Rightarrow> bool \<Rightarrow> string \<Rightarrow> world \<Rightarrow> unit answer \<times> world" where
  "guarded now act key name action ok err w =
     (case door now key w of
        Inl e \<Rightarrow> (Inl (Crash e), w)
      | Inr (g, trusted, ban) \<Rightarrow>
         (case ban of
            Some b \<Rightarrow> (Inl (ApiError 429 (locked_text now b)), note_blocked b w)
          | None \<Rightarrow>
              if \<not> ok then (Inl (ApiError 400 err), auth_record_failure now act key name action g trusted w)
              else (Inr (), w)))"

definition find_user :: "string \<Rightarrow> world \<Rightarrow> user option" where
  "find_user name w = find (\<lambda>u. username u = name) (users w)"

definition set_user :: "user \<Rightarrow> world \<Rightarrow> world" where
  "set_user u w = w\<lparr>users := map (\<lambda>x. if u_id x = u_id u then u else x) (users w)\<rparr>"

definition create_access_token :: "crypto \<Rightarrow> time \<Rightarrow> string \<Rightarrow> int \<Rightarrow> int \<Rightarrow> string" where
  "create_access_token cr now name ver uid =
     jwt_encode cr [(''sub'', PStr name), (''ver'', PInt ver), (''iat'', PInt (unix now)),
       (''exp'', PInt (unix (now + minutes_us (jwt_ttl_minutes cr)))), (''uid'', PInt uid)]"

definition DUMMY_HASH :: "crypto \<Rightarrow> string" where
  "DUMMY_HASH cr = hashpw cr ''no-such-user-timing-guard''"

record login_body =
  lg_username :: string
  lg_password :: string
  lg_otp :: "string option"

definition otp_given :: "login_body \<Rightarrow> string" where
  "otp_given body = (case lg_otp body of None \<Rightarrow> [] | Some s \<Rightarrow> s)"

text \<open>The end of a successful login, and a failed one.\<close>

definition login_ok :: "crypto \<Rightarrow> time \<Rightarrow> string \<Rightarrow> user \<Rightarrow> world \<Rightarrow> string answer \<times> world" where
  "login_ok cr now key u w =
     (let w1 = clear key w;
          token = create_access_token cr now (username u) (token_version u) (u_id u)
      in (Inr token, audit_record now None (username u) ''login_ok'' key NoDetail w1))"

definition login :: "crypto \<Rightarrow> time \<Rightarrow> string \<Rightarrow> login_body \<Rightarrow> world \<Rightarrow> string answer \<times> world" where
  "login cr now key body w =
     (case door now key w of
        Inl e \<Rightarrow> (Inl (Crash e), w)
      | Inr (g, trusted, ban) \<Rightarrow>
         (case ban of
            Some b \<Rightarrow> (Inl (ApiError 429 (locked_text now b)), note_blocked b w)
          | None \<Rightarrow>
             (let fail = (\<lambda>action. auth_record_failure now None key (lg_username body) action g trusted w)
              in case find_user (lg_username body) w of
                   None \<Rightarrow> (Inl (ApiError 401 ''bad_login''), fail ''login_fail'')
                 | Some u \<Rightarrow>
                     if \<not> checkpw cr (lg_password body) (password_hash u)
                     then (Inl (ApiError 401 ''bad_login''), fail ''login_fail'')
                     else if totp_enabled u then
                       (if otp_given body = [] then (Inl (ApiError 401 ''2fa_required''), w)
                        else
                          (case matched_counter 1 (totp_secret u) (otp_given body) now of
                             Inl e \<Rightarrow> (Inl (Crash e), w)
                           | Inr None \<Rightarrow> (Inl (ApiError 401 ''2fa_invalid''), fail ''login_2fa_fail'')
                           | Inr (Some counter) \<Rightarrow>
                               if counter \<le> totp_last_counter u
                               then (Inl (ApiError 401 ''2fa_invalid''), fail ''login_2fa_fail'')
                               else
                                 (let u' = u\<lparr>totp_last_counter := counter\<rparr>
                                  in login_ok cr now key u' (set_user u' w))))
                     else login_ok cr now key u w)))"

section \<open>api/auth.py: the account's own settings\<close>

record pw_body =
  current_password :: string
  new_password :: string

text \<open>\<open>u\<close> is the row as it was read when the request was authenticated; the UPDATE goes to the row of the
  table only if id, name and version are still the same.\<close>

definition change_password ::
  "crypto \<Rightarrow> time \<Rightarrow> acting option \<Rightarrow> string \<Rightarrow> pw_body \<Rightarrow> user \<Rightarrow> world \<Rightarrow> string answer \<times> world" where
  "change_password cr now act key body u w =
     (case guarded now act key (username u) ''password_fail''
             (checkpw cr (current_password body) (password_hash u)) ''bad_current'' w of
        (Inl e, w1) \<Rightarrow> (Inl e, w1)
      | (Inr _, w1) \<Rightarrow>
          (case find (\<lambda>x. u_id x = u_id u \<and> username x = username u \<and> token_version x = token_version u) (users w1) of
             None \<Rightarrow> (Inl (ApiError 401 ''bad_token''), w1)
           | Some x \<Rightarrow>
               (let x' = x\<lparr>password_hash := hashpw cr (new_password body), token_version := token_version x + 1\<rparr>;
                    w2 = set_user x' w1;
                    w3 = audit_record now act (username u) ''password_change'' (username u) NoDetail w2;
                    w4 = w3\<lparr>sent_alerts := sent_alerts w3 @ [PasswordAlert (username u) key]\<rparr>
                in (Inr (create_access_token cr now (username u) (token_version x') (u_id u)), w4))))"

text \<open>The ORM object \<open>u\<close> is the row of the session: writing it writes the row of its id.\<close>

definition logout :: "time \<Rightarrow> acting option \<Rightarrow> user \<Rightarrow> world \<Rightarrow> world" where
  "logout now act u w =
     (if act \<noteq> None then w
      else audit_record now act (username u) ''logout'' (username u) NoDetail
             (set_user (u\<lparr>token_version := token_version u + 1\<rparr>) w))"

definition twofa_setup :: "string \<Rightarrow> user \<Rightarrow> world \<Rightarrow> string answer \<times> world" where
  "twofa_setup secret u w =
     (if totp_enabled u then (Inl (ApiError 400 ''2fa_already_on''), w)
      else (Inr secret, set_user (u\<lparr>totp_secret := secret\<rparr>) w))"

definition twofa_enable :: "time \<Rightarrow> acting option \<Rightarrow> string \<Rightarrow> user \<Rightarrow> world \<Rightarrow> bool answer \<times> world" where
  "twofa_enable now act otp u w =
     (if totp_enabled u then (Inl (ApiError 400 ''2fa_already_on''), w)
      else if totp_secret u = [] then (Inl (ApiError 400 ''no_setup''), w)
      else (case totp_verify 1 (totp_secret u) otp now of
              Inl e \<Rightarrow> (Inl (Crash e), w)
            | Inr False \<Rightarrow> (Inl (ApiError 400 ''bad_code''), w)
            | Inr True \<Rightarrow>
                (Inr True, audit_record now act (username u) ''2fa_enable'' (username u) NoDetail
                   (set_user (u\<lparr>totp_enabled := True\<rparr>) w))))"

definition twofa_disable ::
  "time \<Rightarrow> acting option \<Rightarrow> string \<Rightarrow> string \<Rightarrow> user \<Rightarrow> world \<Rightarrow> bool answer \<times> world" where
  "twofa_disable now act key otp u w =
     (if \<not> totp_enabled u then (Inl (ApiError 400 ''2fa_off''), w)
      else case totp_verify 1 (totp_secret u) otp now of
        Inl e \<Rightarrow> (Inl (Crash e), w)
      | Inr ok \<Rightarrow>
          (case guarded now act key (username u) ''2fa_disable_fail'' ok ''bad_code'' w of
             (Inl e, w1) \<Rightarrow> (Inl e, w1)
           | (Inr _, w1) \<Rightarrow>
               (Inr False, audit_record now act (username u) ''2fa_disable'' (username u) NoDetail
                  (set_user (u\<lparr>totp_enabled := False, totp_secret := []\<rparr>) w1))))"

section \<open>api/login_guard.py\<close>

record allow_entry =
  ae_net :: string
  ae_note :: string

fun check_allow :: "string list \<Rightarrow> allow_entry list \<Rightarrow> dict list answer" where
  "check_allow seen [] = Inr []"
| "check_allow seen (a # as) =
     (case parse_net (ae_net a) of
        Inl e \<Rightarrow> Inl (ApiError 422 ''not_a_net'')
      | Inr net \<Rightarrow>
          if net \<in> set seen then check_allow seen as
          else (case check_allow (net # seen) as of
                  Inl e \<Rightarrow> Inl e
                | Inr rest \<Rightarrow> Inr ([(''net'', PStr net), (''note'', PStr (strip (ae_note a)))] # rest)))"

definition put_guard ::
  "time \<Rightarrow> user \<Rightarrow> int \<Rightarrow> int \<Rightarrow> allow_entry list \<Rightarrow> world \<Rightarrow> unit answer \<times> world" where
  "put_guard now admin mf bm entries w =
     (if mf \<notin> set FAIL_CHOICES \<or> bm \<notin> set BAN_CHOICES then (Inl (ApiError 422 ''bad_rule''), w)
      else if length entries > 100 then (Inl (ApiError 422 ''too_many''), w)
      else (case check_allow [] entries of
              Inl e \<Rightarrow> (Inl e, w)
            | Inr al \<Rightarrow>
               (case load_guard w of
                  Inl e \<Rightarrow> (Inl (Crash e), w)
                | Inr old \<Rightarrow>
                   (let nets = (\<lambda>g. map (\<lambda>x. py_str (dget x ''net'')) g);
                        added = sorted_set (filter (\<lambda>n. n \<notin> set (nets (allow old))) (nets al));
                        removed = sorted_set (filter (\<lambda>n. n \<notin> set (nets al)) (nets (allow old)))
                    in (Inr (), audit_record now None (username admin) ''login_guard'' []
                          (GuardDetail mf bm added removed)
                          (save_guard \<lparr>max_failures = mf, ban_minutes = bm, allow = al\<rparr> w))))))"

definition api_unban :: "time \<Rightarrow> user \<Rightarrow> string \<Rightarrow> world \<Rightarrow> world" where
  "api_unban now admin key w =
     (let (found, w1) = unban key w
      in if found then audit_record now None (username admin) ''login_unban'' key NoDetail w1 else w1)"

section \<open>Password guessing is bounded\<close>

text \<open>What the guard reads of the world: the times of the counted failures of a key, and the keys and
  ends of the bans.\<close>

definition fail_times :: "string \<Rightarrow> world \<Rightarrow> time list" where
  "fail_times k w = map lf_ts (filter (\<lambda>f. lf_key f = k) (failures w))"

definition ban_ends :: "world \<Rightarrow> (string \<times> time) list" where
  "ban_ends w = map (\<lambda>b. (lb_key b, lb_until b)) (bans w)"

named_theorems guard_view \<open>effect of the operations on what the guard reads\<close>

lemma audit_record_view [guard_view]:
  "fail_times k (audit_record t a n ac tg d w) = fail_times k w"
  "ban_ends (audit_record t a n ac tg d w) = ban_ends w"
  "login_guard (audit_record t a n ac tg d w) = login_guard w"
  by (simp_all add: audit_record_def fail_times_def ban_ends_def Let_def split: prod.splits)

lemma lockout_alert_view [guard_view]:
  "fail_times k (lockout_alert b w) = fail_times k w"
  "ban_ends (lockout_alert b w) = ban_ends w"
  "login_guard (lockout_alert b w) = login_guard w"
  by (auto simp: lockout_alert_def fail_times_def ban_ends_def Let_def)

lemma note_blocked_view [guard_view]:
  "fail_times k (note_blocked b w) = fail_times k w"
  "ban_ends (note_blocked b w) = ban_ends w"
  "login_guard (note_blocked b w) = login_guard w"
  by (auto simp: note_blocked_def fail_times_def ban_ends_def)

lemma set_user_view [guard_view]:
  "fail_times k (set_user u w) = fail_times k w"
  "ban_ends (set_user u w) = ban_ends w"
  "login_guard (set_user u w) = login_guard w"
  by (simp_all add: set_user_def fail_times_def ban_ends_def)

lemma forget_failures_view [guard_view]:
  "fail_times k (forget_failures k' w) = (if k = k' then [] else fail_times k w)"
  "ban_ends (forget_failures k' w) = ban_ends w"
  "login_guard (forget_failures k' w) = login_guard w"
  by (auto simp: forget_failures_def fail_times_def ban_ends_def intro: arg_cong [where f = "map lf_ts"] filter_cong)

lemma count_failure_view [guard_view]:
  "fail_times k (count_failure k' n t w) =
     filter (\<lambda>x. \<not> x < t - rl_WINDOW) (fail_times k w) @ (if k = k' then [t] else [])"
  "ban_ends (count_failure k' n t w) = filter (\<lambda>(_, u). \<not> u < t - 2 * day_us) (ban_ends w)"
  "login_guard (count_failure k' n t w) = login_guard w"
  by (auto simp: count_failure_def fail_times_def ban_ends_def filter_map o_def rl_WINDOW_def
      intro: arg_cong [where f = "map lf_ts"] filter_cong)

lemma active_ban_None: "active_ban t k w = None \<longleftrightarrow> (\<forall>u. (k, u) \<in> set (ban_ends w) \<longrightarrow> u \<le> t)"
  by (auto simp: active_ban_def find_None_iff ban_ends_def not_less)

lemma recent_count_failure: "recent (count_failure k n t w) k t = int (length (fail_times k (count_failure k n t w)))"
proof -
  have "filter (\<lambda>f. lf_key f = k \<and> t - rl_WINDOW \<le> lf_ts f) (failures (count_failure k n t w))
      = filter (\<lambda>f. lf_key f = k) (failures (count_failure k n t w))"
    by (auto simp: count_failure_def not_less intro: filter_cong)
  then show ?thesis by (simp add: recent_def fail_times_def)
qed

lemma new_ban_until:
  "lb_key (new_ban g k t n w) = k \<and> t + minutes_us (ban_minutes g) \<le> lb_until (new_ban g k t n w)"
  by (simp add: new_ban_def Let_def minutes_us_def)

text \<open>One counted failure.\<close>

lemma record_failure_view:
  fixes g :: guard and n :: string
  assumes "active_ban t k w = None"
  defines "w' \<equiv> snd (record_failure g k n t w)"
    and "D \<equiv> filter (\<lambda>x. \<not> x < t - rl_WINDOW) (fail_times k w) @ [t]"
  shows "login_guard w' = login_guard w"
    and "\<And>j. j \<noteq> k \<Longrightarrow> fail_times j w' = filter (\<lambda>x. \<not> x < t - rl_WINDOW) (fail_times j w)"
    and "\<And>j u. (j, u) \<in> set (ban_ends w) \<Longrightarrow> t < u \<Longrightarrow> (j, u) \<in> set (ban_ends w')"
    and "if max_failures g \<le> int (length D)
         then fail_times k w' = [] \<and> (\<exists>u. (k, u) \<in> set (ban_ends w') \<and> t + minutes_us (ban_minutes g) \<le> u)
         else fail_times k w' = D"
proof -
  let ?w1 = "count_failure k n t w"
  have nb: "active_ban t k ?w1 = None"
    using assms(1) by (auto simp: active_ban_None guard_view)
  have "0 \<le> (2 * day_us)" by (simp add: day_us_def)
  then have keep: "(j, u) \<in> set (ban_ends w) \<Longrightarrow> t < u \<Longrightarrow> (j, u) \<in> set (ban_ends ?w1)" for j u
    by (auto simp: guard_view)
  have D: "fail_times k ?w1 = D" by (simp add: guard_view D_def)
  have add: "fail_times j (?w1\<lparr>bans := bans ?w1 @ [b]\<rparr>) = fail_times j ?w1"
    "ban_ends (?w1\<lparr>bans := bans ?w1 @ [b]\<rparr>) = ban_ends ?w1 @ [(lb_key b, lb_until b)]" for j b
    by (simp_all add: fail_times_def ban_ends_def)
  note rf = record_failure_def Let_def recent_count_failure D nb
  show "login_guard w' = login_guard w"
    by (simp add: w'_def rf guard_view)
  show "j \<noteq> k \<Longrightarrow> fail_times j w' = filter (\<lambda>x. \<not> x < t - rl_WINDOW) (fail_times j w)" for j
    by (simp add: w'_def rf guard_view add)
  show "(j, u) \<in> set (ban_ends w) \<Longrightarrow> t < u \<Longrightarrow> (j, u) \<in> set (ban_ends w')" for j u
    using keep by (simp add: w'_def rf add forget_failures_view)
  show "if max_failures g \<le> int (length D)
         then fail_times k w' = [] \<and> (\<exists>u. (k, u) \<in> set (ban_ends w') \<and> t + minutes_us (ban_minutes g) \<le> u)
         else fail_times k w' = D"
    using new_ban_until [of g k t "int (length D)" ?w1]
    by (auto simp: w'_def rf add D forget_failures_view)
qed

definition counted :: "string answer \<Rightarrow> bool" where
  "counted r \<longleftrightarrow> r = Inl (ApiError 401 ''bad_login'') \<or> r = Inl (ApiError 401 ''2fa_invalid'')"

lemma counted_simps [simp]:
  "\<not> counted (Inr x)" "\<not> counted (Inl (Crash e))" "\<not> counted (Inl (ApiError 429 x))"
  "\<not> counted (Inl (ApiError 401 ''2fa_required''))"
  "counted (Inl (ApiError 401 ''bad_login''))" "counted (Inl (ApiError 401 ''2fa_invalid''))"
  by (simp_all add: counted_def)

lemma auth_record_failure_view:
  "fail_times j (auth_record_failure t a k n ac g tr w) = fail_times j (if tr then w else snd (record_failure g k n t w))"
  "ban_ends (auth_record_failure t a k n ac g tr w) = ban_ends (if tr then w else snd (record_failure g k n t w))"
  "login_guard (auth_record_failure t a k n ac g tr w) = login_guard (if tr then w else snd (record_failure g k n t w))"
  by (auto simp: auth_record_failure_def Let_def guard_view split: prod.splits option.splits)

text \<open>What one login does to the guard's tables: nothing, a cleared counter after a success, or one
  counted failure.  A counted failure needs an address that is neither banned nor trusted.\<close>

lemma login_view:
  assumes "login cr t k body w = (r, w')" "load_guard w = Inr g"
  shows "login_guard w' = login_guard w"
    and "counted r \<Longrightarrow> guard_allowed g k = None \<Longrightarrow>
      active_ban t k w = None \<and> (\<exists>n. (\<forall>j. fail_times j w' = fail_times j (snd (record_failure g k n t w))) \<and>
        ban_ends w' = ban_ends (snd (record_failure g k n t w)))"
    and "\<not> counted r \<or> guard_allowed g k \<noteq> None \<Longrightarrow>
      (\<forall>j. j \<noteq> k \<or> (\<forall>x. r \<noteq> Inr x) \<longrightarrow> fail_times j w' = fail_times j w) \<and> ban_ends w' = ban_ends w"
proof -
  define tr where "tr = (guard_allowed g k \<noteq> None)"
  define ban where "ban = (if tr then None else active_ban t k w)"
  have d: "door t k w = Inr (g, tr, ban)"
    by (simp add: door_def assms(2) tr_def ban_def)
  define F where "F = (\<lambda>action. auth_record_failure t None k (lg_username body) action g tr w)"
  have lg: "login_guard (snd (record_failure g k n t w)) = login_guard w" for n
    by (simp add: record_failure_def Let_def guard_view)
  have "(counted r \<and> ban = None \<and> (\<exists>ac. w' = F ac)) \<or>
        (\<not> counted r \<and> (\<forall>j. j \<noteq> k \<or> (\<forall>x. r \<noteq> Inr x) \<longrightarrow> fail_times j w' = fail_times j w) \<and>
          ban_ends w' = ban_ends w \<and> login_guard w' = login_guard w)"
    using assms(1) unfolding login_def d F_def
    by (auto simp: Let_def login_ok_def clear_def guard_view split: option.splits if_splits sum.splits)
  then consider ac where "counted r" "ban = None" "w' = F ac" |
      "\<not> counted r" "\<forall>j. j \<noteq> k \<or> (\<forall>x. r \<noteq> Inr x) \<longrightarrow> fail_times j w' = fail_times j w" "ban_ends w' = ban_ends w"
      "login_guard w' = login_guard w"
    by blast
  note c = this
  show "login_guard w' = login_guard w"
    by (cases rule: c) (auto simp: F_def auth_record_failure_view lg)
  show "active_ban t k w = None \<and> (\<exists>n. (\<forall>j. fail_times j w' = fail_times j (snd (record_failure g k n t w))) \<and>
        ban_ends w' = ban_ends (snd (record_failure g k n t w)))" if "counted r" "guard_allowed g k = None"
    using that by (cases rule: c) (auto simp: F_def auth_record_failure_view ban_def tr_def)
  show "(\<forall>j. j \<noteq> k \<or> (\<forall>x. r \<noteq> Inr x) \<longrightarrow> fail_times j w' = fail_times j w) \<and> ban_ends w' = ban_ends w"
    if "\<not> counted r \<or> guard_allowed g k \<noteq> None"
    using that by (cases rule: c) (auto simp: F_def auth_record_failure_view tr_def)
qed

text \<open>What an attempt from \<open>k'\<close> at \<open>t\<close> does to what the guard knows about \<open>k\<close>; \<open>b\<close> says that the attempt was checked and
  failed.\<close>

definition guard_effect :: "guard \<Rightarrow> string \<Rightarrow> string \<Rightarrow> time \<Rightarrow> bool \<Rightarrow> world \<Rightarrow> world \<Rightarrow> bool" where
  "guard_effect g k k' t b w w' \<longleftrightarrow>
     login_guard w' = login_guard w \<and>
     (if b \<and> guard_allowed g k' = None
      then active_ban t k' w = None \<and>
        (\<exists>n. fail_times k w' = fail_times k (snd (record_failure g k' n t w)) \<and> ban_ends w' = ban_ends (snd (record_failure g k' n t w)))
      else fail_times k w' = fail_times k w \<and> ban_ends w' = ban_ends w)"

lemma login_effect:
  assumes "login cr t k' body w = (r, w')" "load_guard w = Inr g" "k' \<noteq> k \<or> (\<forall>x. r \<noteq> Inr x)"
  shows "guard_effect g k k' t (counted r) w w'"
  using login_view [OF assms(1,2)] assms(3) unfolding guard_effect_def by auto

lemma login_clears:
  assumes "login cr t k body w = (Inr tok, w')"
  shows "fail_times k w' = []" "login_guard w' = login_guard w"
  using assms by (auto simp: login_def Let_def login_ok_def clear_def guard_view split: option.splits if_splits sum.splits)

lemma guarded_effect:
  assumes "guarded t act k' n ac ok err w = (r, w')" "load_guard w = Inr g"
  shows "guard_effect g k k' t (r = Inl (ApiError 400 err)) w w'"
proof -
  have lg: "login_guard (snd (record_failure g k' n t w)) = login_guard w" for n
    by (simp add: record_failure_def Let_def guard_view)
  show ?thesis using assms unfolding guarded_def door_def guard_effect_def
    by (auto simp: Let_def guard_view auth_record_failure_view lg split: if_splits option.splits)
qed

lemma guard_effect_then:
  assumes "guard_effect g k k' t b w w1"
    "login_guard w' = login_guard w1" "fail_times k w' = fail_times k w1" "ban_ends w' = ban_ends w1"
  shows "guard_effect g k k' t b w w'"
  using assms by (simp add: guard_effect_def)

lemma alerts_view [guard_view]:
  "fail_times k (w\<lparr>sent_alerts := xs\<rparr>) = fail_times k w" "ban_ends (w\<lparr>sent_alerts := xs\<rparr>) = ban_ends w"
  "login_guard (w\<lparr>sent_alerts := xs\<rparr>) = login_guard w"
  by (simp_all add: fail_times_def ban_ends_def)

lemma change_password_effect:
  assumes "change_password cr t act k' body u w = (r, w')" "load_guard w = Inr g"
  shows "guard_effect g k k' t (r = Inl (ApiError 400 ''bad_current'')) w w'"
proof -
  obtain q w1 where q: "guarded t act k' (username u) ''password_fail'' (checkpw cr (current_password body) (password_hash u)) ''bad_current'' w = (q, w1)"
    by (meson surj_pair)
  have "(r = Inl (ApiError 400 ''bad_current'')) = (q = Inl (ApiError 400 ''bad_current''))"
    "login_guard w' = login_guard w1" "fail_times k w' = fail_times k w1" "ban_ends w' = ban_ends w1"
    using assms(1) unfolding change_password_def q
    by (auto simp: Let_def guard_view split: sum.splits option.splits)
  then show ?thesis using guard_effect_then [OF guarded_effect [OF q assms(2), of k]] by simp
qed

lemma twofa_disable_effect:
  assumes "twofa_disable t act k' otp u w = (r, w')" "load_guard w = Inr g"
  shows "guard_effect g k k' t (r = Inl (ApiError 400 ''bad_code'')) w w'"
proof -
  have same: "guard_effect g k k' t False w w" by (simp add: guard_effect_def)
  consider "r = Inl (ApiError 400 ''2fa_off'')" "w' = w" | e where "r = Inl (Crash e)" "w' = w"
    | ok where "totp_enabled u" "totp_verify 1 (totp_secret u) otp t = Inr ok"
    using assms(1) by (auto simp: twofa_disable_def split: if_splits sum.splits)
  then show ?thesis
  proof cases
    case 3
    obtain q w1 where q: "guarded t act k' (username u) ''2fa_disable_fail'' ok ''bad_code'' w = (q, w1)" by (meson surj_pair)
    have "(r = Inl (ApiError 400 ''bad_code'')) = (q = Inl (ApiError 400 ''bad_code''))"
      "login_guard w' = login_guard w1" "fail_times k w' = fail_times k w1" "ban_ends w' = ban_ends w1"
      using assms(1) 3 q by (auto simp: twofa_disable_def guard_view split: sum.splits)
    then show ?thesis using guard_effect_then [OF guarded_effect [OF q assms(2), of k]] by simp
  qed (simp_all add: same)
qed

lemma api_unban_view:
  "login_guard (api_unban t a k w) = login_guard w" "fail_times k (api_unban t a k w) = []"
  "k' \<noteq> k \<Longrightarrow> fail_times k (api_unban t a k' w) = fail_times k w"
  "k' \<noteq> k \<Longrightarrow> (k, u) \<in> set (ban_ends (api_unban t a k' w)) \<longleftrightarrow> (k, u) \<in> set (ban_ends w)"
  by (auto simp: api_unban_def unban_def Let_def guard_view) (auto simp: ban_ends_def fail_times_def)

text \<open>A run against the address \<open>k\<close>, at times that do not go back: logins, changes of a password and attempts to turn the second
  factor off from any address and with any outcome, unbans, and anything else that leaves the settings of the guard and what
  it knows about \<open>k\<close> alone.  The last argument lists the moments of the failures from \<open>k\<close> whose password or code was really
  checked, the newest first; a successful login from \<open>k\<close> and an unban of \<open>k\<close> start it anew.\<close>

inductive guess_run :: "crypto \<Rightarrow> string \<Rightarrow> world \<Rightarrow> time \<Rightarrow> world \<Rightarrow> time list \<Rightarrow> bool"
  for cr k w0 where
  start: "guess_run cr k w0 t w0 []"
| own: "guess_run cr k w0 t w C \<Longrightarrow> t \<le> t' \<Longrightarrow> login cr t' k body w = (Inl e, w') \<Longrightarrow>
    guess_run cr k w0 t' w' (if counted (Inl e) then t' # C else C)"
| success: "guess_run cr k w0 t w C \<Longrightarrow> t \<le> t' \<Longrightarrow> login cr t' k body w = (Inr tok, w') \<Longrightarrow> guess_run cr k w0 t' w' []"
| other: "guess_run cr k w0 t w C \<Longrightarrow> t \<le> t' \<Longrightarrow> k' \<noteq> k \<Longrightarrow> login cr t' k' body w = (r, w') \<Longrightarrow>
    guess_run cr k w0 t' w' C"
| password: "guess_run cr k w0 t w C \<Longrightarrow> t \<le> t' \<Longrightarrow> change_password cr t' act k' pw u w = (r, w') \<Longrightarrow>
    guess_run cr k w0 t' w' (if k' = k \<and> r = Inl (ApiError 400 ''bad_current'') then t' # C else C)"
| second_factor: "guess_run cr k w0 t w C \<Longrightarrow> t \<le> t' \<Longrightarrow> twofa_disable t' act k' otp u w = (q, w') \<Longrightarrow>
    guess_run cr k w0 t' w' (if k' = k \<and> q = Inl (ApiError 400 ''bad_code'') then t' # C else C)"
| unbanned: "guess_run cr k w0 t w C \<Longrightarrow> t \<le> t' \<Longrightarrow> guess_run cr k w0 t' (api_unban t' admin k' w) (if k' = k then [] else C)"
| beside: "guess_run cr k w0 t w C \<Longrightarrow> t \<le> t' \<Longrightarrow> login_guard w' = login_guard w \<Longrightarrow> fail_times k w' = fail_times k w \<Longrightarrow>
    \<forall>u. (k, u) \<in> set (ban_ends w) \<longrightarrow> (k, u) \<in> set (ban_ends w') \<Longrightarrow> guess_run cr k w0 t' w' C"

lemma load_guard_cong: "login_guard w' = login_guard w \<Longrightarrow> load_guard w' = load_guard w"
  by (simp add: load_guard_def)

lemma load_guard_bounds: "load_guard w = Inr g \<Longrightarrow> 3 \<le> max_failures g \<and> rl_WINDOW \<le> minutes_us (ban_minutes g)"
proof -
  have c: "choice v cs = Some n \<Longrightarrow> n \<in> set cs" for v cs n
    by (auto simp: choice_def find_Some_iff)
  show "load_guard w = Inr g \<Longrightarrow> 3 \<le> max_failures g \<and> rl_WINDOW \<le> minutes_us (ban_minutes g)"
    by (auto simp: load_guard_def Let_def guard0_def rl_WINDOW_def minutes_us_def FAIL_CHOICES_def BAN_CHOICES_def
        split: option.splits py.splits dest!: c)
qed

text \<open>The invariant of such a run.  The counted failures still in the table are the newest of the list and
  fewer than the limit; the newest one that is no longer there is a window old, or the address is banned
  until it will be; and \<open>m + 1\<close> consecutive ones span a window, for the limit \<open>m\<close>.\<close>

definition spread :: "nat \<Rightarrow> time list \<Rightarrow> bool" where
  "spread m C \<longleftrightarrow> (\<forall>i. i + m < length C \<longrightarrow> C ! (i + m) \<le> C ! i - rl_WINDOW)"

definition old_or_banned :: "string \<Rightarrow> time \<Rightarrow> world \<Rightarrow> time list \<Rightarrow> bool" where
  "old_or_banned k t w rest \<longleftrightarrow>
     (case rest of [] \<Rightarrow> True
      | c # _ \<Rightarrow> c \<le> t - rl_WINDOW \<or> (\<exists>u. (k, u) \<in> set (ban_ends w) \<and> t < u \<and> c + rl_WINDOW \<le> u))"

definition guess_inv :: "guard \<Rightarrow> string \<Rightarrow> time \<Rightarrow> world \<Rightarrow> time list \<Rightarrow> bool" where
  "guess_inv g k t w C \<longleftrightarrow>
     load_guard w = Inr g \<and> sorted_wrt (\<ge>) C \<and> (\<forall>c\<in>set C. c \<le> t) \<and>
     int (length (fail_times k w)) < max_failures g \<and>
     (\<exists>rest. C = rev (fail_times k w) @ rest \<and> old_or_banned k t w rest) \<and>
     spread (nat (max_failures g)) C"

lemma filter_sorted_desc:
  "sorted_wrt (\<ge>) xs \<Longrightarrow>
   \<exists>ys. xs = filter (\<lambda>x. \<not> x < (a :: int)) xs @ ys \<and> (\<forall>y\<in>set ys. y < a)"
proof (induction xs)
  case (Cons x xs)
  show ?case
  proof (cases "x < a")
    case True
    then have "filter (\<lambda>x. \<not> x < a) (x # xs) = []" "\<forall>y\<in>set (x # xs). y < a"
      using Cons.prems by (auto simp: filter_empty_conv)
    then show ?thesis by simp
  next
    case False
    with Cons show ?thesis by auto
  qed
qed simp

text \<open>Time passes, and rows a window old are removed.\<close>

lemma guess_inv_age:
  assumes inv: "guess_inv g k t w C" and "t \<le> t'"
    and "login_guard w' = login_guard w"
    and F: "fail_times k w' = fail_times k w \<or> fail_times k w' = filter (\<lambda>x. \<not> x < t' - rl_WINDOW) (fail_times k w)"
    and B: "\<And>u. (k, u) \<in> set (ban_ends w) \<Longrightarrow> t' < u \<Longrightarrow> (k, u) \<in> set (ban_ends w')"
  shows "guess_inv g k t' w' C"
proof -
  obtain rest where C: "C = rev (fail_times k w) @ rest" and old: "old_or_banned k t w rest"
    using inv by (auto simp: guess_inv_def)
  have rest': "old_or_banned k t' w' rest"
    using old B assms(2) by (cases rest) (fastforce simp: old_or_banned_def)+
  have "sorted_wrt (\<ge>) (rev (fail_times k w))" using inv C by (simp add: guess_inv_def sorted_wrt_append)
  from filter_sorted_desc [OF this, of "t' - rl_WINDOW"] obtain ys where
    ys: "rev (fail_times k w) = rev (filter (\<lambda>x. \<not> x < t' - rl_WINDOW) (fail_times k w)) @ ys"
      "\<forall>y\<in>set ys. y < t' - rl_WINDOW" by (auto simp: rev_filter)
  have "old_or_banned k t' w' (ys @ rest)"
    using rest' ys(2) by (cases ys) (auto simp: old_or_banned_def)
  then have "\<exists>rest. C = rev (fail_times k w') @ rest \<and> old_or_banned k t' w' rest"
    using F rest' C ys(1) by (metis append_assoc)
  moreover have "length (fail_times k w') \<le> length (fail_times k w)" using F by (auto simp: length_filter_le)
  ultimately show ?thesis
    using inv assms(2,3) load_guard_cong [of w' w] by (auto simp: guess_inv_def)
qed

lemma spread_Cons:
  assumes "spread m C" "0 < m" "m \<le> length C \<Longrightarrow> C ! (m - 1) \<le> c - rl_WINDOW"
  shows "spread m (c # C)"
  unfolding spread_def
proof (intro allI impI)
  fix i assume i: "i + m < length (c # C)"
  show "(c # C) ! (i + m) \<le> (c # C) ! i - rl_WINDOW"
  proof (cases i)
    case 0
    then show ?thesis using assms i by (cases m) auto
  next
    case (Suc j)
    then show ?thesis using assms(1) i by (auto simp: spread_def)
  qed
qed

lemma guess_inv_fail:
  assumes inv: "guess_inv g k t w C" and "t \<le> t'" and nb: "active_ban t' k w = None"
    and lg: "login_guard w' = login_guard w"
    and F: "fail_times k w' = fail_times k (snd (record_failure g k n t' w))"
    and B: "ban_ends w' = ban_ends (snd (record_failure g k n t' w))"
  shows "guess_inv g k t' w' (t' # C)"
proof -
  have g: "load_guard w = Inr g" using inv by (simp add: guess_inv_def)
  note bounds = load_guard_bounds [OF g]
  let ?D = "filter (\<lambda>x. \<not> x < t' - rl_WINDOW) (fail_times k w)"
  obtain w1 where w1: "fail_times k w1 = ?D" "ban_ends w1 = ban_ends w" "login_guard w1 = login_guard w"
    by (rule that [of "w\<lparr>failures := filter (\<lambda>f. \<not> lf_ts f < t' - rl_WINDOW) (failures w)\<rparr>"])
      (simp_all add: fail_times_def ban_ends_def filter_map o_def conj_commute)
  have inv1: "guess_inv g k t' w1 C"
    using inv assms(2) w1 by (intro guess_inv_age [OF inv]) auto
  then obtain rest where C: "C = rev ?D @ rest" and old: "old_or_banned k t' w1 rest"
    using w1 by (auto simp: guess_inv_def)
  have nb1: "\<forall>u. (k, u) \<in> set (ban_ends w1) \<longrightarrow> u \<le> t'"
    using nb by (simp add: active_ban_None w1)
  have rest_old: "\<forall>c\<in>set rest. c \<le> t' - rl_WINDOW"
  proof (cases rest)
    case (Cons c cs)
    have "sorted_wrt (\<ge>) rest" using inv1 C by (simp add: guess_inv_def sorted_wrt_append)
    then show ?thesis using old nb1 Cons by (auto simp: old_or_banned_def)
  qed simp
  have len: "int (length ?D) < max_failures g" using inv1 w1 by (simp add: guess_inv_def)
  have "spread (nat (max_failures g)) (t' # C)"
  proof (rule spread_Cons)
    show "spread (nat (max_failures g)) C" using inv by (simp add: guess_inv_def)
    assume l: "nat (max_failures g) \<le> length C"
    have i: "length ?D \<le> nat (max_failures g) - 1" using len by linarith
    then have "C ! (nat (max_failures g) - 1) = rest ! (nat (max_failures g) - 1 - length ?D)"
      using C by (simp add: nth_append)
    moreover have "nat (max_failures g) - 1 - length ?D < length rest"
      using l C i bounds by auto
    ultimately show "C ! (nat (max_failures g) - 1) \<le> t' - rl_WINDOW" using rest_old by simp
  qed (use bounds in simp)
  note rf = record_failure_view(4) [OF nb, where g = g and n = n]
  have "(\<exists>rest. t' # C = rev (fail_times k w') @ rest \<and> old_or_banned k t' w' rest) \<and>
      int (length (fail_times k w')) < max_failures g"
  proof (cases "max_failures g \<le> int (length (?D @ [t']))")
    case True
    then obtain u where "fail_times k w' = []" "(k, u) \<in> set (ban_ends w')" "t' + minutes_us (ban_minutes g) \<le> u"
      using rf F B by auto
    moreover have "0 < rl_WINDOW" by (simp add: rl_WINDOW_def)
    ultimately show ?thesis using bounds by (auto simp: old_or_banned_def intro!: exI [of _ u])
  next
    case False
    then have "fail_times k w' = ?D @ [t']" using rf F by simp
    moreover have "old_or_banned k t' w' rest" using rest_old by (cases rest) (auto simp: old_or_banned_def)
    ultimately show ?thesis using C False by auto
  qed
  then show ?thesis
    using \<open>spread (nat (max_failures g)) (t' # C)\<close> inv assms(2) lg load_guard_cong [of w' w]
    by (auto simp: guess_inv_def)
qed

lemma guess_inv_effect:
  assumes "guess_inv g k t w C" "t \<le> t'" "guard_allowed g k = None" "guard_effect g k k' t' b w w'"
  shows "guess_inv g k t' w' (if k' = k \<and> b then t' # C else C)"
proof (cases "b \<and> guard_allowed g k' = None")
  case True
  with assms(4) obtain n where nb: "active_ban t' k' w = None"
    and e: "login_guard w' = login_guard w" "fail_times k w' = fail_times k (snd (record_failure g k' n t' w))"
      "ban_ends w' = ban_ends (snd (record_failure g k' n t' w))"
    unfolding guard_effect_def by auto
  note rf = record_failure_view [OF nb, where g = g and n = n]
  show ?thesis
  proof (cases "k' = k")
    case k: True
    then show ?thesis using guess_inv_fail [OF assms(1,2), of w' n] nb e True by simp
  next
    case False
    then show ?thesis using e rf(2) [of k] rf(3) [of k] True by (auto intro!: guess_inv_age [OF assms(1,2)])
  qed
next
  case False
  then have "login_guard w' = login_guard w" "fail_times k w' = fail_times k w" "ban_ends w' = ban_ends w"
    using assms(4) unfolding guard_effect_def by (auto split: if_splits)
  then have "guess_inv g k t' w' C" by (intro guess_inv_age [OF assms(1,2)]) auto
  then show ?thesis using False assms(3) by auto
qed

lemma guess_inv_anew:
  assumes "load_guard w = Inr g" "fail_times k w = []"
  shows "guess_inv g k t w []"
  using assms load_guard_bounds [OF assms(1)] by (auto simp: guess_inv_def old_or_banned_def spread_def)

lemma guess_run_inv:
  assumes "load_guard w0 = Inr g" "guard_allowed g k = None" "fail_times k w0 = []"
  shows "guess_run cr k w0 t w C \<Longrightarrow> guess_inv g k t w C"
proof (induction rule: guess_run.induct)
  case (start t)
  show ?case by (rule guess_inv_anew [OF assms(1,3)])
next
  case (own t w C t' body e w')
  have "load_guard w = Inr g" using own.IH by (simp add: guess_inv_def)
  from guess_inv_effect [OF own.IH own(2) assms(2) login_effect [OF own(3) this, of k]] show ?case by simp
next
  case (success t w C t' body tok w')
  have "load_guard w = Inr g" using success.IH by (simp add: guess_inv_def)
  then have "load_guard w' = Inr g" unfolding load_guard_cong [OF login_clears(2) [OF success(3)]] .
  then show ?case using login_clears(1) [OF success(3)] by (rule guess_inv_anew)
next
  case (other t w C t' k' body r w')
  have "load_guard w = Inr g" using other.IH by (simp add: guess_inv_def)
  from guess_inv_effect [OF other.IH other(2) assms(2) login_effect [OF other(4) this, of k]] other(3) show ?case by simp
next
  case (password t w C t' act k' pw u r w')
  have "load_guard w = Inr g" using password.IH by (simp add: guess_inv_def)
  from guess_inv_effect [OF password.IH password(2) assms(2) change_password_effect [OF password(3) this, of k]] show ?case .
next
  case (second_factor t w C t' act k' otp u q w')
  have "load_guard w = Inr g" using second_factor.IH by (simp add: guess_inv_def)
  from guess_inv_effect [OF second_factor.IH second_factor(2) assms(2) twofa_disable_effect [OF second_factor(3) this, of k]] show ?case .
next
  case (unbanned t w C t' admin k')
  have lg: "load_guard (api_unban t' admin k' w) = Inr g"
    using unbanned.IH unfolding load_guard_cong [OF api_unban_view(1)] by (simp add: guess_inv_def)
  show ?case
  proof (cases "k' = k")
    case True
    then show ?thesis using guess_inv_anew lg api_unban_view(2) by simp
  next
    case False
    then show ?thesis using api_unban_view(1,3,4) by (auto intro!: guess_inv_age [OF unbanned.IH unbanned(2)])
  qed
next
  case (beside t w C t' w')
  then show ?case by (intro guess_inv_age [OF beside.IH beside(2)]) auto
qed

text \<open>C1. Password guessing is bounded.  As long as the settings of the guard stay as they are, any \<open>max_failures + 1\<close> consecutive
  failures from an address that is not on the white list whose password or code was really checked, at a login, a change of a
  password or the end of a second factor, span at least the window of 15 minutes, however the attempts are timed and whatever
  is done from other addresses; a successful login from the address and an unban of it start the count anew.\<close>

theorem password_guessing_bounded:
  assumes "load_guard w0 = Inr g" "guard_allowed g k = None" "fail_times k w0 = []"
    and "guess_run cr k w0 t w C" "i + nat (max_failures g) < length C"
  shows "rl_WINDOW \<le> C ! i - C ! (i + nat (max_failures g))"
  using guess_run_inv [OF assms(1-4)] assms(5) by (auto simp: guess_inv_def spread_def)


definition crypto0 :: crypto where
  "crypto0 = \<lparr>checkpw = (\<lambda>p h. h = ''h:'' @ p), hashpw = (\<lambda>p. ''h:'' @ p), jwt_encode = (\<lambda>d. py_repr (PDict d)),
     jwt_ttl_minutes = 720\<rparr>"

theorem password_guessing_bounded_witness:
  "\<exists>w C. guess_run crypto0 ''203.0.113.7''
      (world0\<lparr>login_guard := Some (PDict [(''max_failures'', PInt 3), (''ban_minutes'', PInt 15)])\<rparr>) 900000007 w C
    \<and> length C = 4 \<and> rl_WINDOW \<le> C ! 0 - C ! 3"
proof -
  let ?k = "''203.0.113.7''" and ?b = "\<lparr>lg_username = ''root'', lg_password = ''x'', lg_otp = None\<rparr>"
  let ?w0 = "world0\<lparr>login_guard := Some (PDict [(''max_failures'', PInt 3), (''ban_minutes'', PInt 15)])\<rparr>"
  let ?e = "ApiError 401 ''bad_login''"
  let ?w1 = "snd (login crypto0 5 ?k ?b ?w0)"
  let ?w2 = "snd (login crypto0 6 ?k ?b ?w1)"
  let ?w3 = "snd (login crypto0 7 ?k ?b ?w2)"
  let ?w4 = "snd (login crypto0 900000007 ?k ?b ?w3)"
  have "fst (login crypto0 5 ?k ?b ?w0) = Inl ?e" "fst (login crypto0 6 ?k ?b ?w1) = Inl ?e"
    "fst (login crypto0 7 ?k ?b ?w2) = Inl ?e" "fst (login crypto0 900000007 ?k ?b ?w3) = Inl ?e"
    by code_simp+
  then have l: "login crypto0 5 ?k ?b ?w0 = (Inl ?e, ?w1)" "login crypto0 6 ?k ?b ?w1 = (Inl ?e, ?w2)"
    "login crypto0 7 ?k ?b ?w2 = (Inl ?e, ?w3)" "login crypto0 900000007 ?k ?b ?w3 = (Inl ?e, ?w4)"
    by (metis prod.collapse)+
  have "guess_run crypto0 ?k ?w0 5 ?w1 [5]"
    using guess_run.own [OF guess_run.start [of crypto0 ?k ?w0 5] _ l(1)] by simp
  from guess_run.own [OF this _ l(2)] have "guess_run crypto0 ?k ?w0 6 ?w2 [6, 5]" by simp
  from guess_run.own [OF this _ l(3)] have "guess_run crypto0 ?k ?w0 7 ?w3 [7, 6, 5]" by simp
  from guess_run.own [OF this _ l(4)] have r: "guess_run crypto0 ?k ?w0 900000007 ?w4 [900000007, 7, 6, 5]" by simp
  have "load_guard ?w0 = Inr \<lparr>max_failures = 3, ban_minutes = 15, allow = []\<rparr>"
    "guard_allowed \<lparr>max_failures = 3, ban_minutes = 15, allow = []\<rparr> ?k = None" "fail_times ?k ?w0 = []"
    by code_simp+
  from password_guessing_bounded [OF this r, of 0]
  have "rl_WINDOW \<le> [900000007, 7, 6, 5] ! 0 - [900000007, 7, 6, 5 :: time] ! 3" by simp
  moreover have "length [900000007, 7, 6, 5 :: time] = 4" by simp
  ultimately show ?thesis using r by blast
qed

section \<open>One-time codes are used once\<close>

text \<open>The table of accounts is well formed when ids and names are unique.\<close>

definition wf_users :: "user list \<Rightarrow> bool" where
  "wf_users us \<longleftrightarrow> distinct (map u_id us) \<and> distinct (map username us)"

lemma find_user_Some: "find_user n w = Some u \<Longrightarrow> u \<in> set (users w) \<and> username u = n"
  by (auto simp: find_user_def find_Some_iff)

lemma map_replace_user:
  assumes "distinct (map u_id us)" "u \<in> set us" "u_id u' = u_id u"
  shows "map u_id (map (\<lambda>x. if u_id x = u_id u' then u' else x) us) = map u_id us"
    and "username u' = username u \<Longrightarrow> map username (map (\<lambda>x. if u_id x = u_id u' then u' else x) us) = map username us"
proof -
  have "x = u" if "x \<in> set us" "u_id x = u_id u" for x
    using that assms by (metis distinct_map inj_on_eq_iff)
  then show "map u_id (map (\<lambda>x. if u_id x = u_id u' then u' else x) us) = map u_id us"
    "username u' = username u \<Longrightarrow> map username (map (\<lambda>x. if u_id x = u_id u' then u' else x) us) = map username us"
    using assms by auto
qed

lemma wf_users_set_user:
  assumes "wf_users (users w)" "u \<in> set (users w)" "u_id u' = u_id u" "username u' = username u"
  shows "wf_users (users (set_user u' w))"
proof -
  have "map u_id (users (set_user u' w)) = map u_id (users w)"
    "map username (users (set_user u' w)) = map username (users w)"
    using assms map_replace_user [of "users w" u u'] by (simp_all add: wf_users_def set_user_def)
  then show ?thesis using assms(1) by (simp only: wf_users_def)
qed

lemma find_unique: "x \<in> set xs \<Longrightarrow> P x \<Longrightarrow> (\<And>y. y \<in> set xs \<Longrightarrow> P y \<Longrightarrow> y = x) \<Longrightarrow> find P xs = Some x"
  by (metis find_None_iff find_Some_iff nth_mem option.exhaust)

lemma find_user_set_user:
  assumes "wf_users (users w)" "u \<in> set (users w)" "u_id u' = u_id u" "username u' = username u"
  shows "find_user n (set_user u' w) = (if n = username u' then Some u' else find_user n w)"
proof -
  have same: "x = u" if "x \<in> set (users w)" "u_id x = u_id u \<or> username x = username u" for x
    using that assms by (auto simp: wf_users_def distinct_map inj_on_eq_iff)
  show ?thesis
  proof (cases "n = username u'")
    case True
    have "find (\<lambda>x. username x = n) (users (set_user u' w)) = Some u'"
      using assms True same by (intro find_unique) (auto simp: set_user_def image_iff split: if_splits)
    then show ?thesis using True by (simp add: find_user_def)
  next
    case False
    have "find (\<lambda>x. username x = n) (map (\<lambda>x. if u_id x = u_id u' then u' else x) xs) = find (\<lambda>x. username x = n) xs"
      if "set xs \<subseteq> set (users w)" for xs
      using that False same assms by (induction xs) auto
    then show ?thesis using False by (simp add: find_user_def set_user_def)
  qed
qed

lemma users_audit_record [simp]: "users (audit_record t a n ac tg d w) = users w"
  by (simp add: audit_record_def Let_def split: prod.splits)

lemma users_lockout_alert [simp]: "users (lockout_alert b w) = users w"
  by (simp add: lockout_alert_def Let_def)

lemma users_note_blocked [simp]: "users (note_blocked b w) = users w"
  by (simp add: note_blocked_def)

lemma users_forget_failures [simp]: "users (forget_failures k w) = users w"
  by (simp add: forget_failures_def)

lemma users_record_failure [simp]: "users (snd (record_failure g k nm t w)) = users w"
  by (simp add: record_failure_def Let_def count_failure_def)

lemma users_auth_record_failure [simp]: "users (auth_record_failure t a k nm ac g tr w) = users w"
proof -
  obtain b w1 where e: "record_failure g k nm t w = (b, w1)" by fastforce
  then have "users w1 = users w" by (metis users_record_failure snd_conv)
  then show ?thesis by (auto simp: auth_record_failure_def Let_def e split: option.splits)
qed

text \<open>A login changes an account only by moving its last used counter forward to the one that matched.\<close>

lemma login_users:
  assumes "login cr t k body w = (r, w')"
  obtains (same) "users w' = users w"
      "\<And>u x. r = Inr x \<Longrightarrow> find_user (lg_username body) w = Some u \<Longrightarrow> \<not> totp_enabled u"
  | (otp) u c where "find_user (lg_username body) w = Some u" "totp_enabled u"
      "matched_counter 1 (totp_secret u) (otp_given body) t = Inr (Some c)" "totp_last_counter u < c"
      "users w' = users (set_user (u\<lparr>totp_last_counter := c\<rparr>) w)"
      "r = Inr (create_access_token cr t (username u) (token_version u) (u_id u))"
proof -
  have "(users w' = users w \<and> (\<forall>u x. r = Inr x \<longrightarrow> find_user (lg_username body) w = Some u \<longrightarrow> \<not> totp_enabled u)) \<or>
    (\<exists>u c. find_user (lg_username body) w = Some u \<and> totp_enabled u \<and>
      matched_counter 1 (totp_secret u) (otp_given body) t = Inr (Some c) \<and> totp_last_counter u < c \<and>
      users w' = users (set_user (u\<lparr>totp_last_counter := c\<rparr>) w) \<and>
      r = Inr (create_access_token cr t (username u) (token_version u) (u_id u)))"
    using assms unfolding login_def
    by (auto simp: Let_def login_ok_def clear_def not_le split: option.splits if_splits sum.splits prod.splits)
  then show thesis using that by metis
qed

text \<open>Logins of all accounts; the counters with which the account \<open>name\<close> got in, the newest first.\<close>

inductive otp_run :: "crypto \<Rightarrow> string \<Rightarrow> world \<Rightarrow> world \<Rightarrow> int list \<Rightarrow> bool" for cr name w0 where
  otp_start: "otp_run cr name w0 w0 []"
| otp_other: "otp_run cr name w0 w C \<Longrightarrow> login cr t k body w = (r, w') \<Longrightarrow>
    lg_username body \<noteq> name \<or> (\<forall>x. r \<noteq> Inr x) \<Longrightarrow> otp_run cr name w0 w' C"
| otp_in: "otp_run cr name w0 w C \<Longrightarrow> login cr t k body w = (Inr x, w') \<Longrightarrow> lg_username body = name \<Longrightarrow>
    find_user name w = Some u \<Longrightarrow> matched_counter 1 (totp_secret u) (otp_given body) t = Inr (Some c) \<Longrightarrow>
    otp_run cr name w0 w' (c # C)"

lemma otp_run_inv:
  assumes "wf_users (users w0)" "find_user name w0 = Some u0" "totp_enabled u0"
  shows "otp_run cr name w0 w C \<Longrightarrow>
    wf_users (users w) \<and> (\<exists>u. find_user name w = Some u \<and> totp_enabled u \<and> (\<forall>c\<in>set C. c \<le> totp_last_counter u)) \<and>
    sorted_wrt (>) C"
proof (induction rule: otp_run.induct)
  case otp_start
  then show ?case using assms by simp
next
  case (otp_other w C t k body r w')
  from otp_other(2) show ?case
  proof (cases rule: login_users)
    case same
    then show ?thesis using otp_other by (simp add: find_user_def)
  next
    case (otp u c)
    then have u: "u \<in> set (users w)" "username u = lg_username body" by (auto dest: find_user_Some)
    moreover have "lg_username body \<noteq> name" using otp otp_other(3) by auto
    moreover have "find_user name w' = find_user name (set_user (u\<lparr>totp_last_counter := c\<rparr>) w)"
      using otp(5) by (simp add: find_user_def)
    moreover have "wf_users (users w')"
      using wf_users_set_user [of w u "u\<lparr>totp_last_counter := c\<rparr>"] u otp_other(4) otp(5) by simp
    ultimately show ?thesis
      using otp_other(4) find_user_set_user [of w u "u\<lparr>totp_last_counter := c\<rparr>" name] by simp
  qed
next
  case (otp_in w C t k body x w' u c)
  from otp_in(2) show ?case
  proof (cases rule: login_users)
    case same
    then show ?thesis using otp_in by simp
  next
    case (otp u' c')
    then have [simp]: "u' = u" "c' = c" using otp_in by auto
    have u: "u \<in> set (users w)" "username u = name" using otp_in by (auto dest: find_user_Some)
    have "find_user name w' = Some (u\<lparr>totp_last_counter := c\<rparr>)"
      using find_user_set_user [of w u "u\<lparr>totp_last_counter := c\<rparr>" name] u otp otp_in(6) by (simp add: find_user_def)
    moreover have "wf_users (users w')"
      using wf_users_set_user [of w u "u\<lparr>totp_last_counter := c\<rparr>"] u otp_in(6) otp(5) by simp
    ultimately show ?thesis using otp otp_in by (auto simp: le_less_trans less_imp_le)
  qed
qed

text \<open>C34. A one-time code works once.  Over any run of logins, the counters with which an account with the
  second factor got in are strictly increasing, so no 30-second code is accepted twice.\<close>

theorem otp_never_reused:
  assumes "wf_users (users w0)" "find_user name w0 = Some u0" "totp_enabled u0" "otp_run cr name w0 w C"
  shows "sorted_wrt (>) C \<and> distinct C"
proof -
  have "sorted_wrt (>) C" using otp_run_inv [OF assms] by simp
  moreover from this have "distinct C" by (induction C) auto
  ultimately show ?thesis by simp
qed

theorem otp_never_reused_witness:
  "\<exists>w c. otp_run crypto0 ''ann'' (world0\<lparr>users := [\<lparr>u_id = 1, username = ''ann'', password_hash = ''h:pw'', role = ''admin'',
      sections = [], server_groups = [], site_groups = [], can_read_logs = False, totp_secret = ''GEZDGNBV'',
      totp_enabled = True, totp_last_counter = 0, token_version = 0\<rparr>]\<rparr>) w [c] \<and> sorted_wrt (>) [c]"
proof -
  let ?u = "\<lparr>u_id = 1, username = ''ann'', password_hash = ''h:pw'', role = ''admin'',
      sections = [], server_groups = [], site_groups = [], can_read_logs = False, totp_secret = ''GEZDGNBV'',
      totp_enabled = True, totp_last_counter = 0, token_version = 0\<rparr>"
  let ?w = "world0\<lparr>users := [?u]\<rparr>"
  have "b32decode (map upper_chr ''GEZDGNBV'' @ replicate ((8 - length ''GEZDGNBV'' mod 8) mod 8) CHR ''='')
     = Inr [49, 50, 51, 52, 53]" by code_simp
  from matched_counter_complete_ex [OF this, of 300000000]
  obtain code c where m: "matched_counter 1 ''GEZDGNBV'' code 300000000 = Inr (Some c)" by auto
  then have "code \<noteq> []" by (auto simp: matched_counter_def)
  have "300000000 div 30000000 - 1 \<le> c"
    using m by (auto simp: matched_counter_def Let_def split: if_splits dest!: match_loop_Some)
  then have c: "0 < c" by simp
  let ?b = "\<lparr>lg_username = ''ann'', lg_password = ''pw'', lg_otp = Some code\<rparr>"
  have d: "door 300000000 ''203.0.113.7'' ?w = Inr (guard0, False, None)" by code_simp
  obtain tok w' where l: "login crypto0 300000000 ''203.0.113.7'' ?b ?w = (Inr tok, w')"
    using m c \<open>code \<noteq> []\<close> by (simp add: login_def d find_user_def crypto0_def otp_given_def login_ok_def Let_def)
  have "otp_run crypto0 ''ann'' ?w w' [c]"
    using otp_run.otp_in [OF otp_run.otp_start l, of "''ann''" ?u c] m by (simp add: find_user_def otp_given_def)
  moreover from otp_never_reused [OF _ _ _ this, of ?u] have "sorted_wrt (>) [c]"
    by (simp add: wf_users_def find_user_def)
  ultimately show ?thesis by blast
qed

end
