(* ===== verification/Access.thy ===== *)
theory Access
  imports Accounts
begin

text \<open>
  Who may do what: the check every request passes (\<open>deps.get_current_user\<close>, with the tokens of
  \<open>security.py\<close>), the administration of accounts (\<open>api/users.py\<close>), the revocation of deleted names
  (\<open>auth_generations.py\<close>) and the sessions in which an administrator looks at the panel with another
  account's eyes (\<open>impersonate.py\<close>).

  The JWT library is a parameter: \<open>decode now token\<close> is what \<open>jwt.decode\<close> returns, \<open>None\<close> when it raises.
  The key under which the revocations of a name are stored is a function \<open>rk\<close> of the name.
\<close>

section \<open>security.py and deps.py\<close>

definition decode_access_token :: "(time \<Rightarrow> string \<Rightarrow> dict option) \<Rightarrow> time \<Rightarrow> string \<Rightarrow> dict option" where
  "decode_access_token decode now token =
     (case decode now token of
        None \<Rightarrow> None
      | Some p \<Rightarrow> (case dget p ''sub'' of PStr _ \<Rightarrow> Some p | _ \<Rightarrow> None))"

record http_request =
  rq_method :: string
  rq_path :: string
  rq_json :: "py option"

definition WRITE_METHODS :: "string list" where
  "WRITE_METHODS = [''POST'', ''PUT'', ''PATCH'', ''DELETE'']"

definition SELF_SERVICE_PREFIX :: "string list" where
  "SELF_SERVICE_PREFIX = [''/api/auth/'', ''/api/panel-errors/front'', ''/api/panel-errors/report'']"

definition ALLOWED_WRITES :: "string list" where
  "ALLOWED_WRITES = [''/api/panel-errors/front'', ''/api/panel-errors/report'']"

definition starts_any :: "string \<Rightarrow> string list \<Rightarrow> bool" where
  "starts_any s ps = list_ex (startswith s) ps"

definition LOG_ACTIONS :: "string \<Rightarrow> string list" where
  "LOG_ACTIONS kind = (if kind = ''docker'' then [''logs'']
     else if kind = ''kube'' then [''logs'', ''logs_prev'']
     else if kind = ''backup'' then [''unit_journal''] else [])"

text \<open>\<open>/api/servers/\d+/(docker|kube|backup)/command\<close>, the whole path.\<close>

definition log_cmd_kind :: "string \<Rightarrow> string option" where
  "log_cmd_kind path =
     (if \<not> startswith path ''/api/servers/'' then None
      else
        (let r = drop 13 path; digits = takeWhile is_dig r; rest = dropWhile is_dig r
         in if digits = [] then None
            else find (\<lambda>k. rest = ''/'' @ k @ ''/command'') [''docker'', ''kube'', ''backup'']))"

definition viewer_reads_logs :: "http_request \<Rightarrow> user \<Rightarrow> bool answer" where
  "viewer_reads_logs rq u =
     (case log_cmd_kind (rq_path rq) of
        None \<Rightarrow> Inr False
      | Some kind \<Rightarrow>
          if rq_method rq \<noteq> ''POST'' then Inr False
          else (case rq_json rq of
                  Some (PDict body) \<Rightarrow>
                    if \<not> list_ex (\<lambda>a. dget body ''action'' = PStr a) (LOG_ACTIONS kind) then Inr False
                    else if \<not> can_read_logs u then Inl (ApiError 403 ''logs_closed'')
                    else Inr True
                | _ \<Rightarrow> Inr False))"

definition viewer_command_ok :: "user \<Rightarrow> string \<Rightarrow> string \<Rightarrow> unit answer" where
  "viewer_command_ok u kind action =
     (if role u \<in> {''admin'', ''editor''} then Inr ()
      else if action \<notin> set (LOG_ACTIONS kind) then Inl (ApiError 403 ''read_only'')
      else if \<not> can_read_logs u then Inl (ApiError 403 ''logs_closed'')
      else Inr ())"

definition find_imp :: "int \<Rightarrow> world \<Rightarrow> impersonation option" where
  "find_imp i w = find (\<lambda>r. im_id r = i) (impersonations w)"

definition check_impersonation :: "time \<Rightarrow> dict \<Rightarrow> user \<Rightarrow> world \<Rightarrow> acting answer" where
  "check_impersonation now p u w =
     (let unauthorized = Inl (ApiError 401 ''bad_token'');
          admin = (case dget p ''imp'' of PStr a \<Rightarrow> find_user a w | _ \<Rightarrow> None);
          row = (case por (dget p ''imp_id'') (PInt 0) of PInt i \<Rightarrow> find_imp i w | _ \<Rightarrow> None)
      in case (admin, row) of
           (Some a, Some r) \<Rightarrow>
             if role a \<noteq> ''admin''
                \<or> \<not> py_eq (dget p ''uid'') (PInt (u_id u))
                \<or> \<not> py_eq (dget p ''imp_uid'') (PInt (u_id a))
                \<or> \<not> py_eq (dget_or p ''imp_ver'' (PInt 0)) (PInt (token_version a))
                \<or> role u = ''admin''
                \<or> im_ended_at r \<noteq> None
                \<or> im_admin r \<noteq> username a
                \<or> im_target r \<noteq> username u
             then unauthorized
             else if dt_utc (im_expires_at r) \<le> now then unauthorized
             else Inr \<lparr>ac_imp_id = im_id r, ac_admin = username a, ac_target = username u,
                       ac_expires_at = aware (im_expires_at r)\<rparr>
         | _ \<Rightarrow> unauthorized)"

definition ALL_SECTIONS :: "string list" where
  "ALL_SECTIONS = [''sites'', ''servers'', ''docker'', ''kuber'', ''services'', ''backups'']"

definition SECTION_PATHS :: "(string \<times> string list) list" where
  "SECTION_PATHS = [(''/api/checks'', [''sites'']), (''/api/locations'', [''sites'']), (''/api/backup'', [''backups'']),
     (''/api/servers'', [''servers'', ''docker'', ''kuber'', ''services'', ''backups''])]"

definition user_sections :: "user \<Rightarrow> string list" where
  "user_sections u =
     (let xs = filter (\<lambda>x. x \<in> set ALL_SECTIONS) (sections u) in if xs = [] then ALL_SECTIONS else xs)"

definition section_allowed :: "user \<Rightarrow> string \<Rightarrow> bool" where
  "section_allowed u path =
     (if sections u = [] then True
      else case find (\<lambda>(prefix, _). startswith path prefix) SECTION_PATHS of
        Some (_, secs) \<Rightarrow> set (user_sections u) \<inter> set secs \<noteq> {}
      | None \<Rightarrow> True)"

definition group_allowed :: "user \<Rightarrow> string option \<Rightarrow> string \<Rightarrow> bool" where
  "group_allowed u grp kind =
     (let groups = (if kind = ''sites'' then site_groups u else server_groups u)
      in if groups = [] then True
         else (case grp of None \<Rightarrow> [] | Some g \<Rightarrow> g) \<in> set groups)"

text \<open>The account of the request, and who acts for it.\<close>

definition get_current_user ::
  "(time \<Rightarrow> string \<Rightarrow> dict option) \<Rightarrow> time \<Rightarrow> http_request \<Rightarrow> string option \<Rightarrow> world \<Rightarrow> (user \<times> acting option) answer" where
  "get_current_user decode now rq credentials w =
     (let unauthorized = Inl (ApiError 401 ''bad_token'');
          writes = (rq_method rq \<in> set WRITE_METHODS)
      in case credentials of
           None \<Rightarrow> unauthorized
         | Some token \<Rightarrow>
            (case decode_access_token decode now token of
               None \<Rightarrow> unauthorized
             | Some p \<Rightarrow>
                (case find_user (py_str (dget p ''sub'')) w of
                   None \<Rightarrow> unauthorized
                 | Some u \<Rightarrow>
                     if \<not> py_eq (dget_or p ''ver'' (PInt 0)) (PInt (token_version u)) then unauthorized
                     else if dhas p ''uid'' \<and> \<not> py_eq (dget p ''uid'') (PInt (u_id u)) then unauthorized
                     else
                       (case (if dget p ''imp'' \<noteq> PNone
                              then (case check_impersonation now p u w of
                                      Inl e \<Rightarrow> Inl e
                                    | Inr a \<Rightarrow>
                                        if writes \<and> \<not> starts_any (rq_path rq) ALLOWED_WRITES
                                        then Inl (ApiError 403 ''impersonated'') else Inr (Some a))
                              else Inr None) of
                          Inl e \<Rightarrow> Inl e
                        | Inr act \<Rightarrow>
                            (case (if role u \<notin> {''admin'', ''editor''} \<and> writes
                                       \<and> \<not> starts_any (rq_path rq) SELF_SERVICE_PREFIX
                                   then viewer_reads_logs rq u else Inr True) of
                               Inl e \<Rightarrow> Inl e
                             | Inr False \<Rightarrow> Inl (ApiError 403 ''read_only'')
                             | Inr True \<Rightarrow>
                                 if \<not> section_allowed u (rq_path rq) then Inl (ApiError 403 ''section_closed'')
                                 else Inr (u, act))))))"

definition get_admin_user :: "user \<Rightarrow> user answer" where
  "get_admin_user u = (if role u \<noteq> ''admin'' then Inl (ApiError 403 ''admin_only'') else Inr u)"

section \<open>auth_generations.py\<close>

definition version_of :: "string \<Rightarrow> int res" where
  "version_of value = rbind (int_of_str value) (\<lambda>v. if v < 0 then Inl ValueError else Inr v)"

definition initial_version :: "(string \<Rightarrow> string) \<Rightarrow> string \<Rightarrow> world \<Rightarrow> int res" where
  "initial_version rk name w =
     (case map_of (auth_revs w) (rk name) of None \<Rightarrow> Inr 0 | Some v \<Rightarrow> version_of v)"

text \<open>The UPSERT compares the stored text as a number; a text that is not one counts as 0.\<close>

definition stored_version :: "string \<Rightarrow> int" where
  "stored_version v = (case int_of_str v of Inr n \<Rightarrow> n | Inl _ \<Rightarrow> 0)"

definition merge_revocation :: "string \<Rightarrow> string \<Rightarrow> world \<Rightarrow> world res" where
  "merge_revocation key value w =
     rbind (version_of value) (\<lambda>version.
       Inr (w\<lparr>auth_revs := dset key
         (case map_of (auth_revs w) key of
            None \<Rightarrow> show_int version
          | Some old \<Rightarrow> if stored_version old < version then show_int version else old) (auth_revs w)\<rparr>))"

definition retire :: "(string \<Rightarrow> string) \<Rightarrow> user \<Rightarrow> world \<Rightarrow> (bool \<times> world) res" where
  "retire rk u w =
     (case find (\<lambda>x. u_id x = u_id u \<and> username x = username u) (users w) of
        None \<Rightarrow> Inr (False, w)
      | Some x \<Rightarrow>
          (let x' = x\<lparr>token_version := token_version x + 1\<rparr>
           in rbind (merge_revocation (rk (username u)) (show_int (token_version x')) (set_user x' w))
                (\<lambda>w'. Inr (True, w'))))"

section \<open>api/users.py\<close>

record user_create =
  uc_username :: string
  uc_password :: string
  uc_role :: string
  uc_sections :: "string list"
  uc_server_groups :: "string list"
  uc_site_groups :: "string list"
  uc_can_read_logs :: bool

definition create_user ::
  "crypto \<Rightarrow> (string \<Rightarrow> string) \<Rightarrow> time \<Rightarrow> user \<Rightarrow> user_create \<Rightarrow> world \<Rightarrow> user answer \<times> world" where
  "create_user cr rk now admin body w =
     (if find_user (uc_username body) w \<noteq> None then (Inl (ApiError 409 ''exists''), w)
      else case initial_version rk (uc_username body) w of
        Inl e \<Rightarrow> (Inl (Crash e), w)
      | Inr ver \<Rightarrow>
          (let u = \<lparr>u_id = new_id u_id (users w), username = uc_username body,
                    password_hash = hashpw cr (uc_password body), role = uc_role body,
                    sections = uc_sections body, server_groups = uc_server_groups body,
                    site_groups = uc_site_groups body,
                    can_read_logs = (uc_can_read_logs body \<and> uc_role body = ''viewer''),
                    totp_secret = [], totp_enabled = False, totp_last_counter = 0, token_version = ver\<rparr>;
               w1 = audit_record now None (username admin) ''user_create'' (username u) (Text (role u))
                      (w\<lparr>users := users w @ [u]\<rparr>);
               w2 = (if can_read_logs u
                     then audit_record now None (username admin) ''user_logs_on'' (username u) NoDetail w1 else w1)
           in (Inr u, w2)))"

definition get_user :: "int \<Rightarrow> world \<Rightarrow> user option" where
  "get_user i w = find (\<lambda>u. u_id u = i) (users w)"

definition reset_password ::
  "crypto \<Rightarrow> time \<Rightarrow> user \<Rightarrow> int \<Rightarrow> string \<Rightarrow> world \<Rightarrow> unit answer \<times> world" where
  "reset_password cr now admin i pw w =
     (case get_user i w of
        None \<Rightarrow> (Inl (ApiError 404 ''no_user''), w)
      | Some u \<Rightarrow>
          (Inr (), audit_record now None (username admin) ''user_reset_pw'' (username u) NoDetail
             (set_user (u\<lparr>password_hash := hashpw cr pw, token_version := token_version u + 1\<rparr>) w)))"

record user_update =
  uu_role :: "string option"
  uu_sections :: "string list option"
  uu_server_groups :: "string list option"
  uu_site_groups :: "string list option"
  uu_can_read_logs :: "bool option"

definition admin_count :: "world \<Rightarrow> nat" where
  "admin_count w = length (filter (\<lambda>u. role u = ''admin'') (users w))"

definition given :: "'a option \<Rightarrow> 'a \<Rightarrow> 'a" where
  "given v d = (case v of None \<Rightarrow> d | Some x \<Rightarrow> x)"

definition updated_user :: "user_update \<Rightarrow> user \<Rightarrow> user" where
  "updated_user body u =
     (let u1 = u\<lparr>role := given (uu_role body) (role u), sections := given (uu_sections body) (sections u),
                 server_groups := given (uu_server_groups body) (server_groups u),
                 site_groups := given (uu_site_groups body) (site_groups u)\<rparr>;
          logs = ((case uu_can_read_logs body of None \<Rightarrow> can_read_logs u | Some b \<Rightarrow> b) \<and> role u1 = ''viewer'')
      in u1\<lparr>can_read_logs := logs\<rparr>)"

definition update_user :: "time \<Rightarrow> user \<Rightarrow> int \<Rightarrow> user_update \<Rightarrow> world \<Rightarrow> user answer \<times> world" where
  "update_user now admin i body w =
     (case get_user i w of
        None \<Rightarrow> (Inl (ApiError 404 ''no_user''), w)
      | Some u \<Rightarrow>
          if uu_role body \<noteq> None \<and> uu_role body \<noteq> Some (role u) \<and> role u = ''admin'' \<and> admin_count w \<le> 1
          then (Inl (ApiError 400 ''last_admin''), w)
          else
            (let u' = updated_user body u;
                 w1 = audit_record now None (username admin) ''user_scope'' (username u') NoDetail (set_user u' w);
                 w2 = (if can_read_logs u' \<noteq> can_read_logs u
                       then audit_record now None (username admin)
                              (if can_read_logs u' then ''user_logs_on'' else ''user_logs_off'') (username u') NoDetail w1
                       else w1)
             in (Inr u', w2)))"

definition close_named :: "time \<Rightarrow> string \<Rightarrow> world \<Rightarrow> world" where
  "close_named now name w =
     w\<lparr>impersonations := map (\<lambda>r. if (im_admin r = name \<or> im_target r = name) \<and> im_ended_at r = None
        then r\<lparr>im_ended_at := Some (utc now)\<rparr> else r) (impersonations w)\<rparr>"

definition delete_user ::
  "(string \<Rightarrow> string) \<Rightarrow> time \<Rightarrow> user \<Rightarrow> int \<Rightarrow> world \<Rightarrow> unit answer \<times> world" where
  "delete_user rk now admin i w =
     (case get_user i w of
        None \<Rightarrow> (Inl (ApiError 404 ''no_user''), w)
      | Some u \<Rightarrow>
          if u_id u = u_id admin then (Inl (ApiError 400 ''own_account''), w)
          else if role u = ''admin'' \<and> admin_count w \<le> 1 then (Inl (ApiError 400 ''last_admin''), w)
          else (case retire rk u w of
                  Inl e \<Rightarrow> (Inl (Crash e), w)
                | Inr (False, _) \<Rightarrow> (Inl (ApiError 404 ''no_user''), w)
                | Inr (True, w1) \<Rightarrow>
                    (let w2 = close_named now (username u) w1;
                         w3 = w2\<lparr>users := filter (\<lambda>x. u_id x \<noteq> u_id u) (users w2)\<rparr>
                     in (Inr (), audit_record now None (username admin) ''user_delete'' (username u) NoDetail w3))))"

definition close_open :: "time \<Rightarrow> string \<Rightarrow> string \<Rightarrow> world \<Rightarrow> world" where
  "close_open now admin why w =
     (let rows = filter (\<lambda>r. im_admin r = admin \<and> im_ended_at r = None) (impersonations w);
          w1 = w\<lparr>impersonations := map (\<lambda>r. if im_admin r = admin \<and> im_ended_at r = None
                 then r\<lparr>im_ended_at := Some (utc now)\<rparr> else r) (impersonations w)\<rparr>
      in foldl (\<lambda>w r. audit_record now None admin ''impersonate_stop'' (im_target r)
                  (Text (if dt_utc (im_expires_at r) > now then why else ''expired'')) w) w1 rows)"

definition IMP_TTL_MINUTES :: int where
  "IMP_TTL_MINUTES = 60"

definition impersonation_claims :: "time \<Rightarrow> user \<Rightarrow> user \<Rightarrow> int \<Rightarrow> time \<Rightarrow> dict" where
  "impersonation_claims now u admin imp_id expires =
     [(''sub'', PStr (username u)), (''uid'', PInt (u_id u)), (''ver'', PInt (token_version u)),
      (''imp'', PStr (username admin)), (''imp_uid'', PInt (u_id admin)), (''imp_ver'', PInt (token_version admin)),
      (''imp_id'', PInt imp_id), (''iat'', PInt (unix now)), (''exp'', PInt (unix expires))]"

definition impersonate_start ::
  "crypto \<Rightarrow> time \<Rightarrow> string \<Rightarrow> user \<Rightarrow> int \<Rightarrow> world \<Rightarrow> (string \<times> int) answer \<times> world" where
  "impersonate_start cr now key admin i w =
     (case get_user i w of
        None \<Rightarrow> (Inl (ApiError 404 ''no_user''), w)
      | Some u \<Rightarrow>
          if u_id u = u_id admin then (Inl (ApiError 400 ''own_account''), w)
          else if role u = ''admin'' then (Inl (ApiError 400 ''other_admin''), w)
          else
            (let w1 = close_open now (username admin) ''new_session'' w;
                 expires = now + minutes_us IMP_TTL_MINUTES;
                 row = \<lparr>im_id = new_id im_id (impersonations w1), im_admin = username admin, im_target = username u,
                        im_expires_at = utc expires, im_ended_at = None, im_ip = take 64 key\<rparr>;
                 w2 = w1\<lparr>impersonations := impersonations w1 @ [row]\<rparr>;
                 token = jwt_encode cr (impersonation_claims now u admin (im_id row) expires)
             in (Inr (token, im_id row),
                 audit_record now None (username admin) ''impersonate_start'' (username u) (Text key) w2)))"

definition impersonate_stop :: "time \<Rightarrow> user \<Rightarrow> int \<Rightarrow> world \<Rightarrow> unit answer \<times> world" where
  "impersonate_stop now admin i w =
     (case find_imp i w of
        None \<Rightarrow> (Inl (ApiError 404 ''no_session''), w)
      | Some r \<Rightarrow>
          if im_admin r \<noteq> username admin then (Inl (ApiError 404 ''no_session''), w)
          else if im_ended_at r \<noteq> None then (Inr (), w)
          else
            (let expired = (dt_utc (im_expires_at r) \<le> now);
                 ended = (if expired then aware (im_expires_at r) else utc now);
                 w1 = w\<lparr>impersonations := map (\<lambda>x. if im_id x = i then x\<lparr>im_ended_at := Some ended\<rparr> else x) (impersonations w)\<rparr>
             in (Inr (), audit_record now None (username admin) ''impersonate_stop'' (im_target r)
                   (Text (if expired then ''expired'' else ''back'')) w1)))"

section \<open>Account administration as a step relation\<close>

lemma strip_no_space: "list_all (\<lambda>c. \<not> is_space c) s \<Longrightarrow> strip s = s"
proof -
  have d: "list_all (\<lambda>c. \<not> is_space c) t \<Longrightarrow> dropWhile is_space t = t" for t by (cases t) auto
  show "list_all (\<lambda>c. \<not> is_space c) s \<Longrightarrow> strip s = s"
    by (simp add: strip_def strip_chars_def rstrip_chars_def lstrip_chars_def d)
qed

lemma drop_underscores_digits: "list_all is_dig s \<Longrightarrow> drop_underscores s = Some s"
proof -
  have "\<not> is_dig CHR ''_''" by (simp add: is_dig_def chr_between_def)
  then show "list_all is_dig s \<Longrightarrow> drop_underscores s = Some s"
    by (induction s rule: drop_underscores.induct) auto
qed

lemma dig_not_space: "is_dig c \<Longrightarrow> \<not> is_space c \<and> c \<noteq> CHR ''-'' \<and> c \<noteq> CHR ''+''"
  by (auto simp: is_dig_def is_space_def chr_between_def)

lemma int_of_str_show_int [simp]: "int_of_str (show_int n) = Inr n"
proof -
  have pos: "\<exists>c cs. show_pos m = c # cs \<and> c \<noteq> CHR ''-'' \<and> c \<noteq> CHR ''+'' \<and> strip (c # cs) = c # cs
      \<and> strip (CHR ''-'' # c # cs) = CHR ''-'' # c # cs
      \<and> drop_underscores (c # cs) = Some (c # cs) \<and> num (c # cs) = Some m" if m: "0 \<le> m" for m
  proof -
    obtain c cs where c: "show_pos m = c # cs" "list_all is_dig (c # cs)"
      using show_pos_digits [OF m] by (cases "show_pos m") auto
    have "list_all (\<lambda>c. \<not> is_space c) (c # cs)" using c(2) dig_not_space by (auto simp: list_all_iff)
    moreover have "\<not> is_space CHR ''-''" by (simp add: is_space_def chr_between_def)
    ultimately have "strip (c # cs) = c # cs" "strip (CHR ''-'' # c # cs) = CHR ''-'' # c # cs"
      by (simp_all add: strip_no_space)
    then show ?thesis
      using c dig_not_space [of c] drop_underscores_digits [OF c(2)] num_show_pos [OF m] by auto
  qed
  show ?thesis
  proof (cases "n < 0")
    case True
    then show ?thesis using pos [of "- n"] by (auto simp: show_int_def int_of_str_def)
  next
    case False
    then show ?thesis using pos [of n] by (auto simp: show_int_def int_of_str_def)
  qed
qed

text \<open>The operations on accounts.  The account of a request is a row of the table; the one a password
  change works on may be older than the table.\<close>

inductive account_step :: "crypto \<Rightarrow> (string \<Rightarrow> string) \<Rightarrow> world \<Rightarrow> world \<Rightarrow> bool" for cr rk where
  a_login: "login cr t k body w = (r, w') \<Longrightarrow> account_step cr rk w w'"
| a_change: "change_password cr t act k body u w = (r, w') \<Longrightarrow> account_step cr rk w w'"
| a_logout: "u \<in> set (users w) \<Longrightarrow> account_step cr rk w (logout t act u w)"
| a_create: "create_user cr rk t admin body w = (r, w') \<Longrightarrow> account_step cr rk w w'"
| a_reset: "reset_password cr t admin i pw w = (r, w') \<Longrightarrow> account_step cr rk w w'"
| a_update: "update_user t admin i body w = (r, w') \<Longrightarrow> account_step cr rk w w'"
| a_delete: "delete_user rk t admin i w = (r, w') \<Longrightarrow> account_step cr rk w w'"

text \<open>What any of them does to the tables of accounts and revocations.\<close>

definition rev_floor :: "(string \<Rightarrow> string) \<Rightarrow> string \<Rightarrow> world \<Rightarrow> int" where
  "rev_floor rk name w = (case map_of (auth_revs w) (rk name) of None \<Rightarrow> 0 | Some v \<Rightarrow> stored_version v)"

definition modifies :: "world \<Rightarrow> user \<Rightarrow> user \<Rightarrow> world \<Rightarrow> bool" where
  "modifies w u u' w' \<longleftrightarrow> u \<in> set (users w) \<and> u_id u' = u_id u \<and> username u' = username u \<and>
     token_version u \<le> token_version u' \<and> (role u = ''admin'' \<longrightarrow> role u' = ''admin'' \<or> 2 \<le> admin_count w) \<and>
     users w' = users (set_user u' w) \<and> auth_revs w' = auth_revs w"

definition adds :: "(string \<Rightarrow> string) \<Rightarrow> world \<Rightarrow> user \<Rightarrow> world \<Rightarrow> bool" where
  "adds rk w u w' \<longleftrightarrow> find_user (username u) w = None \<and> u_id u = new_id u_id (users w) \<and>
     token_version u = rev_floor rk (username u) w \<and> users w' = users w @ [u] \<and> auth_revs w' = auth_revs w"

definition removes :: "(string \<Rightarrow> string) \<Rightarrow> world \<Rightarrow> user \<Rightarrow> world \<Rightarrow> bool" where
  "removes rk w u w' \<longleftrightarrow> u \<in> set (users w) \<and> (role u = ''admin'' \<longrightarrow> 2 \<le> admin_count w) \<and>
     users w' = filter (\<lambda>x. u_id x \<noteq> u_id u) (users w) \<and>
     (\<forall>n. rev_floor rk n w \<le> rev_floor rk n w') \<and> token_version u < rev_floor rk (username u) w'"

lemma auth_revs_frame [simp]:
  "auth_revs (audit_record t a n ac tg d w) = auth_revs w" "auth_revs (set_user u w) = auth_revs w"
  "auth_revs (close_named t n w) = auth_revs w"
  by (simp_all add: audit_record_def set_user_def close_named_def Let_def split: prod.splits)

lemma auth_revs_note [simp]:
  "auth_revs (note_blocked b w) = auth_revs w" "auth_revs (forget_failures k w) = auth_revs w"
  "auth_revs (lockout_alert b w) = auth_revs w" "auth_revs (snd (record_failure g k nm t w)) = auth_revs w"
  by (simp_all add: note_blocked_def forget_failures_def lockout_alert_def record_failure_def count_failure_def Let_def)

lemma auth_revs_auth_record_failure [simp]: "auth_revs (auth_record_failure t a k nm ac g tr w) = auth_revs w"
proof -
  obtain b w1 where e: "record_failure g k nm t w = (b, w1)" by fastforce
  then have "auth_revs w1 = auth_revs w" by (metis auth_revs_note(4) snd_conv)
  then show ?thesis by (auto simp: auth_record_failure_def Let_def e split: option.splits)
qed

lemma users_close_named [simp]: "users (close_named t n w) = users w"
  by (simp add: close_named_def)

lemma users_guarded: "guarded t a k nm ac ok err w = (r, w') \<Longrightarrow> users w' = users w \<and> auth_revs w' = auth_revs w"
  by (auto simp: guarded_def split: sum.splits prod.splits option.splits if_splits)

lemma auth_revs_login: "login cr t k body w = (r, w') \<Longrightarrow> auth_revs w' = auth_revs w"
  unfolding login_def
  by (auto simp: Let_def login_ok_def clear_def split: option.splits if_splits sum.splits prod.splits)

lemma get_user_Some: "get_user i w = Some u \<Longrightarrow> u \<in> set (users w) \<and> u_id u = i"
  by (auto simp: get_user_def find_Some_iff)

lemma find_SomeD: "find P xs = Some x \<Longrightarrow> x \<in> set xs \<and> P x"
  by (auto simp: find_Some_iff)

lemma admin_count_cong: "users w' = users w \<Longrightarrow> admin_count w' = admin_count w"
  by (simp add: admin_count_def)

lemma login_step: "login cr t k body w = (r, w') \<Longrightarrow>
    (users w' = users w \<and> auth_revs w' = auth_revs w) \<or> (\<exists>u u'. modifies w u u' w')"
proof -
  assume l: "login cr t k body w = (r, w')"
  then show ?thesis
  proof (cases rule: login_users)
    case same
    then show ?thesis using auth_revs_login [OF l] by simp
  next
    case (otp u c)
    then have "modifies w u (u\<lparr>totp_last_counter := c\<rparr>) w'"
      using auth_revs_login [OF l] by (auto simp: modifies_def dest: find_user_Some)
    then show ?thesis by blast
  qed
qed

lemma change_password_step: "change_password cr t act k body u w = (r, w') \<Longrightarrow>
    (users w' = users w \<and> auth_revs w' = auth_revs w) \<or> (\<exists>u u'. modifies w u u' w')"
proof -
  assume c: "change_password cr t act k body u w = (r, w')"
  obtain g w1 where g: "guarded t act k (username u) ''password_fail''
      (checkpw cr (current_password body) (password_hash u)) ''bad_current'' w = (g, w1)" by fastforce
  note w1 = users_guarded [OF g]
  show ?thesis
  proof (cases "users w' = users w \<and> auth_revs w' = auth_revs w")
    case False
    then obtain x where x: "x \<in> set (users w)"
      "users w' = users (set_user (x\<lparr>password_hash := hashpw cr (new_password body), token_version := token_version x + 1\<rparr>) w1)"
      "auth_revs w' = auth_revs w"
      using c w1 by (auto simp: change_password_def g Let_def split: sum.splits option.splits dest!: find_SomeD)
    then have "modifies w x (x\<lparr>password_hash := hashpw cr (new_password body), token_version := token_version x + 1\<rparr>) w'"
      using w1 by (auto simp: modifies_def set_user_def)
    then show ?thesis by blast
  qed simp
qed

lemma logout_step: "u \<in> set (users w) \<Longrightarrow>
    (users (logout t act u w) = users w \<and> auth_revs (logout t act u w) = auth_revs w) \<or>
    (\<exists>v v'. modifies w v v' (logout t act u w))"
proof -
  assume "u \<in> set (users w)"
  then have "modifies w u (u\<lparr>token_version := token_version u + 1\<rparr>) (logout t None u w)"
    by (auto simp: logout_def modifies_def)
  then show ?thesis by (cases act) (auto simp: logout_def)
qed

lemma create_step: "create_user cr rk t admin body w = (r, w') \<Longrightarrow>
    (users w' = users w \<and> auth_revs w' = auth_revs w) \<or> (\<exists>u. adds rk w u w')"
proof -
  assume c: "create_user cr rk t admin body w = (r, w')"
  have iv: "initial_version rk n w = Inr v \<Longrightarrow> v = rev_floor rk n w" for n v
    by (auto simp: initial_version_def rev_floor_def version_of_def stored_version_def rbind_Inr_iff
        split: option.splits if_splits)
  show ?thesis
    using c by (auto simp: create_user_def Let_def adds_def dest!: iv split: if_splits sum.splits)
qed

lemma reset_step: "reset_password cr t admin i pw w = (r, w') \<Longrightarrow>
    (users w' = users w \<and> auth_revs w' = auth_revs w) \<or> (\<exists>u u'. modifies w u u' w')"
proof (cases "get_user i w")
  case (Some u)
  assume "reset_password cr t admin i pw w = (r, w')"
  then have "modifies w u (u\<lparr>password_hash := hashpw cr pw, token_version := token_version u + 1\<rparr>) w'"
    using Some by (auto simp: reset_password_def modifies_def dest: get_user_Some)
  then show ?thesis by blast
qed (auto simp: reset_password_def)

lemma updated_user_same [simp]:
  "u_id (updated_user b u) = u_id u" "username (updated_user b u) = username u"
  "token_version (updated_user b u) = token_version u" "role (updated_user b u) = given (uu_role b) (role u)"
  by (simp_all add: updated_user_def Let_def)

lemma update_step: "update_user t admin i body w = (r, w') \<Longrightarrow>
    (users w' = users w \<and> auth_revs w' = auth_revs w) \<or> (\<exists>u u'. modifies w u u' w')"
proof (cases "get_user i w")
  case (Some u)
  assume "update_user t admin i body w = (r, w')"
  then have "w' = w \<or> modifies w u (updated_user body u) w'"
    using Some get_user_Some [OF Some]
    by (auto simp: update_user_def modifies_def Let_def given_def not_le split: if_splits option.splits)
  then show ?thesis by blast
qed (auto simp: update_user_def)

lemma delete_step:
  assumes "wf_users (users w)" "delete_user rk t admin i w = (r, w')"
  shows "(users w' = users w \<and> auth_revs w' = auth_revs w) \<or> (\<exists>u. removes rk w u w')"
proof (cases "w' = w")
  case False
  then obtain u w1 where u: "get_user i w = Some u" "role u = ''admin'' \<longrightarrow> 2 \<le> admin_count w"
    "retire rk u w = Inr (True, w1)" "users w' = filter (\<lambda>x. u_id x \<noteq> u_id u) (users w1)" "auth_revs w' = auth_revs w1"
    using assms(2) by (auto simp: delete_user_def Let_def split: option.splits if_splits sum.splits bool.splits)
  note gu = get_user_Some [OF u(1)]
  have "find (\<lambda>x. u_id x = u_id u \<and> username x = username u) (users w) = Some u"
    using gu assms(1) by (intro find_unique) (auto simp: wf_users_def distinct_map inj_on_eq_iff)
  then have "merge_revocation (rk (username u)) (show_int (token_version u + 1))
      (set_user (u\<lparr>token_version := token_version u + 1\<rparr>) w) = Inr w1"
    using u(3) by (auto simp: retire_def Let_def rbind_Inr_iff)
  then have w1: "users w1 = users (set_user (u\<lparr>token_version := token_version u + 1\<rparr>) w)"
    "auth_revs w1 = dset (rk (username u))
       (case map_of (auth_revs w) (rk (username u)) of
          None \<Rightarrow> show_int (token_version u + 1)
        | Some old \<Rightarrow> if stored_version old < token_version u + 1 then show_int (token_version u + 1) else old) (auth_revs w)"
    "0 \<le> token_version u + 1"
    by (auto simp: merge_revocation_def version_of_def rbind_Inr_iff split: if_splits)
  have s: "stored_version (show_int n) = n" for n by (simp add: stored_version_def)
  have "rev_floor rk n w \<le> rev_floor rk n w'" for n
    using w1(2,3) by (auto simp: rev_floor_def u(5) update_conv' s split: option.splits)
  moreover have "token_version u < rev_floor rk (username u) w'"
    by (auto simp: rev_floor_def u(5) w1(2) update_conv' s split: option.splits)
  moreover have "users w' = filter (\<lambda>x. u_id x \<noteq> u_id u) (users w)"
  proof -
    have "filter (\<lambda>x. u_id x \<noteq> u_id u) (map (\<lambda>x. if u_id x = u_id u then u\<lparr>token_version := token_version u + 1\<rparr> else x) xs)
        = filter (\<lambda>x. u_id x \<noteq> u_id u) xs" for xs
      by (induction xs) auto
    then show ?thesis by (simp add: u(4) w1(1) set_user_def)
  qed
  ultimately show ?thesis using gu u(2) by (auto simp: removes_def)
qed simp

lemma account_step_cases [consumes 2, case_names keep modify add remove]:
  assumes "account_step cr rk w w'" "wf_users (users w)"
  obtains "users w' = users w" "auth_revs w' = auth_revs w"
  | u u' where "modifies w u u' w'"
  | u where "adds rk w u w'"
  | u where "removes rk w u w'"
proof -
  have "(users w' = users w \<and> auth_revs w' = auth_revs w) \<or> (\<exists>u u'. modifies w u u' w') \<or>
    (\<exists>u. adds rk w u w') \<or> (\<exists>u. removes rk w u w')"
    using assms(1)
  proof cases
    case a_login then show ?thesis using login_step by blast
  next
    case a_change then show ?thesis using change_password_step by blast
  next
    case a_logout then show ?thesis using logout_step by blast
  next
    case a_create then show ?thesis using create_step by blast
  next
    case a_reset then show ?thesis using reset_step by blast
  next
    case a_update then show ?thesis using update_step by blast
  next
    case a_delete then show ?thesis using delete_step [OF assms(2)] by blast
  qed
  then show thesis using that by blast
qed

abbreviation account_run :: "crypto \<Rightarrow> (string \<Rightarrow> string) \<Rightarrow> world \<Rightarrow> world \<Rightarrow> bool" where
  "account_run cr rk \<equiv> (account_step cr rk)\<^sup>*\<^sup>*"

lemma other_admin:
  assumes "wf_users (users w)" "2 \<le> admin_count w"
  shows "\<exists>v\<in>set (users w). role v = ''admin'' \<and> u_id v \<noteq> i"
proof -
  let ?as = "filter (\<lambda>u. role u = ''admin'') (users w)"
  have "distinct (map u_id ?as)" using assms(1) by (simp add: wf_users_def distinct_map_filter)
  moreover have "1 < length ?as" using assms(2) by (simp add: admin_count_def)
  ultimately have "u_id (?as ! 0) \<noteq> u_id (?as ! 1)"
    using nth_eq_iff_index_eq [of "map u_id ?as" 0 1] by (cases ?as) auto
  moreover have "?as ! 0 \<in> set ?as" "?as ! 1 \<in> set ?as"
    using \<open>1 < length ?as\<close> nth_mem [of 0 ?as] nth_mem [of 1 ?as] by linarith+
  ultimately show ?thesis by (cases "u_id (?as ! 0) = i") auto
qed

lemma new_id_fresh: "x \<in> set xs \<Longrightarrow> f x < new_id f xs"
proof -
  have "(a :: int) \<le> foldl max a ys \<and> (\<forall>y\<in>set ys. y \<le> foldl max a ys)" for a ys
  proof (induction ys arbitrary: a)
    case (Cons y ys)
    have "max a y \<le> foldl max (max a y) ys" "\<forall>z\<in>set ys. z \<le> foldl max (max a y) ys"
      using Cons.IH [of "max a y"] by blast+
    then show ?case by simp
  qed simp
  from this [of 0 "map f xs"] show "x \<in> set xs \<Longrightarrow> f x < new_id f xs" by (auto simp: new_id_def)
qed

lemma account_step_wf:
  assumes "account_step cr rk w w'" "wf_users (users w)"
  shows "wf_users (users w')"
  using assms
proof (cases rule: account_step_cases)
  case (modify u u')
  then show ?thesis using wf_users_set_user [OF assms(2), of u u'] by (simp add: modifies_def)
next
  case (add u)
  then have "username x \<noteq> username u" if "x \<in> set (users w)" for x
    using that by (auto simp: adds_def find_user_def find_None_iff)
  then show ?thesis
    using add assms(2) new_id_fresh [of _ "users w" u_id] by (fastforce simp: adds_def wf_users_def)
next
  case (remove u)
  then show ?thesis using assms(2) by (simp add: removes_def wf_users_def distinct_map_filter)
qed (use assms in simp)

lemma set_user_members:
  "x \<in> set (users (set_user u w)) \<Longrightarrow> x = u \<or> x \<in> set (users w)"
  "v \<in> set (users w) \<Longrightarrow> u_id v \<noteq> u_id u \<Longrightarrow> v \<in> set (users (set_user u w))"
  "v \<in> set (users w) \<Longrightarrow> u_id v = u_id u \<Longrightarrow> u \<in> set (users (set_user u w))"
  by (auto simp: set_user_def)

lemma account_step_admin:
  assumes "account_step cr rk w w'" "wf_users (users w)" "\<exists>a\<in>set (users w). role a = ''admin''"
  shows "\<exists>a\<in>set (users w'). role a = ''admin''"
  using assms(1,2)
proof (cases rule: account_step_cases)
  case (modify u u')
  note m = this [unfolded modifies_def]
  show ?thesis
  proof (cases "role u = ''admin'' \<and> role u' \<noteq> ''admin''")
    case True
    then show ?thesis using m other_admin [OF assms(2), of "u_id u"] set_user_members(2) by metis
  next
    case False
    obtain a where a: "a \<in> set (users w)" "role a = ''admin''" using assms(3) by blast
    show ?thesis
    proof (cases "u_id a = u_id u")
      case True
      then have "a = u" using a m assms(2) by (auto simp: wf_users_def distinct_map inj_on_eq_iff)
      then show ?thesis using False a m set_user_members(3) [of u w u'] by auto
    next
      case F: False
      then show ?thesis using a m set_user_members(2) [of a w u'] by auto
    qed
  qed
next
  case (add u)
  then show ?thesis using assms(3) by (auto simp: adds_def)
next
  case (remove u)
  obtain a where a: "a \<in> set (users w)" "role a = ''admin''" using assms(3) by blast
  have "u_id a = u_id u \<Longrightarrow> a = u"
    using a remove assms(2) by (auto simp: removes_def wf_users_def distinct_map inj_on_eq_iff)
  then show ?thesis
    using a remove other_admin [OF assms(2), of "u_id u"] by (cases "u_id a = u_id u") (auto simp: removes_def)
qed (use assms in simp)

text \<open>C4. The panel is never left without an administrator.  Starting from a table of accounts with unique ids
  and names and at least one administrator, every sequence of logins, password changes, logouts, account
  creations, resets, role changes and deletions keeps it so.\<close>

theorem never_without_admin:
  assumes "wf_users (users w0)" "\<exists>a\<in>set (users w0). role a = ''admin''" "account_run cr rk w0 w"
  shows "wf_users (users w) \<and> (\<exists>a\<in>set (users w). role a = ''admin'')"
  using assms(3,1,2)
  by (induction rule: rtranclp_induct) (auto dest: account_step_wf account_step_admin)

definition user0 :: user where
  "user0 = \<lparr>u_id = 1, username = ''root'', password_hash = ''h:pw'', role = ''admin'', sections = [], server_groups = [],
     site_groups = [], can_read_logs = False, totp_secret = [], totp_enabled = False, totp_last_counter = 0, token_version = 0\<rparr>"

theorem never_without_admin_witness:
  "\<exists>a\<in>set (users (snd (update_user 0 user0 1 \<lparr>uu_role = Some ''viewer'', uu_sections = None, uu_server_groups = None,
      uu_site_groups = None, uu_can_read_logs = None\<rparr> (world0\<lparr>users := [user0]\<rparr>)))). role a = ''admin''"
proof -
  let ?b = "\<lparr>uu_role = Some ''viewer'', uu_sections = None, uu_server_groups = None,
      uu_site_groups = None, uu_can_read_logs = None\<rparr>" and ?w = "world0\<lparr>users := [user0]\<rparr>"
  have "account_step crypto0 (\<lambda>n. n) ?w (snd (update_user 0 user0 1 ?b ?w))"
    by (rule account_step.a_update [OF prod.collapse [symmetric]])
  then have r: "account_run crypto0 (\<lambda>n. n) ?w (snd (update_user 0 user0 1 ?b ?w))" by (rule r_into_rtranclp)
  have "wf_users (users ?w)" "\<exists>a\<in>set (users ?w). role a = ''admin''"
    by (simp_all add: wf_users_def user0_def)
  from never_without_admin [OF this r] show ?thesis by blast
qed

section \<open>Revocation of tokens\<close>

text \<open>All versions up to \<open>n\<close> of the tokens of a name are dead, now and later.\<close>

definition revoked :: "(string \<Rightarrow> string) \<Rightarrow> string \<Rightarrow> int \<Rightarrow> world \<Rightarrow> bool" where
  "revoked rk name n w \<longleftrightarrow>
     (\<forall>x\<in>set (users w). username x = name \<longrightarrow> n < token_version x) \<and>
     (n < rev_floor rk name w \<or> (\<exists>x\<in>set (users w). username x = name))"

lemma account_step_revoked:
  assumes "account_step cr rk w w'" "wf_users (users w)" "revoked rk name n w"
  shows "revoked rk name n w'"
  using assms(1,2)
proof (cases rule: account_step_cases)
  case keep
  then show ?thesis using assms(3) by (simp add: revoked_def rev_floor_def)
next
  case (modify u u')
  note m = this [unfolded modifies_def]
  have "n < token_version x" if "x \<in> set (users w')" "username x = name" for x
  proof (cases "x = u'")
    case True
    then have "n < token_version u" using that m assms(3) by (simp add: revoked_def)
    then show ?thesis using True m by simp
  next
    case False
    then show ?thesis using that m assms(3) set_user_members(1) [of x u' w] by (simp add: revoked_def)
  qed
  moreover have "\<exists>x\<in>set (users w'). username x = name" if "y \<in> set (users w)" "username y = name" for y
  proof (cases "u_id y = u_id u")
    case True
    then have "y = u" using that m assms(2) by (auto simp: wf_users_def distinct_map inj_on_eq_iff)
    then show ?thesis using that m set_user_members(3) [of y w u'] by auto
  next
    case False
    then show ?thesis using that m set_user_members(2) [of y w u'] by auto
  qed
  moreover have "rev_floor rk name w' = rev_floor rk name w" using m by (simp add: rev_floor_def)
  ultimately show ?thesis using assms(3) by (auto simp: revoked_def)
next
  case (add u)
  then have "rev_floor rk name w' = rev_floor rk name w" by (simp add: rev_floor_def adds_def)
  moreover have "\<not> (\<exists>x\<in>set (users w). username x = username u)"
    using add by (auto simp: adds_def find_user_def find_None_iff)
  ultimately show ?thesis using add assms(3) by (auto simp: revoked_def adds_def)
next
  case (remove u)
  have "n < rev_floor rk name w'" if "\<not> (\<exists>x\<in>set (users w'). username x = name)"
  proof (cases "n < rev_floor rk name w")
    case True
    then show ?thesis using remove by (auto simp: removes_def intro: less_le_trans)
  next
    case False
    then obtain x where x: "x \<in> set (users w)" "username x = name" "n < token_version x"
      using assms(3) by (auto simp: revoked_def)
    then have "u_id x = u_id u" using that remove by (auto simp: removes_def)
    then have "x = u" using x remove assms(2) by (auto simp: removes_def wf_users_def distinct_map inj_on_eq_iff)
    then show ?thesis using x remove by (auto simp: removes_def)
  qed
  then show ?thesis using remove assms(3) by (auto simp: revoked_def removes_def)
qed

lemma account_run_revoked:
  assumes "account_run cr rk w w'" "wf_users (users w)" "revoked rk name n w"
  shows "wf_users (users w') \<and> revoked rk name n w'"
  using assms by (induction rule: rtranclp_induct) (auto dest: account_step_wf account_step_revoked)

lemma revoked_token_rejected:
  assumes "revoked rk name n w" "v \<le> n"
    and "decode now tok = Some p" "dget p ''sub'' = PStr name" "dget_or p ''ver'' (PInt 0) = PInt v"
  shows "get_current_user decode now rq (Some tok) w = Inl (ApiError 401 ''bad_token'')"
proof -
  have "v \<noteq> token_version x" if "find_user name w = Some x" for x
    using assms(1,2) find_user_Some [OF that] by (auto simp: revoked_def)
  then show ?thesis
    using assms(3-5)
    by (cases "find_user name w") (simp_all add: get_current_user_def decode_access_token_def Let_def)
qed


lemma delete_user_revokes:
  assumes "wf_users (users w)" "get_user i w = Some u" "delete_user rk t admin i w = (Inr (), w1)"
  shows "wf_users (users w1) \<and> revoked rk (username u) (token_version u) w1"
proof -
  have s: "account_step crypto0 rk w w1" by (rule account_step.a_delete [OF assms(3)])
  have neq: "users w1 \<noteq> users w"
  proof -
    have "u \<notin> set (users w1)"
      using assms(2,3) by (auto simp: delete_user_def Let_def split: if_splits sum.splits bool.splits)
    then show ?thesis using get_user_Some [OF assms(2)] by auto
  qed
  from delete_step [OF assms(1,3)] neq obtain v where r: "removes rk w v w1" by blast
  have "v = u"
  proof (rule ccontr)
    assume "v \<noteq> u"
    then have "u_id u \<noteq> u_id v"
      using r get_user_Some [OF assms(2)] assms(1) by (auto simp: removes_def wf_users_def distinct_map inj_on_eq_iff)
    then have "u \<in> set (users w1)" using r get_user_Some [OF assms(2)] by (simp add: removes_def)
    then show False
      using assms(2,3) by (auto simp: delete_user_def Let_def split: if_splits sum.splits bool.splits)
  qed
  moreover have "username x \<noteq> username u" if "x \<in> set (users w)" "u_id x \<noteq> u_id u" for x
    using that get_user_Some [OF assms(2)] assms(1) by (auto simp: wf_users_def distinct_map inj_on_eq_iff)
  ultimately show ?thesis
    using r account_step_wf [OF s assms(1)] by (auto simp: revoked_def removes_def)
qed

text \<open>C3. Deleting an account kills its tokens for good.  Even when the name is registered again, and even if
  the new account gets the same id, no token of a version the deleted account ever had is accepted.\<close>

theorem deleted_account_tokens_stay_dead:
  assumes "wf_users (users w)" "get_user i w = Some u" "delete_user rk t admin i w = (Inr (), w1)"
    and "account_run cr rk w1 w2"
    and "decode now tok = Some p" "dget p ''sub'' = PStr (username u)" "dget_or p ''ver'' (PInt 0) = PInt v"
    and "v \<le> token_version u"
  shows "get_current_user decode now rq (Some tok) w2 = Inl (ApiError 401 ''bad_token'')"
  using delete_user_revokes [OF assms(1-3)] account_run_revoked [OF assms(4)] assms(5-8)
  by (blast intro: revoked_token_rejected)

theorem deleted_account_tokens_stay_dead_witness:
  "get_current_user (\<lambda>_ _. Some [(''sub'', PStr ''ann''), (''ver'', PInt 4), (''uid'', PInt 2)]) 9
     \<lparr>rq_method = ''GET'', rq_path = ''/api/servers'', rq_json = None\<rparr> (Some ''tok'')
     (snd (create_user crypto0 (\<lambda>n. n) 8 user0 \<lparr>uc_username = ''ann'', uc_password = ''new'', uc_role = ''viewer'',
        uc_sections = [], uc_server_groups = [], uc_site_groups = [], uc_can_read_logs = False\<rparr>
        (snd (delete_user (\<lambda>n. n) 7 user0 2
           (world0\<lparr>users := [user0, user0\<lparr>u_id := 2, username := ''ann'', role := ''viewer'', token_version := 4\<rparr>]\<rparr>)))))
   = Inl (ApiError 401 ''bad_token'')"
proof -
  let ?u = "user0\<lparr>u_id := 2, username := ''ann'', role := ''viewer'', token_version := 4\<rparr>"
  let ?w = "world0\<lparr>users := [user0, ?u]\<rparr>"
  have d: "delete_user (\<lambda>n. n) 7 user0 2 ?w = (Inr (), snd (delete_user (\<lambda>n. n) 7 user0 2 ?w))"
    by code_simp
  have wf: "wf_users (users ?w)" and g: "get_user 2 ?w = Some ?u"
    by (simp_all add: wf_users_def user0_def get_user_def)
  let ?w1 = "snd (delete_user (\<lambda>n. n) 7 user0 2 ?w)"
  let ?b = "\<lparr>uc_username = ''ann'', uc_password = ''new'', uc_role = ''viewer'',
        uc_sections = [], uc_server_groups = [], uc_site_groups = [], uc_can_read_logs = False\<rparr>"
  have "account_step crypto0 (\<lambda>n. n) ?w1 (snd (create_user crypto0 (\<lambda>n. n) 8 user0 ?b ?w1))"
    by (rule account_step.a_create [OF prod.collapse [symmetric]])
  then have r: "account_run crypto0 (\<lambda>n. n) ?w1 (snd (create_user crypto0 (\<lambda>n. n) 8 user0 ?b ?w1))"
    by (rule r_into_rtranclp)
  show ?thesis
    by (rule deleted_account_tokens_stay_dead [OF wf g d r,
          where v = 4 and p = "[(''sub'', PStr ''ann''), (''ver'', PInt 4), (''uid'', PInt 2)]"])
      (simp_all add: dget_or_def user0_def)
qed

text \<open>C35. Changing the password ends every session of the account: after the change, and after anything that
  happens later, no token of the version the account had before is accepted.\<close>

theorem password_change_ends_sessions:
  assumes "wf_users (users w)" "u \<in> set (users w)" "change_password cr t act key body u w = (Inr tok', w1)"
    and "account_run cr rk w1 w2"
    and "decode now tok = Some p" "dget p ''sub'' = PStr (username u)" "dget_or p ''ver'' (PInt 0) = PInt v"
    and "v \<le> token_version u"
  shows "get_current_user decode now rq (Some tok) w2 = Inl (ApiError 401 ''bad_token'')"
proof -
  obtain g w' where g: "guarded t act key (username u) ''password_fail''
      (checkpw cr (current_password body) (password_hash u)) ''bad_current'' w = (g, w')" by fastforce
  note w' = users_guarded [OF g]
  have f: "find (\<lambda>x. u_id x = u_id u \<and> username x = username u \<and> token_version x = token_version u) (users w) = Some u"
    using assms(1,2) by (intro find_unique) (auto simp: wf_users_def distinct_map inj_on_eq_iff)
  let ?u' = "u\<lparr>password_hash := hashpw cr (new_password body), token_version := token_version u + 1\<rparr>"
  have us: "users w1 = users (set_user ?u' w)"
    using assms(3) f w' by (auto simp: change_password_def g Let_def set_user_def split: sum.splits)
  have "?u' \<in> set (users w1)" using us set_user_members(3) [OF assms(2), of ?u'] by simp
  moreover have "token_version u < token_version x" if "x \<in> set (users w1)" "username x = username u" for x
  proof -
    have "wf_users (users w1)" using wf_users_set_user [OF assms(1,2), of ?u'] us by simp
    then have "inj_on username (set (users w1))" by (simp add: wf_users_def distinct_map)
    then have "x = ?u'" using that \<open>?u' \<in> set (users w1)\<close> by (auto dest: inj_onD [of _ _ x ?u'])
    then show ?thesis by simp
  qed
  ultimately have "revoked rk (username u) (token_version u) w1"
    by (auto simp: revoked_def intro!: bexI [of _ ?u'])
  moreover have "wf_users (users w1)" using wf_users_set_user [OF assms(1,2), of ?u'] us by simp
  ultimately show ?thesis
    using account_run_revoked [OF assms(4)] assms(5-8) by (blast intro: revoked_token_rejected)
qed

theorem password_change_ends_sessions_witness:
  "get_current_user (\<lambda>_ _. Some [(''sub'', PStr ''root''), (''ver'', PInt 0)]) 9
     \<lparr>rq_method = ''GET'', rq_path = ''/api/servers'', rq_json = None\<rparr> (Some ''tok'')
     (snd (change_password crypto0 5 None ''203.0.113.7'' \<lparr>current_password = ''pw'', new_password = ''other''\<rparr> user0
        (world0\<lparr>users := [user0]\<rparr>)))
   = Inl (ApiError 401 ''bad_token'')"
proof -
  let ?c = "change_password crypto0 5 None ''203.0.113.7'' \<lparr>current_password = ''pw'', new_password = ''other''\<rparr> user0
        (world0\<lparr>users := [user0]\<rparr>)"
  have "\<not> isl (fst ?c)" by code_simp
  then obtain tk where "?c = (Inr tk, snd ?c)" by (metis prod.collapse sum.collapse(2))
  from password_change_ends_sessions [OF _ _ this rtranclp.rtrancl_refl, of "\<lambda>_ _. Some [(''sub'', PStr ''root''), (''ver'', PInt 0)]"]
  show ?thesis by (simp add: dget_or_def user0_def wf_users_def)
qed

section \<open>What the gate of every request lets through\<close>

lemma get_current_userE:
  assumes "get_current_user decode now rq cred w = Inr (u, act)"
  obtains tok p where "cred = Some tok" "decode now tok = Some p" "find_user (py_str (dget p ''sub'')) w = Some u"
    "py_eq (dget_or p ''ver'' (PInt 0)) (PInt (token_version u))"
    "dget p ''imp'' = PNone \<Longrightarrow> act = None"
    "dget p ''imp'' \<noteq> PNone \<Longrightarrow> \<exists>a. act = Some a \<and> check_impersonation now p u w = Inr a \<and>
       (rq_method rq \<in> set WRITE_METHODS \<longrightarrow> starts_any (rq_path rq) ALLOWED_WRITES)"
    "role u \<notin> {''admin'', ''editor''} \<Longrightarrow> rq_method rq \<in> set WRITE_METHODS \<Longrightarrow>
       starts_any (rq_path rq) SELF_SERVICE_PREFIX \<or> viewer_reads_logs rq u = Inr True"
    "section_allowed u (rq_path rq)"
proof -
  obtain tok where tok: "cred = Some tok" using assms by (cases cred) (auto simp: get_current_user_def Let_def)
  obtain p where p: "decode_access_token decode now tok = Some p"
    using assms tok by (cases "decode_access_token decode now tok") (auto simp: get_current_user_def Let_def)
  then have dec: "decode now tok = Some p"
    by (auto simp: decode_access_token_def split: option.splits py.splits)
  obtain v where v: "find_user (py_str (dget p ''sub'')) w = Some v"
    using assms tok p by (cases "find_user (py_str (dget p ''sub'')) w") (auto simp: get_current_user_def Let_def)
  define imp where "imp = (if dget p ''imp'' \<noteq> PNone
      then (case check_impersonation now p v w of
              Inl e \<Rightarrow> Inl e
            | Inr a \<Rightarrow> if rq_method rq \<in> set WRITE_METHODS \<and> \<not> starts_any (rq_path rq) ALLOWED_WRITES
                then Inl (ApiError 403 ''impersonated'') else Inr (Some a))
      else Inr None)"
  define vw where "vw = (if role v \<notin> {''admin'', ''editor''} \<and> rq_method rq \<in> set WRITE_METHODS
      \<and> \<not> starts_any (rq_path rq) SELF_SERVICE_PREFIX then viewer_reads_logs rq v else Inr True)"
  have "py_eq (dget_or p ''ver'' (PInt 0)) (PInt (token_version v)) \<and> v = u \<and> imp = Inr act \<and> vw = Inr True \<and>
      section_allowed v (rq_path rq)"
    using assms unfolding get_current_user_def Let_def tok p option.case v imp_def [symmetric] vw_def [symmetric]
    by (auto split: if_splits sum.splits bool.splits)
  then show thesis
    using tok dec v that [of tok p] by (auto simp: imp_def vw_def split: if_splits sum.splits)
qed

text \<open>C36. An account that may only look changes nothing.  A request of such an account that passes the gate with
  a modifying method goes to the account's own settings or the error journal, or is the reading of logs the
  administrator has opened to it.\<close>

theorem viewer_changes_nothing:
  assumes "get_current_user decode now rq cred w = Inr (u, act)"
    and "role u \<noteq> ''admin''" "role u \<noteq> ''editor''" "rq_method rq \<in> set WRITE_METHODS"
  shows "starts_any (rq_path rq) SELF_SERVICE_PREFIX \<or>
    (rq_method rq = ''POST'' \<and> can_read_logs u \<and>
      (\<exists>kind body a. log_cmd_kind (rq_path rq) = Some kind \<and> rq_json rq = Some (PDict body) \<and>
         dget body ''action'' = PStr a \<and> a \<in> set (LOG_ACTIONS kind)))"
proof -
  have "viewer_reads_logs rq u = Inr True" if "\<not> starts_any (rq_path rq) SELF_SERVICE_PREFIX"
    using assms that by (elim get_current_userE) auto
  then show ?thesis
    by (auto simp: viewer_reads_logs_def list_ex_iff split: option.splits if_splits py.splits)
qed

theorem viewer_changes_nothing_witness:
  "can_read_logs (user0\<lparr>role := ''viewer'', can_read_logs := True\<rparr>)"
proof -
  let ?rq = "\<lparr>rq_method = ''POST'', rq_path = ''/api/servers/12/kube/command'', rq_json = Some (PDict [(''action'', PStr ''logs_prev'')])\<rparr>"
  let ?u = "user0\<lparr>role := ''viewer'', can_read_logs := True\<rparr>"
  have g: "get_current_user (\<lambda>_ _. Some [(''sub'', PStr ''root''), (''ver'', PInt 0)]) 5 ?rq (Some ''t'') (world0\<lparr>users := [?u]\<rparr>)
      = Inr (?u, None)" by code_simp
  have "role ?u \<noteq> ''admin''" "role ?u \<noteq> ''editor''" "rq_method ?rq \<in> set WRITE_METHODS"
    "\<not> starts_any (rq_path ?rq) SELF_SERVICE_PREFIX" by code_simp+
  with viewer_changes_nothing [OF g] show ?thesis by blast
qed

text \<open>C37. Looking with another account's eyes is looking only.  A request with such a token passes only while both accounts
  are those the token was issued for, by name, id and version (so neither has changed its password or was made anew), the
  administrator is still one, the other account is none, and the session row is theirs, neither closed nor expired; and a
  modifying request goes to the error journal only.\<close>

theorem impersonation_is_read_only:
  assumes "get_current_user decode now rq cred w = Inr (u, Some a)"
  shows "(rq_method rq \<in> set WRITE_METHODS \<longrightarrow> starts_any (rq_path rq) ALLOWED_WRITES) \<and> role u \<noteq> ''admin'' \<and>
    (\<exists>tok p adm r. cred = Some tok \<and> decode now tok = Some p \<and>
       find_user (py_str (dget p ''sub'')) w = Some u \<and> py_eq (dget p ''uid'') (PInt (u_id u)) \<and>
       py_eq (dget_or p ''ver'' (PInt 0)) (PInt (token_version u)) \<and>
       dget p ''imp'' = PStr (ac_admin a) \<and> find_user (ac_admin a) w = Some adm \<and> role adm = ''admin'' \<and>
       py_eq (dget p ''imp_uid'') (PInt (u_id adm)) \<and> py_eq (dget_or p ''imp_ver'' (PInt 0)) (PInt (token_version adm)) \<and>
       por (dget p ''imp_id'') (PInt 0) = PInt (ac_imp_id a) \<and> find_imp (ac_imp_id a) w = Some r \<and>
       im_ended_at r = None \<and> now < dt_utc (im_expires_at r) \<and> im_admin r = username adm \<and> im_target r = username u)"
proof -
  obtain tok p where p: "cred = Some tok" "decode now tok = Some p" "find_user (py_str (dget p ''sub'')) w = Some u"
      "py_eq (dget_or p ''ver'' (PInt 0)) (PInt (token_version u))"
    and c: "check_impersonation now p u w = Inr a"
    and rd: "rq_method rq \<in> set WRITE_METHODS \<longrightarrow> starts_any (rq_path rq) ALLOWED_WRITES"
    using assms by (elim get_current_userE) (metis option.inject option.distinct(1))
  obtain adm r an i where adm: "dget p ''imp'' = PStr an" "por (dget p ''imp_id'') (PInt 0) = PInt i"
      "find_user an w = Some adm" "find_imp i w = Some r"
    and a: "a = \<lparr>ac_imp_id = im_id r, ac_admin = username adm, ac_target = username u, ac_expires_at = aware (im_expires_at r)\<rparr>"
    and k: "role adm = ''admin''" "py_eq (dget p ''uid'') (PInt (u_id u))" "py_eq (dget p ''imp_uid'') (PInt (u_id adm))"
      "py_eq (dget_or p ''imp_ver'' (PInt 0)) (PInt (token_version adm))" "role u \<noteq> ''admin''" "im_ended_at r = None"
      "im_admin r = username adm" "im_target r = username u" "now < dt_utc (im_expires_at r)"
    using c by (auto simp: check_impersonation_def Let_def not_le split: py.splits option.splits if_splits)
  have "username adm = an" "im_id r = i"
    using adm(3,4) by (auto simp: find_imp_def dest: find_user_Some find_SomeD)
  then show ?thesis using p rd adm k by (auto simp: a)
qed

theorem impersonation_is_read_only_witness:
  "role (user0\<lparr>u_id := 2, username := ''ann'', role := ''viewer''\<rparr>) \<noteq> ''admin''"
proof -
  let ?v = "user0\<lparr>u_id := 2, username := ''ann'', role := ''viewer''\<rparr>"
  let ?w = "snd (impersonate_start crypto0 5 ''203.0.113.7'' user0 2 (world0\<lparr>users := [user0, ?v]\<rparr>))"
  have "get_current_user (\<lambda>_ _. Some (impersonation_claims 5 ?v user0 1 3600000005)) 6
      \<lparr>rq_method = ''GET'', rq_path = ''/api/servers'', rq_json = None\<rparr> (Some ''t'') ?w
    = Inr (?v, Some \<lparr>ac_imp_id = 1, ac_admin = ''root'', ac_target = ''ann'', ac_expires_at = utc 3600000005\<rparr>)"
    by code_simp
  from impersonation_is_read_only [OF this] show ?thesis by blast
qed

text \<open>Going back to oneself closes the session at once: after the stop no request is accepted as one of
  this session.\<close>

theorem impersonate_stop_closes:
  assumes "distinct (map im_id (impersonations w))" "find_imp i w = Some r" "im_admin r = username admin"
    and "impersonate_stop t admin i w = (res, w')"
  shows "res = Inr () \<and> get_current_user decode now rq cred w' \<noteq> Inr (u, Some \<lparr>ac_imp_id = i, ac_admin = x, ac_target = y, ac_expires_at = z\<rparr>)"
proof -
  have ended: "im_ended_at q \<noteq> None" if "find_imp i w' = Some q" for q
  proof (cases "im_ended_at r")
    case None
    then have "\<exists>e. impersonations w' = map (\<lambda>x. if im_id x = i then x\<lparr>im_ended_at := Some e\<rparr> else x) (impersonations w)"
      using assms(2-4) by (intro exI [of _ "if dt_utc (im_expires_at r) \<le> t then aware (im_expires_at r) else utc t"])
        (auto simp: impersonate_stop_def Let_def audit_record_def)
    then obtain e where im: "impersonations w' = map (\<lambda>x. if im_id x = i then x\<lparr>im_ended_at := Some e\<rparr> else x) (impersonations w)"
      by blast
    note q = find_SomeD [OF that [unfolded find_imp_def]]
    then have "q \<in> (\<lambda>x. if im_id x = i then x\<lparr>im_ended_at := Some e\<rparr> else x) ` set (impersonations w)"
      unfolding im set_map by (rule conjunct1)
    then obtain y where y: "q = (if im_id y = i then y\<lparr>im_ended_at := Some e\<rparr> else y)"
      by (rule imageE)
    show ?thesis
    proof (cases "im_id y = i")
      case True
      then show ?thesis using y by simp
    next
      case False
      then show ?thesis using y q by simp
    qed
  next
    case (Some e)
    then have "w' = w" using assms(2-4) by (simp add: impersonate_stop_def)
    then show ?thesis using that Some assms(2) by simp
  qed
  have "res = Inr ()" using assms(2-4) by (auto simp: impersonate_stop_def Let_def split: if_splits)
  moreover have False
    if g: "get_current_user decode now rq cred w' = Inr (u, Some \<lparr>ac_imp_id = i, ac_admin = x, ac_target = y, ac_expires_at = z\<rparr>)"
  proof -
    obtain p where "check_impersonation now p u w' = Inr \<lparr>ac_imp_id = i, ac_admin = x, ac_target = y, ac_expires_at = z\<rparr>"
      using g by (elim get_current_userE) (metis option.inject option.distinct(1))
    then obtain q j where "find_imp j w' = Some q" "im_id q = i" "im_ended_at q = None"
      by (auto simp: check_impersonation_def Let_def split: py.splits option.splits if_splits)
    moreover from this have "j = i" by (auto simp: find_imp_def dest: find_SomeD)
    ultimately show False using ended by auto
  qed
  ultimately show ?thesis by blast
qed

theorem impersonate_stop_closes_witness:
  "fst (impersonate_stop 9 user0 1 (world0\<lparr>impersonations := [\<lparr>im_id = 1, im_admin = ''root'', im_target = ''ann'',
      im_expires_at = utc 100, im_ended_at = None, im_ip = []\<rparr>]\<rparr>)) = Inr ()"
  using impersonate_stop_closes [of "world0\<lparr>impersonations := [\<lparr>im_id = 1, im_admin = ''root'', im_target = ''ann'',
      im_expires_at = utc 100, im_ended_at = None, im_ip = []\<rparr>]\<rparr>" 1 _ user0, OF _ _ _ prod.collapse [symmetric]]
  by (simp add: find_imp_def user0_def)

end
