(* ===== verification/Expiry.thy ===== *)
theory Expiry
  imports Check_Rows Access
begin

text \<open>
  The terms of a site, of its certificate and of the registration of its domain: reminders by thresholds
  (\<open>collector._expiry_bucket\<close>, \<open>collector.DomainAlerts\<close>, \<open>collector._apply_expiry\<close>) and the terms a
  person put off (\<open>expiry_snooze.py\<close>, \<open>api/checks.expiry_snooze_check\<close>).

  The lemmas show that reminders come once per threshold and get tighter, that a domain with several monitors
  is announced once per threshold, that a term put off is silent until its own threshold and not longer, and
  which addresses make the pass over the domains raise.
\<close>

named_theorems expiry_defs \<open>definitions of the reminders\<close>

section \<open>expiry_snooze.py\<close>

definition RENEW_SLACK :: int where [expiry_defs]: "RENEW_SLACK = 2"

definition snz_days :: "check \<Rightarrow> string \<Rightarrow> int option" where
  "snz_days row kind = (if kind = ''ssl'' then ssl_days row else if kind = ''domain'' then domain_days row else None)"

definition snz_get :: "check \<Rightarrow> string \<Rightarrow> dict option" where
  "snz_get row kind = (case expiry_snooze row of PDict v \<Rightarrow> as_dict (dget v kind) | _ \<Rightarrow> None)"

definition renewed :: "dict \<Rightarrow> int option \<Rightarrow> bool res" where
  "renewed e days =
     (case py_int (dget e ''days'') of
        Inl OverflowError \<Rightarrow> Inl OverflowError
      | Inl _ \<Rightarrow> Inr False
      | Inr was \<Rightarrow> Inr (case days of None \<Rightarrow> False | Some d \<Rightarrow> d > was + RENEW_SLACK))"

text \<open>\<open>int(e.get("mode") or 0)\<close>\<close>

definition snz_mode :: "dict \<Rightarrow> int res" where
  "snz_mode e = py_int (por (dget e ''mode'') (PInt 0))"

definition hidden :: "check \<Rightarrow> string \<Rightarrow> int option \<Rightarrow> bool res" where
  "hidden row kind days0 =
     (case snz_get row kind of
        None \<Rightarrow> Inr False
      | Some e \<Rightarrow>
          (let days = (case days0 of None \<Rightarrow> snz_days row kind | Some d \<Rightarrow> Some d)
           in rbind (snz_mode e) (\<lambda>mode.
                if mode = 0 then Inr True
                else rbind (renewed e days) (\<lambda>r.
                  if r then Inr False
                  else Inr (case days of None \<Rightarrow> False | Some d \<Rightarrow> d > mode)))))"

definition expired_domain_muted :: "int option \<Rightarrow> py \<Rightarrow> bool" where
  "expired_domain_muted days snooze =
     (let entry = (case snooze of PDict v \<Rightarrow> dget v ''domain'' | _ \<Rightarrow> PNone)
      in case days of
           None \<Rightarrow> False
         | Some d \<Rightarrow> d \<le> 0 \<and> (case entry of PDict e \<Rightarrow> py_eq (dget e ''mode'') (PInt 0) | _ \<Rightarrow> False))"

definition thresholds :: "check \<Rightarrow> string \<Rightarrow> int list \<Rightarrow> int option \<Rightarrow> int list res" where
  "thresholds row kind thr days0 =
     (case snz_get row kind of
        None \<Rightarrow> Inr thr
      | Some e \<Rightarrow>
          rbind (renewed e (case days0 of None \<Rightarrow> snz_days row kind | Some d \<Rightarrow> Some d)) (\<lambda>r.
            if r then Inr thr
            else rbind (snz_mode e) (\<lambda>mode.
              Inr (if mode > 0 then rev (sorted_set (thr @ [mode])) else thr))))"

definition snz_entry :: "int \<Rightarrow> int option \<Rightarrow> string \<Rightarrow> time \<Rightarrow> dict" where
  "snz_entry mode days who now =
     [(''mode'', PInt mode), (''by'', PStr who), (''at'', PStr (iso now)),
      (''days'', case days of None \<Rightarrow> PNone | Some d \<Rightarrow> PInt d)]"

text \<open>The body of the loop of \<open>sync\<close>, for one kind.\<close>

definition sync_kind :: "check \<Rightarrow> string \<Rightarrow> dict \<Rightarrow> dict res" where
  "sync_kind row kind cur =
     (case dget cur kind of
        PDict e \<Rightarrow> rbind (snz_mode e) (\<lambda>mode.
          if mode > 0 then rbind (renewed e (snz_days row kind)) (\<lambda>r. Inr (if r then dpop kind cur else cur))
          else Inr cur)
      | _ \<Rightarrow> Inr cur)"

definition sync :: "check \<Rightarrow> (bool \<times> check) res" where
  "sync row =
     (case expiry_snooze row of
        PDict v \<Rightarrow>
          if v = [] then Inr (False, row)
          else rbind (rbind (sync_kind row ''ssl'' v) (sync_kind row ''domain'')) (\<lambda>cur.
            if cur = v then Inr (False, row)
            else Inr (True, row\<lparr>expiry_snooze := (if cur = [] then PNone else PDict cur)\<rparr>))
      | _ \<Rightarrow> Inr (False, row))"

section \<open>Thresholds and domains\<close>

definition EXPIRED_BUCKET :: int where [expiry_defs]: "EXPIRED_BUCKET = - 1"

definition expiry_bucket :: "int \<Rightarrow> int list \<Rightarrow> int option \<Rightarrow> int option" where
  "expiry_bucket days thr alerted =
     (let crossed = filter (\<lambda>t. days \<le> t) thr @ (if days < 0 then [EXPIRED_BUCKET] else [])
      in case crossed of
           [] \<Rightarrow> None
         | c # cs \<Rightarrow>
             (let bucket = fold min cs c
              in case alerted of
                   None \<Rightarrow> Some bucket
                 | Some a \<Rightarrow> if bucket < a then Some bucket else None))"

text \<open>\<open>DomainAlerts.by\<close>: domain, then monitor, then the threshold announced and the days.\<close>

type_synonym domain_alerts = "(string \<times> (int \<times> int option \<times> int option) list) list"

definition dom_rows :: "domain_alerts \<Rightarrow> string \<Rightarrow> (int \<times> int option \<times> int option) list" where
  "dom_rows by d = (case map_of by d of None \<Rightarrow> [] | Some m \<Rightarrow> m)"

definition expiry_domain :: "string \<Rightarrow> string \<Rightarrow> string res" where
  "expiry_domain target name = registrable_domain (if target \<noteq> [] then target else name)"

text \<open>\<open>DomainAlerts.__init__\<close>; \<open>expiry_domain\<close> is the \<open>_registrable_domain(target or name or "")\<close> of the code.\<close>

fun domain_alerts :: "(int \<times> string \<times> string \<times> int option \<times> int option) list \<Rightarrow> domain_alerts \<Rightarrow> domain_alerts res" where
  "domain_alerts [] by = Inr by"
| "domain_alerts ((cid, target, name, alerted, days) # rows) by =
     rbind (expiry_domain target name) (\<lambda>zone.
       domain_alerts rows (dset zone (dset cid (alerted, days) (dom_rows by zone)) by))"

definition dom_count :: "domain_alerts \<Rightarrow> string \<Rightarrow> int" where
  "dom_count by zone = int (length (dom_rows by zone))"

definition should_alert :: "domain_alerts \<Rightarrow> string \<Rightarrow> int \<Rightarrow> int \<Rightarrow> bool \<times> domain_alerts" where
  "should_alert by zone cid bucket =
     (let m = dom_rows by zone;
          others = [a. (c, Some a, _) \<leftarrow> m, c \<noteq> cid];
          days = (case map_of m cid of None \<Rightarrow> None | Some (_, d) \<Rightarrow> d)
      in (\<not> list_ex (\<lambda>a. a \<le> bucket) others, dset zone (dset cid (Some bucket, days) m) by))"

definition first_renewed :: "domain_alerts \<Rightarrow> string \<Rightarrow> int \<Rightarrow> int \<Rightarrow> int \<Rightarrow> bool \<times> domain_alerts" where
  "first_renewed by zone cid days limit =
     (let m = dom_rows by zone;
          others = [ad. (c, ad) \<leftarrow> m, c \<noteq> cid]
      in (\<not> list_ex (\<lambda>(a, d). a = None \<and> (case d of None \<Rightarrow> False | Some x \<Rightarrow> x > limit)) others,
          dset zone (dset cid (None, Some days) m) by))"

section \<open>collector._apply_expiry\<close>

record expiry_info =
  ei_ssl_days :: "int option"
  ei_ssl_message :: string
  ei_domain_days :: "int option"
  ei_domain_message :: string

text \<open>What the probe brought: a term it could not read never erases the one known before.\<close>

definition expiry_save :: "check \<Rightarrow> expiry_info \<Rightarrow> time \<Rightarrow> check" where
  "expiry_save row info now =
     (let row = row\<lparr>expiry_checked_at := Some (utc now)\<rparr>;
          row = (case ei_ssl_days info of
                   Some d \<Rightarrow> row\<lparr>ssl_days := Some d, ssl_message := take 256 (ei_ssl_message info)\<rparr>
                 | None \<Rightarrow> if ssl_days row = None then row\<lparr>ssl_message := take 256 (ei_ssl_message info)\<rparr> else row)
      in case ei_domain_days info of
           Some d \<Rightarrow> row\<lparr>domain_days := Some d, domain_message := take 256 (ei_domain_message info)\<rparr>
         | None \<Rightarrow> if domain_days row = None then row\<lparr>domain_message := take 256 (ei_domain_message info)\<rparr> else row)"

definition mk_pending :: "string \<Rightarrow> check \<Rightarrow> site_text \<Rightarrow> flag list \<Rightarrow> pending" where
  "mk_pending kind row txt fl =
     \<lparr>pd_kind = kind, pd_name = ck_name row, pd_status = [], pd_text = txt, pd_inc = None, pd_check = ck_id row, pd_flags = fl\<rparr>"

definition max_of :: "int list \<Rightarrow> int" where
  "max_of xs = fold max (tl xs) (hd xs)"

definition expiry_ssl :: "check \<Rightarrow> int \<Rightarrow> (check \<times> pending list) res" where
  "expiry_ssl row days =
     rbind (thresholds row ''ssl'' (ssl_warn_days row) None) (\<lambda>thr.
     rbind (hidden row ''ssl'' None) (\<lambda>quiet.
       let over = (thr \<noteq> [] \<and> days > max_of thr);
           p1 = (if over \<and> ssl_alerted_days row \<noteq> None \<and> \<not> quiet then [mk_pending ''ssl'' row (SslRenewed days) []] else []);
           row = (if over then row\<lparr>ssl_alerted_days := None\<rparr> else row);
           p2 = (case expiry_bucket days thr (ssl_alerted_days row) of
                   Some b \<Rightarrow> if \<not> quiet then [mk_pending ''ssl'' row (SslExpires days) [SslAlerted b]] else []
                 | None \<Rightarrow> [])
       in Inr (row, p1 @ p2)))"

definition expiry_dom :: "check \<Rightarrow> int \<Rightarrow> domain_alerts option \<Rightarrow> (check \<times> pending list \<times> domain_alerts option) res" where
  "expiry_dom row days doms =
     rbind (thresholds row ''domain'' (domain_warn_days row) None) (\<lambda>thr.
     rbind (hidden row ''domain'' None) (\<lambda>quiet.
     rbind (expiry_domain (ck_target row) (ck_name row)) (\<lambda>zone.
       let n = (case doms of None \<Rightarrow> 1 | Some by \<Rightarrow> dom_count by zone);
           over = (thr \<noteq> [] \<and> days > max_of thr);
           (first, doms) = (if over then
               (case doms of
                  None \<Rightarrow> (True, None)
                | Some by \<Rightarrow> (case first_renewed by zone (ck_id row) days (max_of thr) of (r, by') \<Rightarrow> (r, Some by')))
             else (False, doms));
           p1 = (if over \<and> domain_alerted_days row \<noteq> None \<and> \<not> quiet \<and> first
                 then [mk_pending ''domain'' row (DomainRenewed zone days) []] else []);
           row = (if over then row\<lparr>domain_alerted_days := None\<rparr> else row)
       in case expiry_bucket days thr (domain_alerted_days row) of
            None \<Rightarrow> Inr (row, p1, doms)
          | Some b \<Rightarrow>
              if quiet then Inr (row, p1, doms)
              else (let (say, doms) = (case doms of
                          None \<Rightarrow> (True, None)
                        | Some by \<Rightarrow> (case should_alert by zone (ck_id row) b of (r, by') \<Rightarrow> (r, Some by')))
                    in if say then Inr (row, p1 @ [mk_pending ''domain'' row (DomainExpires zone days n) [DomainAlerted b]], doms)
                       else Inr (row\<lparr>domain_alerted_days := Some b\<rparr>, p1, doms)))))"

definition apply_expiry ::
  "check \<Rightarrow> expiry_info \<Rightarrow> time \<Rightarrow> domain_alerts option \<Rightarrow> (check \<times> pending list \<times> domain_alerts option) res" where
  "apply_expiry row info now doms =
     rbind (sync (expiry_save row info now)) (\<lambda>(_, row).
     rbind (case ei_ssl_days info of
              Some d \<Rightarrow> if check_ssl row then expiry_ssl row d else Inr (row, [])
            | None \<Rightarrow> Inr (row, [])) (\<lambda>(row, p1).
     rbind (case ei_domain_days info of
              Some d \<Rightarrow> if check_domain row then expiry_dom row d doms else Inr (row, [], doms)
            | None \<Rightarrow> Inr (row, [], doms)) (\<lambda>(row, p2, doms).
       Inr (row, p1 @ p2, doms))))"

section \<open>api/checks.py: putting a term off\<close>

definition get_or_404 :: "check list \<Rightarrow> int \<Rightarrow> user option \<Rightarrow> check answer" where
  "get_or_404 checks cid u =
     (case find (\<lambda>c. ck_id c = cid) checks of
        None \<Rightarrow> Inl (ApiError 404 ''not_found'')
      | Some c \<Rightarrow> (case u of
                     Some v \<Rightarrow> if group_allowed v (ck_group c) ''sites'' then Inr c else Inl (ApiError 404 ''not_found'')
                   | None \<Rightarrow> Inr c))"

text \<open>\<open>dict(c.expiry_snooze or {})\<close>; the column holds a dict or nothing.\<close>

definition snz_copy :: "check \<Rightarrow> dict res" where
  "snz_copy c = (case expiry_snooze c of PDict v \<Rightarrow> Inr v | v \<Rightarrow> if truthy v then Inl TypeError else Inr [])"

definition snooze_row :: "string \<Rightarrow> int option \<Rightarrow> string \<Rightarrow> time \<Rightarrow> check \<Rightarrow> check res" where
  "snooze_row kind mode who now c =
     rbind (snz_copy c) (\<lambda>cur.
       let cur = (case mode of
                    None \<Rightarrow> dpop kind cur
                  | Some m \<Rightarrow> dset kind (PDict (snz_entry m (if kind = ''domain'' then domain_days c else ssl_days c) who now)) cur)
       in Inr (c\<lparr>expiry_snooze := (if cur = [] then PNone else PDict cur)\<rparr>))"

text \<open>Whether the mark goes to this monitor too.\<close>

definition snooze_selects :: "user \<Rightarrow> int \<Rightarrow> string \<Rightarrow> string \<Rightarrow> check \<Rightarrow> bool res" where
  "snooze_selects u cid kind zone c =
     (if ck_id c = cid then Inr True
      else if kind = ''domain'' \<and> check_domain c \<and> group_allowed u (ck_group c) ''sites''
      then rbind (expiry_domain (ck_target c) (ck_name c)) (\<lambda>d. Inr (d = zone))
      else Inr False)"

definition expiry_snooze_check ::
  "time \<Rightarrow> acting option \<Rightarrow> user \<Rightarrow> int \<Rightarrow> string \<Rightarrow> int option \<Rightarrow> check list \<times> world \<Rightarrow> check answer \<times> check list \<times> world" where
  "expiry_snooze_check now act u cid kind mode = (\<lambda>(checks, w).
     case get_or_404 checks cid (Some u) of
       Inl e \<Rightarrow> (Inl e, checks, w)
     | Inr chk \<Rightarrow>
         (let days = (if kind = ''domain'' then domain_days chk else ssl_days chk);
              late = (case mode of None \<Rightarrow> False | Some m \<Rightarrow> m > 0 \<and> (case days of None \<Rightarrow> True | Some d \<Rightarrow> d \<le> m))
          in if late then (Inl (ApiError 400 ''too_late''), checks, w)
             else
               (case rbind (if kind = ''domain'' then expiry_domain (ck_target chk) (ck_name chk) else Inr (ck_name chk)) (\<lambda>what.
                     rbind (rmap (snooze_selects u cid kind what) checks) (\<lambda>sel.
                     rbind (rmap (\<lambda>(c, s). if s then snooze_row kind mode (username u) now c else Inr c) (zip checks sel))
                       (\<lambda>rows. Inr (what, rows)))) of
                  Inl e \<Rightarrow> (Inl (Crash e), checks, w)
                | Inr (what, rows) \<Rightarrow>
                    (get_or_404 rows cid None, rows,
                     audit_record now act (username u) (if mode = None then ''expiry_watch'' else ''expiry_snooze'') what
                       (ExpiryDetail kind mode) w))))"

section \<open>Delivery\<close>

text \<open>What a delivered alert writes into the row (\<open>setattr\<close> in \<open>collector._send_alerts\<close>).\<close>

fun apply_flag :: "flag \<Rightarrow> check \<Rightarrow> check" where
  "apply_flag (FlapState d) row = row\<lparr>flap_state := Some d\<rparr>"
| "apply_flag (FlakyNotified b) row = row\<lparr>flaky_notified := b\<rparr>"
| "apply_flag (SslAlerted d) row = row\<lparr>ssl_alerted_days := Some d\<rparr>"
| "apply_flag (DomainAlerted d) row = row\<lparr>domain_alerted_days := Some d\<rparr>"

section \<open>Lemmas\<close>

subsection \<open>One reminder per threshold\<close>

lemma fold_min_eq: "fold min xs x = Min (insert x (set xs))"
  by (metis Min.set_eq_fold list.simps(15))

lemma fold_max_eq: "fold max xs x = Max (insert x (set xs))"
  by (metis Max.set_eq_fold list.simps(15))

lemma max_of_ge: "t \<in> set xs \<Longrightarrow> t \<le> max_of xs"
  by (cases xs) (auto simp: max_of_def fold_max_eq)

definition crossed :: "int \<Rightarrow> int list \<Rightarrow> int set" where
  "crossed days thr = {t \<in> set thr. days \<le> t} \<union> (if days < 0 then {EXPIRED_BUCKET} else {})"

lemma finite_crossed [simp]: "finite (crossed days thr)"
  by (simp add: crossed_def)

lemma expiry_bucket_Some_iff:
  "expiry_bucket days thr alerted = Some b \<longleftrightarrow>
     b \<in> crossed days thr \<and> (\<forall>t\<in>crossed days thr. b \<le> t) \<and> (\<forall>a. alerted = Some a \<longrightarrow> b < a)"
proof -
  define cs where "cs = filter (\<lambda>t. days \<le> t) thr @ (if days < 0 then [EXPIRED_BUCKET] else [])"
  have c: "crossed days thr = set cs"
    by (simp add: cs_def crossed_def)
  show ?thesis
  proof (cases cs)
    case Nil
    then show ?thesis by (simp add: c expiry_bucket_def flip: cs_def)
  next
    case (Cons x xs)
    have "b = fold min xs x \<longleftrightarrow> b \<in> set cs \<and> (\<forall>t\<in>set cs. b \<le> t)"
      using Min_eq_iff [of "set cs" b] by (auto simp: Cons fold_min_eq)
    moreover have "expiry_bucket days thr alerted = Some b \<longleftrightarrow> b = fold min xs x \<and> (\<forall>a. alerted = Some a \<longrightarrow> b < a)"
      unfolding expiry_bucket_def cs_def [symmetric] Cons Let_def by (auto split: option.splits)
    ultimately show ?thesis by (simp add: c)
  qed
qed

lemma expiry_bucket_reached:
  assumes "t \<in> set thr" "days \<le> t" "\<forall>a. alerted = Some a \<longrightarrow> t < a"
  obtains b where "expiry_bucket days thr alerted = Some b" "b \<le> t"
proof -
  let ?C = "crossed days thr"
  have "t \<in> ?C" using assms by (simp add: crossed_def)
  then have m: "Min ?C \<in> ?C" "\<forall>u\<in>?C. Min ?C \<le> u" "Min ?C \<le> t"
    by (auto intro: Min_in)
  with assms(3) have "\<forall>a. alerted = Some a \<longrightarrow> Min ?C < a"
    by fastforce
  with m have "expiry_bucket days thr alerted = Some (Min ?C)"
    by (simp add: expiry_bucket_Some_iff)
  with m(3) show thesis by (rule that [rotated])
qed

fun ssl_mark :: "flag \<Rightarrow> int option" where
  "ssl_mark (SslAlerted b) = Some b"
| "ssl_mark _ = None"

definition ssl_marks :: "pending list \<Rightarrow> int list" where
  "ssl_marks ps = List.map_filter ssl_mark (concat (map pd_flags ps))"

lemma map_filter_append [simp]: "List.map_filter f (xs @ ys) = List.map_filter f xs @ List.map_filter f ys"
  by (induction xs) (auto simp: List.map_filter_simps split: option.splits)

lemma ssl_marks_simps [simp]:
  "ssl_marks [] = []" "ssl_marks (xs @ ys) = ssl_marks xs @ ssl_marks ys"
  "ssl_marks (p # ps) = List.map_filter ssl_mark (pd_flags p) @ ssl_marks ps"
  "pd_flags (mk_pending k row txt fl) = fl"
  by (simp_all add: ssl_marks_def mk_pending_def List.map_filter_simps)

lemma sync_frame:
  assumes "sync row = Inr (x, row')"
  shows "ssl_alerted_days row' = ssl_alerted_days row \<and> domain_alerted_days row' = domain_alerted_days row
    \<and> ck_id row' = ck_id row \<and> ck_target row' = ck_target row \<and> ck_name row' = ck_name row
    \<and> check_ssl row' = check_ssl row \<and> check_domain row' = check_domain row \<and> ssl_warn_days row' = ssl_warn_days row
    \<and> ssl_days row' = ssl_days row \<and> domain_days row' = domain_days row"
  using assms by (auto simp: sync_def rbind_Inr_iff split: py.splits if_splits)

lemma expiry_save_frame [simp]:
  "ssl_alerted_days (expiry_save row info now) = ssl_alerted_days row"
  "domain_alerted_days (expiry_save row info now) = domain_alerted_days row"
  "ck_id (expiry_save row info now) = ck_id row" "ck_target (expiry_save row info now) = ck_target row"
  "ck_name (expiry_save row info now) = ck_name row" "check_ssl (expiry_save row info now) = check_ssl row"
  "check_domain (expiry_save row info now) = check_domain row" "ssl_warn_days (expiry_save row info now) = ssl_warn_days row"
  "expiry_snooze (expiry_save row info now) = expiry_snooze row"
  "ssl_days (expiry_save row info now) = (case ei_ssl_days info of None \<Rightarrow> ssl_days row | Some d \<Rightarrow> Some d)"
  "domain_days (expiry_save row info now) = (case ei_domain_days info of None \<Rightarrow> domain_days row | Some d \<Rightarrow> Some d)"
  by (simp_all add: expiry_save_def Let_def split: option.splits)

lemma thresholds_more: "thresholds row kind thr d = Inr thr' \<Longrightarrow> set thr \<subseteq> set thr'"
  by (auto simp: thresholds_def rbind_Inr_iff split: option.splits if_splits)

lemma expiry_ssl_marks:
  assumes "expiry_ssl row days = Inr (row', ps)"
  shows "ssl_alerted_days row' = ssl_alerted_days row \<or> ssl_alerted_days row' = None \<and> (\<forall>t\<in>set (ssl_warn_days row). t < days)"
    "ssl_marks ps = [] \<or> (\<exists>b. ssl_marks ps = [b] \<and> (\<forall>a. ssl_alerted_days row' = Some a \<longrightarrow> b < a))"
proof -
  obtain thr quiet where t: "thresholds row ''ssl'' (ssl_warn_days row) None = Inr thr" and q: "hidden row ''ssl'' None = Inr quiet"
    using assms by (auto simp: expiry_ssl_def rbind_Inr_iff)
  have "row' = row \<or> row' = row\<lparr>ssl_alerted_days := None\<rparr> \<and> thr \<noteq> [] \<and> days > max_of thr"
    using assms by (auto simp: expiry_ssl_def t q Let_def split: if_splits)
  moreover have "t < days" if "t \<in> set (ssl_warn_days row)" "days > max_of thr" for t
    using thresholds_more [OF t] max_of_ge [of t thr] that by auto
  ultimately show "ssl_alerted_days row' = ssl_alerted_days row \<or> ssl_alerted_days row' = None \<and> (\<forall>t\<in>set (ssl_warn_days row). t < days)"
    by auto
  show "ssl_marks ps = [] \<or> (\<exists>b. ssl_marks ps = [b] \<and> (\<forall>a. ssl_alerted_days row' = Some a \<longrightarrow> b < a))"
    using assms by (auto simp: expiry_ssl_def t q Let_def expiry_bucket_Some_iff List.map_filter_simps split: option.splits if_splits)
qed

lemma expiry_ssl_pending:
  assumes "expiry_ssl row days = Inr (row', ps)" "p \<in> set ps"
  shows "pd_kind p = ''ssl'' \<and> (\<forall>f\<in>set (pd_flags p). \<exists>b. f = SslAlerted b)"
  using assms by (auto simp: expiry_ssl_def rbind_Inr_iff Let_def mk_pending_def split: option.splits if_splits)

lemma expiry_dom_pending:
  assumes "expiry_dom row days doms = Inr (row', ps, doms')" "p \<in> set ps"
  shows "pd_kind p = ''domain'' \<and> (\<forall>f\<in>set (pd_flags p). \<exists>b. f = DomainAlerted b)"
  using assms by (auto simp: expiry_dom_def rbind_Inr_iff Let_def mk_pending_def split: option.splits if_splits prod.splits)

lemma expiry_dom_frame:
  assumes "expiry_dom row days doms = Inr (row', ps, doms')"
  shows "ssl_alerted_days row' = ssl_alerted_days row \<and> expiry_snooze row' = expiry_snooze row"
  using assms by (auto simp: expiry_dom_def rbind_Inr_iff Let_def split: option.splits if_splits prod.splits)

lemma expiry_dom_marks: "expiry_dom row days doms = Inr (row', ps, doms') \<Longrightarrow> ssl_marks ps = []"
  by (auto simp: expiry_dom_def rbind_Inr_iff Let_def List.map_filter_simps split: option.splits if_splits prod.splits)

text \<open>The steps of \<open>_apply_expiry\<close>.\<close>

lemma apply_expiry_cases:
  assumes "apply_expiry row info now doms = Inr (row', ps, doms')"
  obtains x row1 row2 p1 p2 where "sync (expiry_save row info now) = Inr (x, row1)" "ps = p1 @ p2"
    "(\<exists>d. ei_ssl_days info = Some d \<and> check_ssl row1 \<and> expiry_ssl row1 d = Inr (row2, p1)) \<or>
     (ei_ssl_days info = None \<or> \<not> check_ssl row1) \<and> row2 = row1 \<and> p1 = []"
    "(\<exists>d. ei_domain_days info = Some d \<and> check_domain row2 \<and> expiry_dom row2 d doms = Inr (row', p2, doms')) \<or>
     (ei_domain_days info = None \<or> \<not> check_domain row2) \<and> row' = row2 \<and> p2 = [] \<and> doms' = doms"
proof -
  from assms obtain x row1 row2 p1 p2 where "sync (expiry_save row info now) = Inr (x, row1)" "ps = p1 @ p2"
    "(case ei_ssl_days info of
              Some d \<Rightarrow> if check_ssl row1 then expiry_ssl row1 d else Inr (row1, [])
            | None \<Rightarrow> Inr (row1, [])) = Inr (row2, p1)"
    "(case ei_domain_days info of
              Some d \<Rightarrow> if check_domain row2 then expiry_dom row2 d doms else Inr (row2, [], doms)
            | None \<Rightarrow> Inr (row2, [], doms)) = Inr (row', p2, doms')"
    unfolding apply_expiry_def rbind_Inr_iff by (fastforce simp: rbind_Inr_iff)
  then show thesis
    by (intro that [of x row1 p1 p2 row2]) (simp_all split: option.splits if_splits)
qed

text \<open>The certificate was renewed: it has more days left than any threshold of the monitor.\<close>

definition ssl_renewed :: "check \<Rightarrow> expiry_info \<Rightarrow> bool" where
  "ssl_renewed row info \<longleftrightarrow> check_ssl row \<and> (case ei_ssl_days info of None \<Rightarrow> False | Some d \<Rightarrow> \<forall>t\<in>set (ssl_warn_days row). t < d)"

lemma apply_expiry_marks:
  assumes "apply_expiry row info now doms = Inr (row', ps, doms')"
  shows "ssl_alerted_days row' = ssl_alerted_days row \<or> ssl_alerted_days row' = None \<and> ssl_renewed row info"
    "ssl_marks ps = [] \<or> (\<exists>b. ssl_marks ps = [b] \<and> (\<forall>a. ssl_alerted_days row' = Some a \<longrightarrow> b < a))"
proof -
  from assms obtain x row1 row2 p1 p2 where s: "sync (expiry_save row info now) = Inr (x, row1)" and ps: "ps = p1 @ p2"
    and ssl: "(\<exists>d. ei_ssl_days info = Some d \<and> check_ssl row1 \<and> expiry_ssl row1 d = Inr (row2, p1)) \<or>
     (ei_ssl_days info = None \<or> \<not> check_ssl row1) \<and> row2 = row1 \<and> p1 = []"
    and dm: "(\<exists>d. ei_domain_days info = Some d \<and> check_domain row2 \<and> expiry_dom row2 d doms = Inr (row', p2, doms')) \<or>
     (ei_domain_days info = None \<or> \<not> check_domain row2) \<and> row' = row2 \<and> p2 = [] \<and> doms' = doms"
    by (rule apply_expiry_cases)
  from dm have d: "ssl_alerted_days row' = ssl_alerted_days row2" "ssl_marks p2 = []"
    by (auto dest: expiry_dom_frame expiry_dom_marks)
  have a: "ssl_alerted_days row1 = ssl_alerted_days row" "check_ssl row1 = check_ssl row" "ssl_warn_days row1 = ssl_warn_days row"
    using sync_frame [OF s] by simp_all
  from ssl show "ssl_alerted_days row' = ssl_alerted_days row \<or> ssl_alerted_days row' = None \<and> ssl_renewed row info"
    by (auto simp: d a ssl_renewed_def dest: expiry_ssl_marks(1))
  from ssl show "ssl_marks ps = [] \<or> (\<exists>b. ssl_marks ps = [b] \<and> (\<forall>a. ssl_alerted_days row' = Some a \<longrightarrow> b < a))"
    by (auto simp: d ps dest: expiry_ssl_marks(2))
qed

text \<open>A run of passes: every queued message is delivered or not, and between passes the monitor is edited in
  any way that leaves the mark alone.  The list holds the thresholds delivered since the last pass that saw the certificate
  renewed, newest first.\<close>

definition deliver_row :: "pending list \<Rightarrow> check \<Rightarrow> check" where
  "deliver_row ps row = fold apply_flag (concat (map pd_flags ps)) row"

inductive ssl_run :: "check \<Rightarrow> int list \<Rightarrow> bool" where
  start: "ssl_alerted_days row = None \<Longrightarrow> ssl_run row []"
| pass: "ssl_run row bs \<Longrightarrow> apply_expiry row info now doms = Inr (row', ps, doms') \<Longrightarrow> sent \<in> set (subseqs ps) \<Longrightarrow>
    ssl_run (deliver_row sent row') (rev (ssl_marks sent) @ (if ssl_renewed row info then [] else bs))"
| edit: "ssl_run row bs \<Longrightarrow> ssl_alerted_days row' = ssl_alerted_days row \<Longrightarrow> ssl_run row' bs"

lemma deliver_alerted:
  "List.map_filter ssl_mark fl = [] \<Longrightarrow> ssl_alerted_days (fold apply_flag fl row) = ssl_alerted_days row"
  "List.map_filter ssl_mark fl = [b] \<Longrightarrow> ssl_alerted_days (fold apply_flag fl row) = Some b"
proof -
  show *: "ssl_alerted_days (fold apply_flag fl row) = ssl_alerted_days row"
    if "List.map_filter ssl_mark fl = []" for fl row
    using that
  proof (induction fl arbitrary: row)
    case (Cons f fl)
    then show ?case by (cases f) (auto simp: List.map_filter_simps)
  qed simp
  show "ssl_alerted_days (fold apply_flag fl row) = Some b" if "List.map_filter ssl_mark fl = [b]"
    using that
  proof (induction fl arbitrary: row)
    case (Cons f fl)
    then show ?case by (cases f) (auto simp: List.map_filter_simps *)
  qed (simp add: List.map_filter_simps)
qed

lemma ssl_marks_sent:
  "sent \<in> set (subseqs ps) \<Longrightarrow> length (ssl_marks sent) \<le> length (ssl_marks ps) \<and> set (ssl_marks sent) \<subseteq> set (ssl_marks ps)"
proof (induction ps arbitrary: sent)
  case (Cons p ps)
  then consider "sent \<in> set (subseqs ps)" | s where "sent = p # s" "s \<in> set (subseqs ps)"
    by (auto simp: Let_def)
  then show ?case
    by cases (use Cons.IH in force)+
qed simp

lemma ssl_run_decreasing:
  "ssl_run row bs \<Longrightarrow> sorted_wrt (<) bs \<and> (bs \<noteq> [] \<longrightarrow> ssl_alerted_days row = Some (hd bs))"
proof (induction rule: ssl_run.induct)
  case (pass row bs info now doms row' ps doms' sent)
  define bs' where "bs' = (if ssl_renewed row info then [] else bs)"
  have bs': "sorted_wrt (<) bs' \<and> (bs' \<noteq> [] \<longrightarrow> ssl_alerted_days row' = Some (hd bs'))"
    using pass.IH apply_expiry_marks(1) [OF pass.hyps(2)] by (auto simp: bs'_def)
  have "ssl_marks sent = [] \<or> (\<exists>b. ssl_marks sent = [b] \<and> ssl_marks ps = [b])"
  proof (cases "ssl_marks sent")
    case (Cons b xs)
    with ssl_marks_sent [OF pass.hyps(3)] apply_expiry_marks(2) [OF pass.hyps(2)] show ?thesis
      by auto
  qed simp
  then have "sorted_wrt (<) (rev (ssl_marks sent) @ bs') \<and>
      (rev (ssl_marks sent) @ bs' \<noteq> [] \<longrightarrow> ssl_alerted_days (deliver_row sent row') = Some (hd (rev (ssl_marks sent) @ bs')))"
  proof (elim disjE exE conjE)
    assume "ssl_marks sent = []"
    with bs' show ?thesis
      by (simp add: deliver_row_def ssl_marks_def deliver_alerted)
  next
    fix b assume b: "ssl_marks sent = [b]" "ssl_marks ps = [b]"
    then have "\<forall>a. ssl_alerted_days row' = Some a \<longrightarrow> b < a"
      using apply_expiry_marks(2) [OF pass.hyps(2)] by auto
    with bs' have "\<forall>c\<in>set bs'. b < c"
      by (cases bs') auto
    with b(1) bs' show ?thesis
      by (simp add: deliver_row_def ssl_marks_def deliver_alerted)
  qed
  then show ?case unfolding bs'_def .
qed simp_all


subsection \<open>A term put off\<close>

lemma snz_entry_simps [simp]:
  "dget (snz_entry m d who t) ''mode'' = PInt m"
  "dget (snz_entry m (Some d0) who t) ''days'' = PInt d0"
  by (simp_all add: snz_entry_def)

lemma snz_mode_entry [simp]: "snz_mode (snz_entry m d who t) = Inr m"
  by (auto simp: snz_mode_def por_def)

lemma renewed_entry [simp]:
  "renewed (snz_entry m (Some d0) who t) days = Inr (case days of None \<Rightarrow> False | Some d \<Rightarrow> d > d0 + RENEW_SLACK)"
  by (simp add: renewed_def)

lemma sync_kind_other:
  "sync_kind row kind cur = Inr cur' \<Longrightarrow> k \<noteq> kind \<Longrightarrow> dget cur' k = dget cur k"
  by (auto simp: sync_kind_def rbind_Inr_iff split: py.splits if_splits)

text \<open>What \<open>sync\<close> leaves of the mark on a term.\<close>

lemma sync_kind_own:
  assumes "sync_kind row kind cur = Inr cur'" "dget cur kind = PDict (snz_entry m (Some d0) who t)" "0 < m" "snz_days row kind = Some d"
  shows "dget cur' kind = (if d > d0 + RENEW_SLACK then PNone else PDict (snz_entry m (Some d0) who t))"
  using assms by (cases "d > d0 + RENEW_SLACK") (auto simp: sync_kind_def)

lemma sync_entry:
  assumes "sync row = Inr (x, row')" "snz_get row kind = Some (snz_entry m (Some d0) who t)" "0 < m" "snz_days row kind = Some d"
    "kind \<in> {''ssl'', ''domain''}"
  shows "snz_get row' kind = (if d > d0 + RENEW_SLACK then None else Some (snz_entry m (Some d0) who t))"
proof -
  let ?e = "snz_entry m (Some d0) who t"
  obtain v where v: "expiry_snooze row = PDict v" "as_dict (dget v kind) = Some ?e"
    using assms(2) by (auto simp: snz_get_def split: py.splits)
  then have e: "dget v kind = PDict ?e" by (cases "dget v kind") auto
  then have "v \<noteq> []" by auto
  with assms(1) v(1) have "rbind (rbind (sync_kind row ''ssl'' v) (sync_kind row ''domain'')) (\<lambda>cur.
      if cur = v then Inr (False, row)
      else Inr (True, row\<lparr>expiry_snooze := (if cur = [] then PNone else PDict cur)\<rparr>)) = Inr (x, row')"
    by (simp add: sync_def)
  then obtain c1 c2 where c: "sync_kind row ''ssl'' v = Inr c1" "sync_kind row ''domain'' c1 = Inr c2"
    and "(if c2 = v then Inr (False, row)
      else Inr (True, row\<lparr>expiry_snooze := (if c2 = [] then PNone else PDict c2)\<rparr>)) = (Inr (x, row') :: (bool \<times> check) res)"
    unfolding rbind_Inr_iff by blast
  then have r: "row' = (if c2 = v then row else row\<lparr>expiry_snooze := (if c2 = [] then PNone else PDict c2)\<rparr>)"
    by (cases "c2 = v") simp_all
  have c2: "dget c2 kind = (if d > d0 + RENEW_SLACK then PNone else PDict ?e)"
  proof (cases "kind = ''ssl''")
    case True
    then show ?thesis
      using sync_kind_own [OF c(1), of m d0 who t d] sync_kind_other [OF c(2), of "''ssl''"] e assms(3,4) by simp
  next
    case False
    then have k: "kind = ''domain''" using assms(5) by simp
    then have "dget c1 ''domain'' = PDict ?e" using sync_kind_other [OF c(1), of "''domain''"] e by simp
    then show ?thesis using sync_kind_own [OF c(2), of m d0 who t d] assms(3,4) k by simp
  qed
  have "as_dict (dget c2 kind) = snz_get row' kind"
    unfolding r snz_get_def by (cases "c2 = v") (simp_all add: v(1))
  with c2 show ?thesis by auto
qed

text \<open>A term put off: its own threshold is in force, and the reminders of more than that many days are silent.\<close>

lemma snoozed_thresholds:
  assumes "snz_get row kind = Some (snz_entry m (Some d0) who t)" "0 < m" "snz_days row kind = Some d" "d \<le> d0 + RENEW_SLACK"
  shows "thresholds row kind warn None = Inr (rev (sorted_set (warn @ [m])))" "m \<in> set (rev (sorted_set (warn @ [m])))"
    "hidden row kind None = Inr (d > m)"
  using assms by (auto simp: thresholds_def hidden_def)

lemma expiry_ssl_snoozed:
  assumes "expiry_ssl row d = Inr (row', ps)" "snz_get row ''ssl'' = Some (snz_entry m (Some d0) who t)"
    "0 < m" "ssl_days row = Some d" "d \<le> d0 + RENEW_SLACK"
  shows "m < d \<Longrightarrow> ps = []"
    "d \<le> m \<Longrightarrow> \<forall>a. ssl_alerted_days row = Some a \<longrightarrow> m < a \<Longrightarrow>
      \<exists>b\<le>m. ps = [mk_pending ''ssl'' row (SslExpires d) [SslAlerted b]]"
proof -
  have "snz_days row ''ssl'' = Some d" using assms(4) by (simp add: snz_days_def)
  note th = snoozed_thresholds(1,2) [OF assms(2,3) this assms(5), of "ssl_warn_days row"] and h = snoozed_thresholds(3) [OF assms(2,3) this assms(5)]
  define thr where "thr = rev (sorted_set (ssl_warn_days row @ [m]))"
  note th = th [folded thr_def]
  show "ps = []" if "m < d"
    using assms(1) that by (auto simp: expiry_ssl_def th h Let_def split: option.splits if_splits)
  assume d: "d \<le> m" and a: "\<forall>a. ssl_alerted_days row = Some a \<longrightarrow> m < a"
  have over: "\<not> d > max_of thr"
    using max_of_ge [OF th(2)] d by simp
  from expiry_bucket_reached [OF th(2) d a] obtain b where "expiry_bucket d thr (ssl_alerted_days row) = Some b" "b \<le> m" .
  with assms(1) over d show "\<exists>b\<le>m. ps = [mk_pending ''ssl'' row (SslExpires d) [SslAlerted b]]"
    by (auto simp: expiry_ssl_def th h Let_def)
qed

text \<open>Another monitor of the domain has announced this threshold or a tighter one.\<close>

definition said_elsewhere :: "domain_alerts option \<Rightarrow> check \<Rightarrow> int \<Rightarrow> bool" where
  "said_elsewhere doms row b \<longleftrightarrow>
     (case (doms, expiry_domain (ck_target row) (ck_name row)) of
        (Some by, Inr zone) \<Rightarrow> list_ex (\<lambda>(c, a, _). c \<noteq> ck_id row \<and> (case a of None \<Rightarrow> False | Some x \<Rightarrow> x \<le> b)) (dom_rows by zone)
      | _ \<Rightarrow> False)"

lemma should_alert_said:
  assumes "expiry_domain (ck_target row) (ck_name row) = Inr zone" "should_alert by zone (ck_id row) b = (say, by')"
  shows "say \<longleftrightarrow> \<not> said_elsewhere (Some by) row b"
proof -
  have "list_ex (\<lambda>a. a \<le> b) [a. (c, Some a, _) \<leftarrow> rows, c \<noteq> k]
      = list_ex (\<lambda>(c, a, _). c \<noteq> k \<and> (case a of None \<Rightarrow> False | Some x \<Rightarrow> x \<le> b)) rows" for rows :: "(int \<times> int option \<times> int option) list" and k
  proof (induction rows)
    case (Cons x rows)
    obtain c a d where x: "x = (c, a, d)" by (cases x)
    show ?case using Cons by (cases a) (auto simp: x)
  qed simp
  then show ?thesis using assms by (simp add: should_alert_def Let_def said_elsewhere_def)
qed

lemma expiry_dom_snoozed:
  assumes "expiry_dom row d doms = Inr (row', ps, doms')" "snz_get row ''domain'' = Some (snz_entry m (Some d0) who t)"
    "0 < m" "domain_days row = Some d" "d \<le> d0 + RENEW_SLACK"
  shows "m < d \<Longrightarrow> ps = []"
    "d \<le> m \<Longrightarrow> \<forall>a. domain_alerted_days row = Some a \<longrightarrow> m < a \<Longrightarrow>
      \<exists>b\<le>m. if said_elsewhere doms row b then ps = [] \<and> domain_alerted_days row' = Some b
            else \<exists>zone n. ps = [mk_pending ''domain'' row (DomainExpires zone d n) [DomainAlerted b]]"
proof -
  have "snz_days row ''domain'' = Some d" using assms(4) by (simp add: snz_days_def)
  note th = snoozed_thresholds(1,2) [OF assms(2,3) this assms(5), of "domain_warn_days row"] and h = snoozed_thresholds(3) [OF assms(2,3) this assms(5)]
  define thr where "thr = rev (sorted_set (domain_warn_days row @ [m]))"
  note th = th [folded thr_def]
  obtain zone where zone: "expiry_domain (ck_target row) (ck_name row) = Inr zone"
    using assms(1) by (auto simp: expiry_dom_def rbind_Inr_iff)
  show "ps = []" if "m < d"
    using assms(1) that by (auto simp: expiry_dom_def th h zone Let_def split: option.splits if_splits prod.splits)
  assume d: "d \<le> m" and a: "\<forall>a. domain_alerted_days row = Some a \<longrightarrow> m < a"
  have over: "\<not> d > max_of thr"
    using max_of_ge [OF th(2)] d by simp
  from expiry_bucket_reached [OF th(2) d a] obtain b where b: "expiry_bucket d thr (domain_alerted_days row) = Some b" "b \<le> m" .
  show "\<exists>b\<le>m. if said_elsewhere doms row b then ps = [] \<and> domain_alerted_days row' = Some b
            else \<exists>zone n. ps = [mk_pending ''domain'' row (DomainExpires zone d n) [DomainAlerted b]]"
  proof (cases doms)
    case None
    then have "\<not> said_elsewhere doms row b" by (simp add: said_elsewhere_def)
    moreover have "\<exists>zone n. ps = [mk_pending ''domain'' row (DomainExpires zone d n) [DomainAlerted b]]"
      using assms(1) None b(1) over d by (auto simp: expiry_dom_def th h zone Let_def)
    ultimately show ?thesis using b(2) by auto
  next
    case (Some "by")
    obtain say by' where s: "should_alert by zone (ck_id row) b = (say, by')" by fastforce
    have "if say then (\<exists>n. ps = [mk_pending ''domain'' row (DomainExpires zone d n) [DomainAlerted b]])
        else ps = [] \<and> domain_alerted_days row' = Some b"
      using assms(1) Some b(1) over d s by (auto simp: expiry_dom_def th h zone Let_def split: if_splits)
    then show ?thesis
      using should_alert_said [OF zone s] b(2) Some by (intro exI [of _ b]) (auto split: if_splits)
  qed
qed

subsection \<open>One message per domain\<close>

definition dom_mark :: "domain_alerts \<Rightarrow> string \<Rightarrow> int \<Rightarrow> int option" where
  "dom_mark by zone c = (case map_of (dom_rows by zone) c of None \<Rightarrow> None | Some (a, _) \<Rightarrow> a)"

lemma dom_rows_dset [simp]: "dom_rows (dset z m by) z' = (if z = z' then m else dom_rows by z')"
  by (simp add: dom_rows_def update_conv')

lemma dom_mark_dset:
  "dom_mark (dset z (dset c ad (dom_rows by z)) by) z' c' = (if z = z' \<and> c = c' then fst ad else dom_mark by z' c')"
  by (auto simp: dom_mark_def update_conv' split: prod.splits)

lemma should_alert_marks:
  assumes "should_alert by zone cid b = (say, by')"
  shows "dom_mark by' z c = (if z = zone \<and> c = cid then Some b else dom_mark by z c)"
    "say \<Longrightarrow> c \<noteq> cid \<Longrightarrow> dom_mark by zone c = Some a \<Longrightarrow> b < a"
proof -
  from assms show "dom_mark by' z c = (if z = zone \<and> c = cid then Some b else dom_mark by z c)"
    by (auto simp: should_alert_def Let_def dom_mark_dset)
  assume "say" "c \<noteq> cid" "dom_mark by zone c = Some a"
  then obtain d where "(c, Some a, d) \<in> set (dom_rows by zone)"
    by (auto simp: dom_mark_def split: option.splits dest: map_of_SomeD)
  with \<open>c \<noteq> cid\<close> have "a \<in> set [a. (c, Some a, _) \<leftarrow> dom_rows by zone, c \<noteq> cid]"
    by force
  moreover have "\<not> list_ex (\<lambda>a. a \<le> b) [a. (c, Some a, _) \<leftarrow> dom_rows by zone, c \<noteq> cid]"
    using assms \<open>say\<close> by (simp add: should_alert_def Let_def)
  ultimately show "b < a"
    unfolding list_ex_iff by (meson not_le)
qed

lemma first_renewed_marks:
  "first_renewed by zone cid days limit = (r, by') \<Longrightarrow>
   dom_mark by' z c = (if z = zone \<and> c = cid then None else dom_mark by z c)"
  by (auto simp: first_renewed_def Let_def dom_mark_dset)

text \<open>The thresholds of a domain announced by a list of messages.\<close>

definition dom_marks :: "string \<Rightarrow> pending list \<Rightarrow> int list" where
  "dom_marks zone ps = [b. p \<leftarrow> ps, DomainAlerted b \<leftarrow> pd_flags p,
     case pd_text p of DomainExpires z _ _ \<Rightarrow> z = zone | _ \<Rightarrow> False]"

lemma dom_marks_simps [simp]:
  "dom_marks z [] = []" "dom_marks z (xs @ ys) = dom_marks z xs @ dom_marks z ys"
  "dom_marks z [mk_pending k row (DomainExpires z' d n) [DomainAlerted b]] = (if z' = z then [b] else [])"
  "dom_marks z [mk_pending k row txt []] = []"
  "dom_marks z [mk_pending k row txt [SslAlerted b]] = []"
  by (simp_all add: dom_marks_def mk_pending_def)

lemma expiry_dom_marks_step:
  assumes "expiry_dom row d (Some by) = Inr (row', ps, doms')"
  shows "\<exists>by'. doms' = Some by' \<and>
    (\<forall>z c. c \<noteq> ck_id row \<longrightarrow> dom_mark by' z c = dom_mark by z c) \<and>
    (\<forall>z. dom_marks z ps = [] \<or>
       (\<exists>b. dom_marks z ps = [b] \<and> dom_mark by' z (ck_id row) = Some b \<and>
          (\<forall>c a. c \<noteq> ck_id row \<longrightarrow> dom_mark by z c = Some a \<longrightarrow> b < a)))"
proof -
  from assms obtain thr quiet zone where zone: "expiry_domain (ck_target row) (ck_name row) = Inr zone"
    and thr: "thresholds row ''domain'' (domain_warn_days row) None = Inr thr" and q: "hidden row ''domain'' None = Inr quiet"
    by (auto simp: expiry_dom_def rbind_Inr_iff)
  define over where "over = (thr \<noteq> [] \<and> d > max_of thr)"
  obtain fr by1 where f: "first_renewed by zone (ck_id row) d (max_of thr) = (fr, by1)" by fastforce
  define by2 where "by2 = (if over then by1 else by)"
  have m2: "\<forall>z c. c \<noteq> ck_id row \<longrightarrow> dom_mark by2 z c = dom_mark by z c"
    using first_renewed_marks [OF f] by (simp add: by2_def)
  define row1 where "row1 = (if over then row\<lparr>domain_alerted_days := None\<rparr> else row)"
  define p1 where "p1 = (if over \<and> domain_alerted_days row \<noteq> None \<and> \<not> quiet \<and> fr then [mk_pending ''domain'' row (DomainRenewed zone d) []] else [])"
  have p1: "dom_marks z p1 = []" for z
    by (simp add: p1_def)
  have id: "ck_id row1 = ck_id row" by (simp add: row1_def)
  show ?thesis
  proof (cases "\<exists>b. expiry_bucket d thr (domain_alerted_days row1) = Some b \<and> \<not> quiet")
    case False
    then have "ps = p1 \<and> doms' = Some by2"
      using assms by (auto simp: expiry_dom_def thr q zone f Let_def p1_def by2_def row1_def over_def split: option.splits if_splits)
    with m2 p1 show ?thesis by simp
  next
    case True
    then obtain b where b: "expiry_bucket d thr (domain_alerted_days row1) = Some b" "\<not> quiet" by blast
    obtain say by3 where s: "should_alert by2 zone (ck_id row) b = (say, by3)" by fastforce
    have "doms' = Some by3" and ps: "\<exists>n. ps = (if say then p1 @ [mk_pending ''domain'' row1 (DomainExpires zone d n) [DomainAlerted b]] else p1)"
      using assms b s
      by (auto simp: expiry_dom_def thr q zone f Let_def p1_def by2_def row1_def over_def split: if_splits)
    then obtain n where "ps = (if say then p1 @ [mk_pending ''domain'' row1 (DomainExpires zone d n) [DomainAlerted b]] else p1)" by blast
    then have "dom_marks z ps = (if say \<and> z = zone then [b] else [])" for z
      by (auto simp: p1)
    with \<open>doms' = Some by3\<close> should_alert_marks [OF s] m2 show ?thesis
      by auto
  qed
qed

lemma expiry_ssl_dom_marks: "expiry_ssl row d = Inr (row', ps) \<Longrightarrow> dom_marks z ps = []"
  by (auto simp: expiry_ssl_def rbind_Inr_iff Let_def dom_marks_def split: option.splits if_splits)

lemma apply_expiry_dom_marks:
  assumes "apply_expiry row info now (Some by) = Inr (row', ps, doms')"
  shows "\<exists>by'. doms' = Some by' \<and>
    (\<forall>z c. c \<noteq> ck_id row \<longrightarrow> dom_mark by' z c = dom_mark by z c) \<and>
    (\<forall>z. dom_marks z ps = [] \<or>
       (\<exists>b. dom_marks z ps = [b] \<and> dom_mark by' z (ck_id row) = Some b \<and>
          (\<forall>c a. c \<noteq> ck_id row \<longrightarrow> dom_mark by z c = Some a \<longrightarrow> b < a)))"
proof -
  from assms obtain x row1 row2 p1 p2 where s: "sync (expiry_save row info now) = Inr (x, row1)" and ps: "ps = p1 @ p2"
    and ssl: "(\<exists>d. ei_ssl_days info = Some d \<and> check_ssl row1 \<and> expiry_ssl row1 d = Inr (row2, p1)) \<or>
     (ei_ssl_days info = None \<or> \<not> check_ssl row1) \<and> row2 = row1 \<and> p1 = []"
    and dm: "(\<exists>d. ei_domain_days info = Some d \<and> check_domain row2 \<and> expiry_dom row2 d (Some by) = Inr (row', p2, doms')) \<or>
     (ei_domain_days info = None \<or> \<not> check_domain row2) \<and> row' = row2 \<and> p2 = [] \<and> doms' = Some by"
    by (rule apply_expiry_cases)
  have id: "ck_id row2 = ck_id row"
    using ssl sync_frame [OF s]
    by (auto simp: expiry_ssl_def rbind_Inr_iff Let_def split: option.splits if_splits)
  have p1: "dom_marks z p1 = []" for z
    using ssl expiry_ssl_dom_marks by auto
  from dm show ?thesis
  proof
    assume "\<exists>d. ei_domain_days info = Some d \<and> check_domain row2 \<and> expiry_dom row2 d (Some by) = Inr (row', p2, doms')"
    then obtain d where "expiry_dom row2 d (Some by) = Inr (row', p2, doms')" by blast
    from expiry_dom_marks_step [OF this] show ?thesis by (simp add: ps p1 id)
  qed (simp add: ps p1)
qed

subsection \<open>Addresses that cannot be read\<close>

lemma registrable_domain_raises_iff:
  "registrable_domain t = Inl e \<longleftrightarrow> contains (strip t) ''://'' \<and> url_netloc (strip t) = Inl e"
  by (auto simp: registrable_domain_def Let_def rbind_Inl_iff)

lemma url_netloc_raises: "url_netloc u = Inl e \<Longrightarrow> e = ValueError"
  by (auto simp: url_netloc_def Let_def split: prod.splits if_splits)

lemma domain_alerts_total:
  "domain_alerts rows ds = Inl e \<longleftrightarrow> e = ValueError \<and>
     (\<exists>(cid, target, name, ad)\<in>set rows. \<exists>e. expiry_domain target name = Inl e)"
proof (induction rows ds rule: domain_alerts.induct)
  case (2 cid target name alerted days rows ds)
  have v: "expiry_domain target name = Inl e' \<Longrightarrow> e' = ValueError" for e'
    by (auto simp: expiry_domain_def registrable_domain_raises_iff dest: url_netloc_raises)
  show ?case
  proof (cases "expiry_domain target name")
    case (Inl e')
    then show ?thesis using v [OF Inl] by auto
  next
    case (Inr z)
    then show ?thesis using "2.IH" by simp
  qed
qed simp


section \<open>Properties\<close>

text \<open>C17. Over any run of passes over the terms of a monitor, with any of the queued messages lost on the way and any
  edits of the monitor in between, the thresholds at which the reminders about the certificate are delivered strictly
  decrease until a pass finds the certificate renewed, with more days left than any threshold of the monitor: before that
  no threshold is announced twice.\<close>

theorem ssl_reminders_tighten:
  assumes "ssl_run row bs"
  shows "sorted_wrt (<) bs \<and> (bs \<noteq> [] \<longrightarrow> ssl_alerted_days row = Some (hd bs))"
  using ssl_run_decreasing [OF assms] .

definition ssl_info :: "int \<Rightarrow> expiry_info" where
  "ssl_info d = \<lparr>ei_ssl_days = Some d, ei_ssl_message = [], ei_domain_days = None, ei_domain_message = []\<rparr>"

theorem ssl_reminders_tighten_witness:
  "\<exists>row. ssl_run row [1, 7] \<and> ssl_alerted_days row = Some 1"
proof -
  let ?p = "\<lambda>d b. mk_pending ''ssl'' check0 (SslExpires d) [SslAlerted b]"
  let ?r5 = "check0\<lparr>expiry_checked_at := Some (utc 0), ssl_days := Some 5\<rparr>"
  let ?r1 = "check0\<lparr>expiry_checked_at := Some (utc 9), ssl_days := Some 1, ssl_alerted_days := Some 7\<rparr>"
  have 5: "apply_expiry check0 (ssl_info 5) 0 None = Inr (?r5, [?p 5 7], None)"
    and 1: "apply_expiry (deliver_row [?p 5 7] ?r5) (ssl_info 1) 9 None = Inr (?r1, [?p 1 1], None)"
    by code_simp+
  have "ssl_run check0 []" by (rule ssl_run.start) (simp add: check0_def)
  from ssl_run.pass [OF this 5, of "[?p 5 7]"] have "ssl_run (deliver_row [?p 5 7] ?r5) [7]"
    by (simp add: mk_pending_def check0_def List.map_filter_simps ssl_renewed_def ssl_info_def deliver_row_def)
  from ssl_run.pass [OF this 1, of "[?p 1 1]"] have "ssl_run (deliver_row [?p 1 1] ?r1) [1, 7]"
    by (simp add: mk_pending_def check0_def List.map_filter_simps ssl_renewed_def ssl_info_def deliver_row_def)
  with ssl_reminders_tighten [OF this] show ?thesis by auto
qed

text \<open>The two terms of a monitor: whether it is watched, the days the probe read, the threshold announced, the reminder.\<close>

definition term_watched :: "check \<Rightarrow> string \<Rightarrow> bool" where
  "term_watched row kind \<longleftrightarrow> (if kind = ''ssl'' then check_ssl row else check_domain row)"

definition term_read :: "expiry_info \<Rightarrow> string \<Rightarrow> int option" where
  "term_read info kind = (if kind = ''ssl'' then ei_ssl_days info else ei_domain_days info)"

definition term_told :: "check \<Rightarrow> string \<Rightarrow> int option" where
  "term_told row kind = (if kind = ''ssl'' then ssl_alerted_days row else domain_alerted_days row)"

definition reminds :: "string \<Rightarrow> int \<Rightarrow> int \<Rightarrow> pending \<Rightarrow> bool" where
  "reminds kind d b p \<longleftrightarrow>
     (if kind = ''ssl'' then pd_text p = SslExpires d \<and> pd_flags p = [SslAlerted b]
      else (case pd_text p of DomainExpires _ d' _ \<Rightarrow> d' = d | _ \<Rightarrow> False) \<and> pd_flags p = [DomainAlerted b])"

lemma expiry_ssl_frame:
  assumes "expiry_ssl row d = Inr (row', ps)"
  shows "expiry_snooze row' = expiry_snooze row \<and> domain_alerted_days row' = domain_alerted_days row \<and> check_domain row' = check_domain row
    \<and> domain_days row' = domain_days row \<and> ck_id row' = ck_id row \<and> ck_target row' = ck_target row \<and> ck_name row' = ck_name row"
  using assms by (auto simp: expiry_ssl_def rbind_Inr_iff Let_def split: option.splits if_splits)

text \<open>C19. A term put off to \<open>m\<close> days (the mark as \<open>api/checks.expiry_snooze_check\<close> writes it, with \<open>d0\<close> days left at that
  moment), that of the certificate or that of the registration of the domain: while more than \<open>m\<close> days are left nothing is
  said about it; once \<open>m\<close> or fewer are left the reminder is queued, unless one at least as tight was delivered before, even
  if \<open>m\<close> is not among the thresholds of the monitor (for a domain another monitor may have said it, then it is noted without
  a message); and a term that moved away by more than the slack takes the mark off.\<close>

theorem snoozed_term_returns:
  assumes "apply_expiry row info now doms = Inr (row', ps, doms')" "kind \<in> {''ssl'', ''domain''}"
    and "snz_get row kind = Some (snz_entry m (Some d0) who t)" "0 < m" "m < d0"
    and "term_watched row kind" "term_read info kind = Some d"
  shows "(m < d \<and> d \<le> d0 + 2 \<longrightarrow> (\<forall>p\<in>set ps. pd_kind p \<noteq> kind)) \<and>
    (d \<le> m \<and> (\<forall>a. term_told row kind = Some a \<longrightarrow> m < a) \<longrightarrow>
      (\<exists>b\<le>m. if kind = ''domain'' \<and> said_elsewhere doms row b then domain_alerted_days row' = Some b
             else \<exists>p\<in>set ps. reminds kind d b p)) \<and>
    (d0 + 2 < d \<longrightarrow> snz_get row' kind = None)"
proof -
  let ?e = "snz_entry m (Some d0) who t"
  from assms(1) obtain x row1 row2 p1 p2 where s: "sync (expiry_save row info now) = Inr (x, row1)" and ps: "ps = p1 @ p2"
    and ssl: "(\<exists>d. ei_ssl_days info = Some d \<and> check_ssl row1 \<and> expiry_ssl row1 d = Inr (row2, p1)) \<or>
     (ei_ssl_days info = None \<or> \<not> check_ssl row1) \<and> row2 = row1 \<and> p1 = []"
    and dm: "(\<exists>d. ei_domain_days info = Some d \<and> check_domain row2 \<and> expiry_dom row2 d doms = Inr (row', p2, doms')) \<or>
     (ei_domain_days info = None \<or> \<not> check_domain row2) \<and> row' = row2 \<and> p2 = [] \<and> doms' = doms"
    by (rule apply_expiry_cases)
  note f = sync_frame [OF s]
  have row2: "expiry_snooze row2 = expiry_snooze row1" "domain_alerted_days row2 = domain_alerted_days row" "check_domain row2 = check_domain row"
      "domain_days row2 = domain_days row1" "ck_id row2 = ck_id row" "ck_target row2 = ck_target row" "ck_name row2 = ck_name row"
    using ssl expiry_ssl_frame f by auto
  have kinds: "\<forall>p\<in>set p1. pd_kind p = ''ssl''" "\<forall>p\<in>set p2. pd_kind p = ''domain''"
    using ssl dm expiry_ssl_pending expiry_dom_pending by fastforce+
  have "expiry_snooze row' = expiry_snooze row1" using dm expiry_dom_frame row2(1) by auto
  then have g': "snz_get row' k = snz_get row1 k" for k by (simp add: snz_get_def)
  have "snz_days (expiry_save row info now) kind = Some d"
    using assms(2,7) by (auto simp: snz_days_def term_read_def split: if_splits)
  then have g: "snz_get row1 kind = (if d > d0 + 2 then None else Some ?e)" and days: "snz_days row1 kind = Some d"
    using sync_entry [OF s, of kind m d0 who t d] assms(2-4) f by (auto simp: snz_get_def RENEW_SLACK_def snz_days_def)
  show ?thesis
  proof (cases "kind = ''ssl''")
    case True
    have r1: "ssl_days row1 = Some d" using days by (simp add: snz_days_def True)
    have e: "expiry_ssl row1 d = Inr (row2, p1)"
      using ssl assms(6,7) f by (auto simp: term_watched_def term_read_def True)
    note sn = expiry_ssl_snoozed [OF e, of m d0 who t]
    have 1: "p1 = []" if "m < d" "d \<le> d0 + 2"
      using sn(1) g that assms(4) r1 by (simp add: RENEW_SLACK_def True)
    have 2: "\<exists>b\<le>m. p1 = [mk_pending ''ssl'' row1 (SslExpires d) [SslAlerted b]]"
      if "d \<le> m" "\<forall>a. ssl_alerted_days row = Some a \<longrightarrow> m < a"
      using sn(2) g that assms(4,5) r1 f by (simp add: RENEW_SLACK_def True)
    show ?thesis
      using 1 2 kinds(2) g g' ps by (fastforce simp: mk_pending_def term_told_def reminds_def True)
  next
    case False
    then have k: "kind = ''domain''" using assms(2) by simp
    have r2: "domain_days row2 = Some d" using days row2(4) by (simp add: snz_days_def k)
    have e: "expiry_dom row2 d doms = Inr (row', p2, doms')"
      using dm assms(6,7) row2(3) by (auto simp: term_watched_def term_read_def k)
    have g2: "snz_get row2 ''domain'' = (if d > d0 + 2 then None else Some ?e)" using g row2(1) by (simp add: snz_get_def k)
    have said: "said_elsewhere doms row2 b = said_elsewhere doms row b" for b unfolding said_elsewhere_def row2 ..
    note sn = expiry_dom_snoozed [OF e, of m d0 who t, unfolded said]
    have 1: "p2 = []" if "m < d" "d \<le> d0 + 2"
      using sn(1) g2 that assms(4) r2 by (simp add: RENEW_SLACK_def)
    have 2: "\<exists>b\<le>m. if said_elsewhere doms row b then p2 = [] \<and> domain_alerted_days row' = Some b
            else \<exists>zone n. p2 = [mk_pending ''domain'' row2 (DomainExpires zone d n) [DomainAlerted b]]"
      if "d \<le> m" "\<forall>a. domain_alerted_days row = Some a \<longrightarrow> m < a"
      using sn(2) g2 that assms(4,5) r2 row2(2) by (simp add: RENEW_SLACK_def)
    have 3: "\<exists>b\<le>m. if said_elsewhere doms row b then domain_alerted_days row' = Some b else \<exists>p\<in>set ps. reminds ''domain'' d b p"
      if "d \<le> m" "\<forall>a. domain_alerted_days row = Some a \<longrightarrow> m < a"
    proof -
      from 2 [OF that] obtain b where b: "b \<le> m" "if said_elsewhere doms row b then p2 = [] \<and> domain_alerted_days row' = Some b
            else \<exists>zone n. p2 = [mk_pending ''domain'' row2 (DomainExpires zone d n) [DomainAlerted b]]" by blast
      then show ?thesis
        by (intro exI [of _ b]) (auto simp: ps reminds_def mk_pending_def split: if_splits)
    qed
    have 4: "\<forall>p\<in>set ps. pd_kind p \<noteq> ''domain''" if "m < d" "d \<le> d0 + 2" using 1 [OF that] kinds(1) ps by auto
    have "snz_get row' ''domain'' = None" if "d0 + 2 < d" using g g' that by (simp add: k)
    with 3 4 show ?thesis unfolding k by (simp add: term_told_def split del: if_split)
  qed
qed

theorem snoozed_term_returns_witness:
  "let row = check0\<lparr>ssl_warn_days := [], expiry_snooze := PDict [(''ssl'', PDict (snz_entry 7 (Some 20) ''root'' 0))]\<rparr> in
   \<exists>r. apply_expiry row (ssl_info 6) 0 None = Inr r \<and> (\<exists>b\<le>7. \<exists>p\<in>set (fst (snd r)). reminds ''ssl'' 6 b p)"
proof -
  let ?row = "check0\<lparr>ssl_warn_days := [], expiry_snooze := PDict [(''ssl'', PDict (snz_entry 7 (Some 20) ''root'' 0))]\<rparr>"
  have "case apply_expiry ?row (ssl_info 6) 0 None of Inr _ \<Rightarrow> True | Inl _ \<Rightarrow> False"
    by code_simp
  then obtain row' ps doms' where r: "apply_expiry ?row (ssl_info 6) 0 None = Inr (row', ps, doms')"
    by (cases "apply_expiry ?row (ssl_info 6) 0 None") auto
  have "snz_get ?row ''ssl'' = Some (snz_entry 7 (Some 20) ''root'' 0)" "term_watched ?row ''ssl''" "term_read (ssl_info 6) ''ssl'' = Some 6"
    "term_told ?row ''ssl'' = None"
    by (simp_all add: snz_get_def check0_def ssl_info_def term_watched_def term_read_def term_told_def)
  with snoozed_term_returns [OF r _ this(1) _ _ this(2,3)] r show ?thesis by auto
qed

end
