(* ===== verification/Presence.thy ===== *)
theory Presence
  imports Panel_Rows
begin

text \<open>
  Is a server there?  What the panel makes of the time of the last report: the grace after a start or a pause of
  the panel itself (\<open>collector.note_pause\<close> and its neighbours), the announced stop of a server (\<open>going_down.py\<close>),
  the warm-up after a boot (\<open>boot_warmup.py\<close>) and the decision about the alert "unreachable"
  (the part of \<open>collector._server_conditions\<close> that fills \<open>out["offline"]\<close>).

  The panel's own start time is an argument where the code reads the global \<open>_PANEL_STARTED\<close>.
\<close>

named_theorems presence_defs \<open>constants of the presence component\<close>

section \<open>Start and pause of the panel\<close>

definition START_GRACE_SECONDS :: int where [presence_defs]: "START_GRACE_SECONDS = 180"
definition PAUSE_POLL_SECONDS :: int where [presence_defs]: "PAUSE_POLL_SECONDS = 10"
definition PAUSE_GAP_SECONDS :: int where [presence_defs]: "PAUSE_GAP_SECONDS = 60"

definition panel_just_started :: "time \<Rightarrow> time \<Rightarrow> bool" where
  "panel_just_started started now \<longleftrightarrow> now - started < sec START_GRACE_SECONDS"

definition note_pause :: "time \<Rightarrow> time \<Rightarrow> time" where
  "note_pause now started = (if now > started then now else started)"

text \<open>One turn of the loop of \<open>pause_watch\<close>: the clock before and after the sleep.\<close>

definition pause_turn :: "time \<Rightarrow> time \<Rightarrow> time \<Rightarrow> time" where
  "pause_turn prev cur started =
     (if cur - prev > sec (PAUSE_POLL_SECONDS + PAUSE_GAP_SECONDS) then note_pause cur started else started)"

text \<open>\<open>int((s.alert_state or {}).get(key, 0) or 0)\<close>\<close>

definition alert_level :: "dict option \<Rightarrow> string \<Rightarrow> int res" where
  "alert_level st key = py_int (por (dget_or (or_empty st) key (PInt 0)) (PInt 0))"

definition awaiting_after_pause :: "time \<Rightarrow> server \<Rightarrow> time \<Rightarrow> bool res" where
  "awaiting_after_pause started s now =
     (case last_seen s of
        None \<Rightarrow> Inr False
      | Some seen \<Rightarrow>
          if \<not> panel_just_started started now then Inr False
          else rbind (alert_level (alert_state s) ''offline'') (\<lambda>lvl.
            if lvl \<noteq> 0 then Inr False else Inr (dt_utc (aware seen) < started)))"

definition seen_online :: "server \<Rightarrow> time \<Rightarrow> bool" where
  "seen_online s now =
     (case last_seen s of
        None \<Rightarrow> False
      | Some seen \<Rightarrow> now - dt_utc (aware seen) \<le> sec (max (offline_after_seconds s) 30))"

section \<open>going_down.py\<close>

definition going_KINDS :: "string list" where [presence_defs]:
  "going_KINDS = [''reboot'', ''poweroff'', ''shutdown'', ''stop'']"
definition going_WAIT :: int where [presence_defs]: "going_WAIT = 900"
definition going_RACE :: int where [presence_defs]: "going_RACE = 30"

definition going_make :: "string \<Rightarrow> time \<Rightarrow> dict" where
  "going_make kind now =
     [(''at'', PStr (iso now)), (''kind'', PStr (if kind \<in> set going_KINDS then kind else ''shutdown''))]"

record notice =
  nt_at :: time
  nt_kind :: string

text \<open>\<open>str(v.get("at") or "")\<close> may be any text.\<close>

definition going_notice :: "dict option \<Rightarrow> notice option" where
  "going_notice rep =
     (case dget (or_empty rep) ''going_down'' of
        PDict v \<Rightarrow>
          (case dget v ''kind'' of
             PStr k \<Rightarrow>
               if k \<notin> set going_KINDS then None
               else (case fromisoformat (py_str (por (dget v ''at'') (PStr []))) of
                       None \<Rightarrow> None
                     | Some t \<Rightarrow> Some \<lparr>nt_at = dt_utc (aware t), nt_kind = k\<rparr>)
           | _ \<Rightarrow> None)
      | _ \<Rightarrow> None)"

definition going_system :: "notice option \<Rightarrow> bool" where
  "going_system n = (case n of None \<Rightarrow> False | Some x \<Rightarrow> nt_kind x \<noteq> ''stop'')"

definition going_holds :: "dict option \<Rightarrow> time \<Rightarrow> bool" where
  "going_holds rep now =
     (case going_notice rep of
        None \<Rightarrow> False
      | Some n \<Rightarrow> going_system (Some n) \<and> now - nt_at n < sec going_WAIT)"

definition going_carry :: "dict option \<Rightarrow> time \<Rightarrow> bool \<Rightarrow> py" where
  "going_carry prev now rebooted =
     (case going_notice prev of
        None \<Rightarrow> PNone
      | Some n \<Rightarrow> if rebooted \<or> now - nt_at n \<ge> sec going_RACE then PNone else dget (or_empty prev) ''going_down'')"

definition going_view :: "dict option \<Rightarrow> bool \<Rightarrow> time \<Rightarrow> dict option" where
  "going_view rep online now =
     (case going_notice rep of
        None \<Rightarrow> None
      | Some n \<Rightarrow>
          if online then None
          else Some [(''kind'', PStr (nt_kind n)), (''at'', PStr (iso (nt_at n))),
                     (''wait'', PBool (going_system (Some n) \<and> now - nt_at n < sec going_WAIT))])"

section \<open>boot_warmup.py\<close>

definition warm_WINDOW :: int where [presence_defs]: "warm_WINDOW = 600"
definition warm_MAX :: int where [presence_defs]: "warm_MAX = 1200"

definition warm_ts :: "py \<Rightarrow> time option" where
  "warm_ts v = (case v of PStr s \<Rightarrow> if s = [] then None else map_option (\<lambda>t. dt_utc (aware t)) (fromisoformat s) | _ \<Rightarrow> None)"

definition came_back :: "dt option \<Rightarrow> time \<Rightarrow> int \<Rightarrow> time \<Rightarrow> bool" where
  "came_back seen now silent_after panel_started =
     (case seen of
        None \<Rightarrow> False
      | Some d \<Rightarrow> dt_utc (aware d) \<ge> panel_started \<and> now - dt_utc (aware d) > sec silent_after)"

definition keep_back :: "py \<Rightarrow> time \<Rightarrow> py" where
  "keep_back prev now = (case warm_ts prev of Some t \<Rightarrow> if now - t < sec warm_MAX then prev else PNone | None \<Rightarrow> PNone)"

text \<open>\<open>_aware(last_seen) - timedelta(seconds=float(up))\<close> for a positive number: the difference is rounded to
  microseconds, and leaves the range of \<open>datetime\<close> with an OverflowError.\<close>

definition boot_moment :: "time \<Rightarrow> py \<Rightarrow> time res" where
  "boot_moment seen up =
     (case num_val up of
        None \<Rightarrow> Inl OverflowError
      | Some r \<Rightarrow> (let t = seen - round_half_even (r * 1000000) in if time_ok t then Inr t else Inl OverflowError))"

text \<open>\<open>isinstance(up, (int, float)) and up > 0\<close>\<close>

definition pos_number :: "py \<Rightarrow> bool" where
  "pos_number up = (case up of PFlt PosInf \<Rightarrow> True | _ \<Rightarrow> (case num_val up of None \<Rightarrow> False | Some r \<Rightarrow> r > 0))"

definition warm_started_at :: "dict \<Rightarrow> dt option \<Rightarrow> time option res" where
  "warm_started_at rep seen =
     rbind (case seen of
              None \<Rightarrow> Inr []
            | Some d \<Rightarrow> if pos_number (dget rep ''uptime_seconds'')
                        then rbind (boot_moment (dt_utc (aware d)) (dget rep ''uptime_seconds'')) (\<lambda>t. Inr [t])
                        else Inr []) (\<lambda>out.
       let out = out @ (case warm_ts (dget rep ''back_at'') of None \<Rightarrow> [] | Some t \<Rightarrow> [t])
       in Inr (case out of [] \<Rightarrow> None | t # ts \<Rightarrow> Some (fold max ts t)))"

definition POD_OWNERS :: "string list" where
  "POD_OWNERS = [''Deployment'', ''StatefulSet'', ''ReplicaSet'', ''DaemonSet'']"

definition POD_FINISHED :: "string list" where
  "POD_FINISHED = [''Succeeded'', ''Failed'']"

text \<open>\<open>v in {...}\<close> for a set of strings; an unhashable value raises.\<close>

definition in_strs :: "py \<Rightarrow> string list \<Rightarrow> bool res" where
  "in_strs v xs = (case v of PStr s \<Rightarrow> Inr (s \<in> set xs) | PList _ \<Rightarrow> Inl TypeError | PDict _ \<Rightarrow> Inl TypeError | _ \<Rightarrow> Inr False)"

text \<open>Iteration over a value.\<close>

definition py_iter :: "py \<Rightarrow> py list res" where
  "py_iter v = (case v of PList xs \<Rightarrow> Inr xs | PStr s \<Rightarrow> Inr (map (\<lambda>c. PStr [c]) s) | PDict d \<Rightarrow> Inr (map (\<lambda>(k, _). PStr k) d)
     | _ \<Rightarrow> Inl TypeError)"

definition bad_pod :: "py \<Rightarrow> bool res" where
  "bad_pod p =
     rbind (pget p ''owner'') (\<lambda>owner. rbind (in_strs owner POD_OWNERS) (\<lambda>a.
       if \<not> a then Inr False
       else rbind (pget p ''phase'') (\<lambda>phase. rbind (in_strs phase POD_FINISHED) (\<lambda>b.
         if b then Inr False
         else rbind (pget p ''ready'') (\<lambda>ready. Inr (\<not> (phase = PStr ''Running'' \<and> ready \<noteq> PBool False)))))))"

definition kube_bad_pods :: "dict \<Rightarrow> py list res" where
  "kube_bad_pods rep =
     rbind (pget (por (dget rep ''kube'') (PDict [])) ''pods'') (\<lambda>pods.
     rbind (py_iter (por pods (PList []))) (\<lambda>ps.
     rbind (rmap bad_pod ps) (\<lambda>bs. Inr (map fst (filter snd (zip ps bs))))))"

definition warm_starting :: "dict \<Rightarrow> bool res" where
  "warm_starting rep = rbind (kube_bad_pods rep) (\<lambda>ps. Inr (ps \<noteq> []))"

definition warming :: "dict option \<Rightarrow> dt option \<Rightarrow> time \<Rightarrow> bool res" where
  "warming rep seen now =
     rbind (warm_started_at (or_empty rep) seen) (\<lambda>t.
       case t of
         None \<Rightarrow> Inr False
       | Some t \<Rightarrow>
           (let age = now - t
            in if age < sec warm_WINDOW then Inr True
               else if age < sec warm_MAX then warm_starting (or_empty rep) else Inr False))"

section \<open>The alert "unreachable"\<close>

definition OFFLINE_ALERT_EXTRA :: int where [presence_defs]: "OFFLINE_ALERT_EXTRA = 180"
definition OFFLINE_RELAY_EXTRA :: int where [presence_defs]: "OFFLINE_RELAY_EXTRA = 180"

text \<open>\<open>getattr(s, "relay_via_id", None)\<close> counts when it is not 0.\<close>

definition offline_extra :: "server \<Rightarrow> bool \<Rightarrow> int" where
  "offline_extra s quick =
     (if quick then 0 else OFFLINE_ALERT_EXTRA)
     + (case relay_via_id s of Some i \<Rightarrow> if i \<noteq> 0 then OFFLINE_RELAY_EXTRA else 0 | None \<Rightarrow> 0)"

text \<open>The entry \<open>out["offline"]\<close>: none when nothing is decided, else the level and the notice shown with it.
  \<open>starve\<close> is \<open>mem_starve.on_edge\<close> of the last report.\<close>

definition offline_condition :: "time \<Rightarrow> bool \<Rightarrow> server \<Rightarrow> time \<Rightarrow> (int \<times> notice option) option res" where
  "offline_condition started starve s now =
     (case last_seen s of
        None \<Rightarrow> Inr None
      | Some seen \<Rightarrow>
          if panel_just_started started now then Inr None
          else
            (let silent = now - dt_utc (aware seen);
                 online = (silent \<le> sec (max (offline_after_seconds s) 30));
                 alert_off = (silent > sec (max (offline_after_seconds s) 30 + offline_extra s starve)
                              \<and> \<not> going_holds (last_report s) now);
                 gd = (if online then None else going_notice (last_report s))
             in if online then Inr (Some (0, gd))
                else if alert_off then Inr (Some (1, gd))
                else rbind (py_int (dget_or (or_empty (alert_state s)) ''offline'' (PInt 0))) (\<lambda>l. Inr (Some (l, gd)))))"

section \<open>Properties\<close>

text \<open>When the alert "unreachable" is raised for a server that is not under one yet: exactly when the panel itself
  has been up for three minutes, the server is silent for longer than its threshold and the margins of the alert (none
  when it was running out of memory, double behind a relay), and its agent did not announce a stop of the whole system
  within the last quarter of an hour.\<close>

theorem offline_alert_exact:
  assumes "last_seen s = Some seen" "dget_or (or_empty (alert_state s)) ''offline'' (PInt 0) = PInt 0"
  shows "(\<exists>gd. offline_condition started starve s now = Inr (Some (1, gd))) \<longleftrightarrow>
    sec 180 \<le> now - started \<and>
    now - dt_utc seen > sec (max (offline_after_seconds s) 30 + (if starve then 0 else 180)
       + (if relay_via_id s \<in> {None, Some 0} then 0 else 180)) \<and>
    \<not> (\<exists>n. going_notice (last_report s) = Some n \<and> nt_kind n \<noteq> ''stop'' \<and> now - nt_at n < sec 900)"
proof -
  define extra where "extra = offline_extra s starve"
  have ex: "extra = (if starve then 0 else 180) + (if relay_via_id s \<in> {None, Some 0} then 0 else 180)"
    by (auto simp: extra_def offline_extra_def presence_defs split: option.splits)
  have "0 \<le> extra" by (simp add: ex)
  then have *: "now - dt_utc seen > sec (max (offline_after_seconds s) 30 + extra) \<Longrightarrow>
      \<not> now - dt_utc seen \<le> sec (max (offline_after_seconds s) 30)"
    by (simp add: sec_def)
  have h: "going_holds (last_report s) now \<longleftrightarrow>
      (\<exists>n. going_notice (last_report s) = Some n \<and> nt_kind n \<noteq> ''stop'' \<and> now - nt_at n < sec 900)"
    by (auto simp: going_holds_def going_system_def presence_defs split: option.splits)
  have "(\<exists>gd. offline_condition started starve s now = Inr (Some (1, gd))) \<longleftrightarrow>
      \<not> panel_just_started started now \<and> now - dt_utc seen > sec (max (offline_after_seconds s) 30 + extra)
      \<and> \<not> going_holds (last_report s) now"
    using assms * by (auto simp: offline_condition_def Let_def extra_def)
  then show ?thesis
    unfolding h by (auto simp: panel_just_started_def ex presence_defs add.assoc)
qed

theorem offline_alert_exact_witness:
  "\<exists>gd. offline_condition 0 False (server0\<lparr>last_seen := Some (utc (sec 1000))\<rparr>) (sec 1301) = Inr (Some (1, gd))"
  by (subst offline_alert_exact [where seen = "utc (sec 1000)"])
     (simp_all add: server0_def dget_or_def going_notice_def sec_def)

text \<open>A pause of the panel never looks like an outage of its servers: whatever the length of the pause, after the
  turn of the watch that notices it no server is judged for three minutes, and a server that was not under an alert and
  has not reported yet counts as awaited.\<close>

theorem pause_gives_grace:
  assumes "cur - prev > sec 70" "started \<le> cur" "cur \<le> now" "now < cur + sec 180"
    and "last_seen s = Some seen" "dt_utc seen < cur" "dget_or (or_empty (alert_state s)) ''offline'' (PInt 0) = PInt 0"
  shows "offline_condition (pause_turn prev cur started) starve s now = Inr None \<and>
    awaiting_after_pause (pause_turn prev cur started) s now = Inr True"
proof -
  have "pause_turn prev cur started = cur"
    using assms(1,2) by (simp add: pause_turn_def note_pause_def presence_defs)
  then show ?thesis
    using assms by (simp add: offline_condition_def awaiting_after_pause_def panel_just_started_def presence_defs
        alert_level_def por_def)
qed

theorem pause_gives_grace_witness:
  "let s = server0\<lparr>last_seen := Some (utc 0)\<rparr> in
   offline_condition (pause_turn (sec 100) (sec 4000) 0) False s (sec 4100) = Inr None \<and>
   awaiting_after_pause (pause_turn (sec 100) (sec 4000) 0) s (sec 4100) = Inr True"
  unfolding Let_def
  by (rule pause_gives_grace [where seen = "utc 0"]) (simp_all add: sec_def server0_def dget_or_def)

end
