(* ===== verification/Parents.thy ===== *)
theory Parents
  imports Presence Check_Rows Access
begin

text \<open>
  Dependencies between monitors and servers (\<open>parents.py\<close>): which server a monitor stands on, which servers are
  silent or late, and the check that the chain of servers behind servers never closes
  (\<open>parents.would_cycle\<close>, called by \<open>api/servers.update_server\<close>).

  DNS answers are an argument: \<open>resolved\<close> is what \<open>resolve_for\<close> put into the index.
\<close>

section \<open>Hosts\<close>

text \<open>\<open>s.split(sep)\<close> for a separator of several characters.\<close>

function split_str :: "string \<Rightarrow> string \<Rightarrow> string \<Rightarrow> string list" where
  "split_str sep acc s =
     (case s of
        [] \<Rightarrow> [rev acc]
      | c # cs \<Rightarrow> if sep \<noteq> [] \<and> startswith s sep then rev acc # split_str sep [] (drop (length sep) s)
                  else split_str sep (c # acc) cs)"
  by pat_completeness auto
termination by (relation "measure (\<lambda>(_, _, s). length s)") (auto simp: startswith_def)

declare split_str.simps [simp del]

definition strip_dots :: "string \<Rightarrow> string" where
  "strip_dots s = strip_chars (\<lambda>c. c = CHR ''.'') s"

definition target_host :: "check \<Rightarrow> string" where
  "target_host c =
     (let target = lower (strip (ck_target c));
          typ = (if ck_type c = [] then ''http'' else ck_type c)
      in if target = [] \<or> typ = ''push'' \<or> typ = ''dns'' then []
         else if typ = ''http'' then
           (case url_netloc (if contains target ''://'' then target else ''http://'' @ target) of
              Inl _ \<Rightarrow> []
            | Inr n \<Rightarrow> strip_dots (url_hostname n))
         else
           (let t = hd (split_chr CHR ''/'' (last (split_str ''://'' [] target)))
            in if startswith t ''['' then hd (split_chr CHR '']'' (tl t))
               else if length (filter (\<lambda>x. x = CHR '':'') t) > 1 then t
               else strip_dots (hd (split_chr CHR '':'' t))))"

text \<open>\<open>norm_domain\<close> and, word for word the same, \<open>collector._host_of_target\<close>.\<close>

definition norm_domain :: "string \<Rightarrow> string" where
  "norm_domain raw =
     (let d = rstrip_chars (\<lambda>c. c = CHR ''.'') (lower (strip raw));
          d = (if contains d ''://'' then drop (length (hd (split_str ''://'' [] d)) + 3) d else d);
          d = hd (split_chr CHR ''/'' d)
      in hd (split_chr CHR '':'' d))"

definition parent_is_ip :: "string \<Rightarrow> bool" where
  "parent_is_ip host \<longleftrightarrow> ip_address host \<noteq> None"

section \<open>The index of servers\<close>

record index =
  ix_names :: "(int \<times> string) list"
  ix_domains :: "(string \<times> int list) list"
  ix_ips :: "(string \<times> int list) list"
  ix_parent :: "(int \<times> int) list"
  ix_resolved :: "(string \<times> string list) list"

definition index0 :: index where
  "index0 = \<lparr>ix_names = [], ix_domains = [], ix_ips = [], ix_parent = [], ix_resolved = []\<rparr>"

definition ids_at :: "('k \<times> int list) list \<Rightarrow> 'k \<Rightarrow> int list" where
  "ids_at m k = (case map_of m k of None \<Rightarrow> [] | Some xs \<Rightarrow> xs)"

definition add_id :: "'k \<Rightarrow> int \<Rightarrow> ('k \<times> int list) list \<Rightarrow> ('k \<times> int list) list" where
  "add_id k i m = dset k (List.insert i (ids_at m k)) m"

text \<open>The sites a report names: \<open>for web in report["web_services"] or []: for raw in web["sites"] or []\<close>.\<close>

definition site_texts :: "dict option \<Rightarrow> string list res" where
  "site_texts rep =
     rbind (py_iter (por (dget (or_empty rep) ''web_services'') (PList []))) (\<lambda>webs.
     rbind (rmap (\<lambda>web. rbind (pget web ''sites'') (\<lambda>v.
              rbind (py_iter (por v (PList []))) (rmap (\<lambda>raw. case raw of
                  PStr t \<Rightarrow> Inr t
                | _ \<Rightarrow> if truthy raw then Inl AttributeError else Inr [])))) webs) (\<lambda>tss. Inr (concat tss)))"

definition index_server :: "server \<Rightarrow> index \<Rightarrow> index res" where
  "index_server s idx =
     rbind (site_texts (last_report s)) (\<lambda>sites.
       let ds = filter (\<lambda>d. d \<noteq> [] \<and> CHR ''*'' \<notin> set d \<and> \<not> startswith d ''~'') (map norm_domain sites);
           ips = filter (\<lambda>ip. ip \<noteq> [] \<and> parent_is_ip ip) [strip (external_ip s), strip (agent_ip s)]
       in Inr (idx\<lparr>ix_names := dset (sid s) (srv_name s) (ix_names idx),
            ix_parent := (case srv_parent_id s of
                            Some p \<Rightarrow> if p \<noteq> 0 then dset (sid s) p (ix_parent idx) else ix_parent idx
                          | None \<Rightarrow> ix_parent idx),
            ix_domains := fold (\<lambda>d. add_id d (sid s)) ds (ix_domains idx),
            ix_ips := fold (\<lambda>ip. add_id ip (sid s)) ips (ix_ips idx)\<rparr>))"

fun index_of :: "server list \<Rightarrow> index \<Rightarrow> index res" where
  "index_of [] idx = Inr idx"
| "index_of (s # ss) idx = rbind (index_server s idx) (index_of ss)"

section \<open>Parents of a monitor\<close>

text \<open>\<open>_dns_owner\<close>: every address of the domain must belong to one and the same server.\<close>

definition dns_owner :: "string \<Rightarrow> index \<Rightarrow> int option" where
  "dns_owner host idx =
     (case map_of (ix_resolved idx) host of
        None \<Rightarrow> None
      | Some ips \<Rightarrow>
          (let owners = map (\<lambda>ip. ids_at (ix_ips idx) ip) ips
           in if ips = [] \<or> list_ex (\<lambda>o'. length o' \<noteq> 1) owners then None
              else (case remdups (concat owners) of [i] \<Rightarrow> Some i | _ \<Rightarrow> None)))"

definition has_name :: "index \<Rightarrow> int option \<Rightarrow> bool" where
  "has_name idx pid = (case pid of None \<Rightarrow> False | Some i \<Rightarrow> dhas (ix_names idx) i)"

definition parents_of :: "check \<Rightarrow> index \<Rightarrow> (int \<times> string) list" where
  "parents_of c idx =
     (let mode = (case parent_mode c of Some m \<Rightarrow> if m \<noteq> [] then m else ''auto'' | None \<Rightarrow> ''auto'')
      in if mode = ''off'' then []
         else if mode = ''server'' then
           (if has_name idx (parent_server_id c) then [(the (parent_server_id c), ''manual'')] else [])
         else if probe_local c \<and> has_name idx (probe_server_id c) then [(the (probe_server_id c), ''local'')]
         else
           (let host = target_host c
            in if host = [] then []
               else
                 (let (ids, why) =
                    (if parent_is_ip host then (ids_at (ix_ips idx) host, ''ip'')
                     else case dns_owner host idx of
                       Some ow \<Rightarrow> if ow \<noteq> 0 \<and> ids_at (ix_domains idx) host \<noteq> [ow] then ([ow], ''ip'')
                                  else (ids_at (ix_domains idx) host, ''site'')
                     | None \<Rightarrow> (ids_at (ix_domains idx) host, ''site''))
                  in case ids of [i] \<Rightarrow> [(i, why)] | _ \<Rightarrow> [])))"

definition dns_host :: "check \<Rightarrow> index \<Rightarrow> string" where
  "dns_host c idx =
     (let mode = (case parent_mode c of Some m \<Rightarrow> if m \<noteq> [] then m else ''auto'' | None \<Rightarrow> ''auto'')
      in if mode \<noteq> ''auto'' then []
         else if probe_local c \<and> has_name idx (probe_server_id c) then []
         else (let host = target_host c in if host = [] \<or> parent_is_ip host then [] else host))"

definition LATE_S :: int where "LATE_S = 60"

definition silent_ids :: "server list \<Rightarrow> time \<Rightarrow> bool \<Rightarrow> int list" where
  "silent_ids servers now just_started =
     (if just_started then []
      else map sid (filter (\<lambda>s. enabled s \<and> last_seen s \<noteq> None \<and> \<not> seen_online s now) servers))"

definition late_ids :: "server list \<Rightarrow> time \<Rightarrow> bool \<Rightarrow> int list" where
  "late_ids servers now just_started =
     (if just_started then []
      else map sid (filter (\<lambda>s. case last_seen s of
             None \<Rightarrow> False
           | Some seen \<Rightarrow>
               (let off = (if offline_after_seconds s = 0 then 120 else offline_after_seconds s);
                    lim = min LATE_S (max off 30)
                in enabled s \<and> now - dt_utc (aware seen) > sec lim)) servers))"

definition held_by :: "check \<Rightarrow> index \<Rightarrow> int list \<Rightarrow> int option" where
  "held_by c idx silent = find (\<lambda>pid. pid \<in> set silent) (map fst (parents_of c idx))"

section \<open>Servers behind servers\<close>

function cycle_loop :: "(int \<times> int) list \<Rightarrow> int list \<Rightarrow> int \<Rightarrow> bool" where
  "cycle_loop parent_of seen cur =
     (if cur \<in> set seen then True
      else case map_of parent_of cur of
        None \<Rightarrow> False
      | Some nxt \<Rightarrow> cycle_loop parent_of (cur # seen) nxt)"
  by pat_completeness auto
termination
proof (relation "measure (\<lambda>(p, seen, cur). card (fst ` set p - set seen))")
  fix p seen and cur nxt :: int
  assume c: "cur \<notin> set seen" and m: "map_of p cur = Some nxt"
  have "cur \<in> fst ` set p"
    using m by (force dest: map_of_SomeD)
  with c have "fst ` set p - set (cur # seen) \<subset> fst ` set p - set seen"
    by auto
  then show "((p, cur # seen, nxt), (p, seen, cur)) \<in> measure (\<lambda>(p, seen, cur). card (fst ` set p - set seen))"
    by (simp add: psubset_card_mono)
qed simp

declare cycle_loop.simps [simp del]

definition would_cycle :: "int \<Rightarrow> int \<Rightarrow> (int \<times> int) list \<Rightarrow> bool" where
  "would_cycle server_id parent_id parent_of = cycle_loop parent_of [server_id] parent_id"

definition srv_get_or_404 :: "server list \<Rightarrow> int \<Rightarrow> user option \<Rightarrow> server answer" where
  "srv_get_or_404 servers i u =
     (case find (\<lambda>s. sid s = i) servers of
        None \<Rightarrow> Inl (ApiError 404 ''not_found'')
      | Some s \<Rightarrow> (case u of
                     Some v \<Rightarrow> if group_allowed v (srv_group s) ''servers'' then Inr s else Inl (ApiError 404 ''not_found'')
                   | None \<Rightarrow> Inr s))"

text \<open>\<open>{i: p for i, p in ... if p}\<close>\<close>

definition parent_chain :: "server list \<Rightarrow> (int \<times> int) list" where
  "parent_chain servers = concat (map (\<lambda>t. case srv_parent_id t of
     Some p \<Rightarrow> if p \<noteq> 0 then [(sid t, p)] else [] | None \<Rightarrow> []) servers)"

text \<open>The part of \<open>update_server\<close> that changes \<open>parent_id\<close>.\<close>

definition set_parent :: "user \<Rightarrow> int \<Rightarrow> int option \<Rightarrow> server list \<Rightarrow> server list answer" where
  "set_parent u i new servers =
     (case srv_get_or_404 servers i (Some u) of
        Inl e \<Rightarrow> Inl e
      | Inr s \<Rightarrow>
          (let ok = map (\<lambda>t. if sid t = i then t\<lparr>srv_parent_id := new\<rparr> else t) servers
           in if new = srv_parent_id s then Inr ok
              else case new of
                None \<Rightarrow> Inr ok
              | Some pid \<Rightarrow>
                  if pid = sid s then Inl (ApiError 400 ''self'')
                  else case srv_get_or_404 servers pid (Some u) of
                    Inl e \<Rightarrow> Inl e
                  | Inr _ \<Rightarrow>
                      if would_cycle (sid s) pid (parent_chain servers) then Inl (ApiError 400 ''cycle'') else Inr ok))"

section \<open>Lemmas\<close>

definition chain_edges :: "(int \<times> int) list \<Rightarrow> (int \<times> int) set" where
  "chain_edges m = {(a, b). map_of m a = Some b}"

lemma cycle_loop_reaches:
  assumes "acyclic (chain_edges m)" "s \<in> set seen" "\<forall>x\<in>set seen. x = s \<or> (x, cur) \<in> (chain_edges m)\<^sup>+"
  shows "cycle_loop m seen cur \<longleftrightarrow> (cur, s) \<in> (chain_edges m)\<^sup>*"
  using assms
proof (induction m seen cur rule: cycle_loop.induct)
  case (1 m seen cur)
  let ?E = "chain_edges m"
  show ?case
  proof (cases "cur \<in> set seen")
    case True
    with "1.prems" have "cur = s" by (auto simp: acyclic_def)
    with True show ?thesis by (simp add: cycle_loop.simps [of m])
  next
    case False
    then have ns: "cur \<noteq> s" using "1.prems"(2) by auto
    show ?thesis
    proof (cases "map_of m cur")
      case None
      then have "(cur, s) \<notin> ?E\<^sup>*" using ns by (auto elim: converse_rtranclE simp: chain_edges_def)
      with None False show ?thesis by (simp add: cycle_loop.simps [of m])
    next
      case (Some nxt)
      then have e: "(cur, y) \<in> ?E \<longleftrightarrow> y = nxt" for y by (auto simp: chain_edges_def)
      have "\<forall>x\<in>set (cur # seen). x = s \<or> (x, nxt) \<in> ?E\<^sup>+"
        using "1.prems"(3) e by (auto intro: trancl_into_trancl)
      with "1.IH" [OF False Some] "1.prems" have "cycle_loop m (cur # seen) nxt \<longleftrightarrow> (nxt, s) \<in> ?E\<^sup>*"
        by simp
      also have "\<dots> \<longleftrightarrow> (cur, s) \<in> ?E\<^sup>*"
        using e ns by (metis converse_rtranclE converse_rtrancl_into_rtrancl)
      finally show ?thesis using Some False by (simp add: cycle_loop.simps [of m])
    qed
  qed
qed

lemma would_cycle_iff:
  "acyclic (chain_edges m) \<Longrightarrow> would_cycle s p m \<longleftrightarrow> \<not> acyclic (insert (s, p) (chain_edges m))"
  using cycle_loop_reaches [of m s "[s]" p] by (simp add: would_cycle_def acyclic_insert)

text \<open>Who stands behind whom; a parent 0 counts as none in the code.\<close>

definition parent_edges :: "server list \<Rightarrow> (int \<times> int) set" where
  "parent_edges ss = {(sid s, p) | s p. s \<in> set ss \<and> srv_parent_id s = Some p \<and> p \<noteq> 0}"

lemma chain_edges_parents: "distinct (map sid ss) \<Longrightarrow> chain_edges (parent_chain ss) = parent_edges ss"
proof (induction ss)
  case (Cons t ss)
  have "fst ` set (parent_chain ss) \<subseteq> sid ` set ss"
    by (auto simp: parent_chain_def split: option.splits if_splits)
  with Cons.prems have "map_of (parent_chain ss) (sid t) = None"
    by (auto simp: map_of_eq_None_iff)
  then have "chain_edges (parent_chain (t # ss)) =
      (case srv_parent_id t of Some p \<Rightarrow> if p \<noteq> 0 then {(sid t, p)} else {} | None \<Rightarrow> {}) \<union> chain_edges (parent_chain ss)"
    by (auto simp: chain_edges_def parent_chain_def split: option.splits if_splits)
  also have "\<dots> = parent_edges (t # ss)"
    using Cons by (auto simp: parent_edges_def split: option.splits)
  finally show ?case .
qed (simp add: chain_edges_def parent_chain_def parent_edges_def)

lemma parent_edges_set:
  "parent_edges (map (\<lambda>t. if sid t = i then t\<lparr>srv_parent_id := new\<rparr> else t) ss)
     \<subseteq> parent_edges ss \<union> (case new of Some p \<Rightarrow> {(i, p)} | None \<Rightarrow> {})"
  by (force simp: parent_edges_def split: if_splits option.splits)

lemma srv_get_or_404_D: "srv_get_or_404 ss i u = Inr s \<Longrightarrow> s \<in> set ss \<and> sid s = i"
  by (auto simp: srv_get_or_404_def find_Some_iff split: option.splits if_splits)

lemma set_parent_step:
  assumes "acyclic (parent_edges ss)" "distinct (map sid ss)" "set_parent u i new ss = Inr ss'"
  shows "acyclic (parent_edges ss') \<and> map sid ss' = map sid ss"
proof -
  let ?ok = "map (\<lambda>t. if sid t = i then t\<lparr>srv_parent_id := new\<rparr> else t) ss"
  from assms(3) obtain s where s: "srv_get_or_404 ss i (Some u) = Inr s"
    by (auto simp: set_parent_def split: sum.splits)
  with srv_get_or_404_D [OF this] have sid: "sid s = i" "s \<in> set ss" by auto
  have ok: "ss' = ?ok"
    using assms(3) s by (auto simp: set_parent_def Let_def split: if_splits option.splits sum.splits)
  have ids: "map sid ss' = map sid ss"
    by (simp add: ok comp_def)
  have "acyclic (parent_edges ?ok)"
  proof (cases "new = srv_parent_id s \<or> new = None")
    case True
    have "parent_edges ?ok \<subseteq> parent_edges ss"
    proof (cases "new = None")
      case True
      then show ?thesis using parent_edges_set [of i new ss] by simp
    next
      case False
      with \<open>new = srv_parent_id s \<or> new = None\<close> have "new = srv_parent_id s" by simp
      moreover have "t = s" if "t \<in> set ss" "sid t = i" for t
        using that sid assms(2) by (metis distinct_map inj_onD)
      ultimately have "?ok = ss" by (intro map_idI) auto
      then show ?thesis by simp
    qed
    then show ?thesis using assms(1) by (rule acyclic_subset [rotated])
  next
    case False
    then obtain p where p: "new = Some p" by auto
    with False s assms(3) sid have "\<not> would_cycle i p (parent_chain ss)"
      by (auto simp: set_parent_def Let_def split: if_splits sum.splits)
    then have "acyclic (insert (i, p) (parent_edges ss))"
      using would_cycle_iff [of "parent_chain ss" i p] chain_edges_parents [OF assms(2)] assms(1) by simp
    moreover have "parent_edges ?ok \<subseteq> insert (i, p) (parent_edges ss)"
      using parent_edges_set [of i new ss] p by auto
    ultimately show ?thesis by (rule acyclic_subset)
  qed
  with ok ids show ?thesis by simp
qed

section \<open>Properties\<close>

text \<open>C31. The walk along the chain of parents always ends, and refuses a link exactly when it would close a loop: on a
  chain without loops \<open>would_cycle\<close> is true just if the chain with the new link has one.\<close>

theorem would_cycle_exact:
  assumes "acyclic {(a, b). map_of parent_of a = Some b}"
  shows "would_cycle s p parent_of \<longleftrightarrow> \<not> acyclic (insert (s, p) {(a, b). map_of parent_of a = Some b})"
  using would_cycle_iff [of parent_of s p] assms by (simp add: chain_edges_def)

theorem would_cycle_exact_witness:
  "would_cycle 1 3 [(3, 2), (2, 1)] \<longleftrightarrow> \<not> acyclic (insert (1, 3) {(a, b). map_of [(3, 2), (2, 1::int)] a = Some b})"
proof (rule would_cycle_exact)
  show "acyclic {(a, b). map_of [(3, 2), (2, 1::int)] a = Some b}"
    by (rule acyclicI_order [where f = "\<lambda>x. x"]) (auto split: if_splits)
qed

text \<open>C30. Whatever changes of parents are accepted, in any order and by any accounts, no server ever stands behind itself:
  a set of servers whose chain has no loop keeps none.\<close>

theorem parents_stay_acyclic:
  assumes "(\<lambda>ss ss'. \<exists>u i new. set_parent u i new ss = Inr ss')\<^sup>*\<^sup>* ss ss'"
    and "acyclic {(sid s, p) | s p. s \<in> set ss \<and> srv_parent_id s = Some p \<and> p \<noteq> 0}" "distinct (map sid ss)"
  shows "acyclic {(sid s, p) | s p. s \<in> set ss' \<and> srv_parent_id s = Some p \<and> p \<noteq> 0}"
proof -
  have "acyclic (parent_edges ss') \<and> map sid ss' = map sid ss"
    using assms(1)
  proof (induction rule: rtranclp_induct)
    case base
    then show ?case using assms(2) by (simp add: parent_edges_def)
  next
    case (step y z)
    then show ?case using set_parent_step [of y] assms(3) by metis
  qed
  then show ?thesis by (simp add: parent_edges_def)
qed


theorem parents_stay_acyclic_witness:
  "\<exists>ss'. set_parent user0 2 (Some 1) [server0, server0\<lparr>sid := 2\<rparr>] = Inr ss' \<and>
     acyclic {(sid s, p) | s p. s \<in> set ss' \<and> srv_parent_id s = Some p \<and> p \<noteq> 0}"
proof -
  let ?ss = "[server0, server0\<lparr>sid := 2\<rparr>]"
  have "case set_parent user0 2 (Some 1) ?ss of Inr _ \<Rightarrow> True | Inl _ \<Rightarrow> False"
    by code_simp
  then obtain ss' where s: "set_parent user0 2 (Some 1) ?ss = Inr ss'"
    by (cases "set_parent user0 2 (Some 1) ?ss") auto
  have e: "{(sid s, p) | s p. s \<in> set ?ss \<and> srv_parent_id s = Some p \<and> p \<noteq> 0} = {}"
    by (auto simp: server0_def)
  have "acyclic {(sid s, p) | s p. s \<in> set ss' \<and> srv_parent_id s = Some p \<and> p \<noteq> 0}"
  proof (rule parents_stay_acyclic [of ?ss])
    show "(\<lambda>ss ss'. \<exists>u i new. set_parent u i new ss = Inr ss')\<^sup>*\<^sup>* ?ss ss'"
      using s by blast
    show "acyclic {(sid s, p) | s p. s \<in> set ?ss \<and> srv_parent_id s = Some p \<and> p \<noteq> 0}"
      unfolding e by (simp add: acyclic_def)
  qed (simp add: server0_def)
  with s show ?thesis by blast
qed

end
