(* ===== verification/Site_Health.thy ===== *)
theory Site_Health
  imports Py_Datetime
begin

text \<open>
  Partial failures and blinking of a monitored site: \<open>backend/app/flaky.py\<close> and
  \<open>backend/app/site_flap.py\<close>.  The lemmas relate the loop over the history to the maximal
  series of failures it is meant to count, bound its result by the window, and state what the
  entry and the exit of the two conditions require of the history.
\<close>

named_theorems site_defs \<open>definitions of the site health component\<close>

section \<open>flaky.py: the site answers every other time\<close>

definition flaky_WINDOW :: nat where [site_defs]: "flaky_WINDOW = 20"
definition flaky_FAILS :: nat where [site_defs]: "flaky_FAILS = 4"
definition flaky_RUNS :: nat where [site_defs]: "flaky_RUNS = 3"
definition flaky_CLEAR :: nat where [site_defs]: "flaky_CLEAR = 1"

text \<open>The first loop of \<open>short_failures\<close>: \<open>i\<close> is the index, \<open>n\<close> the length of the running
  series; a series is recorded as (index past its end, length).\<close>

fun down_runs :: "nat \<Rightarrow> nat \<Rightarrow> string list \<Rightarrow> (nat \<times> nat) list" where
  "down_runs i n [] = (if n > 0 then [(i, n)] else [])"
| "down_runs i n (st # sts) =
     (if st = ''down'' then down_runs (Suc i) (Suc n) sts
      else if n > 0 then (i, n) # down_runs (Suc i) 0 sts
      else down_runs (Suc i) 0 sts)"

text \<open>The second loop: series of \<open>long_run\<close> and more are left to the ordinary alert, of the
  others only the part inside the window counts.\<close>

fun count_short :: "int \<Rightarrow> nat \<Rightarrow> (nat \<times> nat) list \<Rightarrow> nat \<times> nat" where
  "count_short long_run lo [] = (0, 0)"
| "count_short long_run lo ((e, len) # rs) =
     (let (fails, cnt) = count_short long_run lo rs in
      if int len \<ge> long_run then (fails, cnt)
      else (let inside = e - max (e - len) lo in
            if inside > 0 then (fails + inside, cnt + 1) else (fails, cnt)))"

definition short_failures :: "string list \<Rightarrow> int \<Rightarrow> nat \<times> nat" where
  "short_failures statuses long_run0 =
     (let long_run = max long_run0 1;
          runs = down_runs 0 0 statuses;
          lo = length statuses - flaky_WINDOW
      in count_short long_run lo runs)"

definition in_outage :: "string list \<Rightarrow> int \<Rightarrow> bool" where
  "in_outage statuses long_run0 =
     (let long_run = max long_run0 1;
          tail = last_n (nat long_run) statuses
      in int (length tail) = long_run \<and> list_all (\<lambda>s. s = ''down'') tail)"

definition is_flaky :: "string list \<Rightarrow> int \<Rightarrow> bool \<Rightarrow> bool" where
  "is_flaky statuses long_run was =
     (if in_outage statuses long_run then was
      else (let (fails, cnt) = short_failures statuses long_run in
            if \<not> was then fails \<ge> flaky_FAILS \<and> cnt \<ge> flaky_RUNS
            else fails > flaky_CLEAR))"

subsection \<open>The series the loop records\<close>

text \<open>A maximal series of failures: the half-open interval \<open>[a, b)\<close> of positions.\<close>

definition max_run :: "string list \<Rightarrow> nat \<Rightarrow> nat \<Rightarrow> bool" where
  "max_run xs a b \<longleftrightarrow> a < b \<and> b \<le> length xs \<and> (\<forall>i. a \<le> i \<and> i < b \<longrightarrow> xs ! i = ''down'')
     \<and> (a = 0 \<or> xs ! (a - 1) \<noteq> ''down'') \<and> (b = length xs \<or> xs ! b \<noteq> ''down'')"

lemma max_run_start_unique: "max_run xs a b \<Longrightarrow> max_run xs a' b \<Longrightarrow> a = a'"
proof -
  have "a \<le> a'" if "max_run xs a b" "max_run xs a' b" for a a'
  proof (rule ccontr)
    assume "\<not> a \<le> a'"
    with that have "a' \<le> a - 1" "a - 1 < b" "a \<noteq> 0" by (auto simp: max_run_def)
    with that show False by (auto simp: max_run_def)
  qed
  then show "max_run xs a b \<Longrightarrow> max_run xs a' b \<Longrightarrow> a = a'" by (meson le_antisym)
qed

text \<open>\<open>n\<close> is the length of the series of failures that ends the prefix read so far.\<close>

definition tail_run :: "string list \<Rightarrow> nat \<Rightarrow> bool" where
  "tail_run pre n \<longleftrightarrow> n \<le> length pre \<and> (\<forall>i. length pre - n \<le> i \<and> i < length pre \<longrightarrow> pre ! i = ''down'')
     \<and> (n = length pre \<or> pre ! (length pre - n - 1) \<noteq> ''down'')"

lemma tail_run_snoc:
  "tail_run pre n \<Longrightarrow> tail_run (pre @ [x]) (if x = ''down'' then Suc n else 0)"
  by (auto simp: tail_run_def nth_append less_Suc_eq)

lemma tail_run_max_run:
  assumes "tail_run pre n" "xs = [] \<or> hd xs \<noteq> ''down''"
  shows "max_run (pre @ xs) a (length pre) \<longleftrightarrow> 0 < n \<and> a = length pre - n"
proof
  assume m: "max_run (pre @ xs) a (length pre)"
  then have "a < length pre" and all: "\<forall>i. a \<le> i \<and> i < length pre \<longrightarrow> (pre @ xs) ! i = ''down''"
    by (auto simp: max_run_def)
  then have "a \<le> length pre - 1 \<and> length pre - 1 < length pre" by linarith
  with all have "(pre @ xs) ! (length pre - 1) = ''down''" "length pre - 1 < length pre"
    by blast+
  then have "pre ! (length pre - 1) = ''down''" "0 < length pre"
    by (auto simp: nth_append)
  with assms(1) have n: "0 < n" by (auto simp: tail_run_def)
  have "max_run (pre @ xs) (length pre - n) (length pre)"
    using assms n by (auto simp: max_run_def tail_run_def nth_append hd_conv_nth split: if_splits)
  with m n show "0 < n \<and> a = length pre - n" by (simp add: max_run_start_unique)
next
  assume "0 < n \<and> a = length pre - n"
  then show "max_run (pre @ xs) a (length pre)"
    using assms by (auto simp: max_run_def tail_run_def nth_append hd_conv_nth split: if_splits)
qed

lemma max_run_not_at_down: "max_run (pre @ ''down'' # xs) a b \<Longrightarrow> b \<noteq> length pre"
  by (auto simp: max_run_def)

lemma run_set_insert:
  fixes L :: nat
  assumes "\<And>a b. P a b \<and> L \<le> b \<longleftrightarrow> Q a b \<or> b = L \<and> 0 < n \<and> a = L - n" "n \<le> L"
  shows "{(b, b - a) | a b. P a b \<and> L \<le> b}
     = (if 0 < n then {(L, n)} else {}) \<union> {(b, b - a) | a b. Q a b}"
proof -
  have "n = L - (L - n)" using assms(2) by simp
  then show ?thesis unfolding assms(1) by (auto intro: exI [of _ "L - n"])
qed

lemma set_down_runs:
  "tail_run pre n \<Longrightarrow>
   set (down_runs (length pre) n xs) = {(b, b - a) | a b. max_run (pre @ xs) a b \<and> length pre \<le> b}"
proof (induction xs arbitrary: pre n)
  case Nil
  have "max_run pre a b \<and> length pre \<le> b \<longleftrightarrow> b = length pre \<and> 0 < n \<and> a = length pre - n" for a b
    using tail_run_max_run [OF Nil, of "[]" a] by (auto simp: max_run_def)
  moreover have "n \<le> length pre" using Nil by (simp add: tail_run_def)
  ultimately show ?case by auto
next
  case (Cons x xs)
  define n' where "n' = (if x = ''down'' then Suc n else 0)"
  have IH: "set (down_runs (Suc (length pre)) n' xs)
      = {(b, b - a) | a b. max_run (pre @ x # xs) a b \<and> Suc (length pre) \<le> b}"
    using Cons.IH [OF tail_run_snoc [OF Cons.prems, of x]] by (simp add: n'_def)
  have n: "n \<le> length pre" using Cons.prems by (simp add: tail_run_def)
  show ?case
  proof (cases "x = ''down''")
    case True
    then have "max_run (pre @ x # xs) a b \<and> length pre \<le> b \<longleftrightarrow>
        max_run (pre @ x # xs) a b \<and> Suc (length pre) \<le> b" for a b
      using max_run_not_at_down [of pre xs a b] by (cases "b = length pre") auto
    with True IH show ?thesis by (simp add: n'_def)
  next
    case False
    then have "max_run (pre @ x # xs) a b \<and> length pre \<le> b \<longleftrightarrow>
        max_run (pre @ x # xs) a b \<and> Suc (length pre) \<le> b \<or> b = length pre \<and> 0 < n \<and> a = length pre - n" for a b
      using tail_run_max_run [OF Cons.prems, of "x # xs" a] by (cases "b = length pre") auto
    then have "{(b, b - a) | a b. max_run (pre @ x # xs) a b \<and> length pre \<le> b}
        = (if 0 < n then {(length pre, n)} else {}) \<union> set (down_runs (Suc (length pre)) n' xs)"
      unfolding IH using n by (rule run_set_insert)
    with False show ?thesis by (simp add: n'_def)
  qed
qed

lemma down_runs_ends: "(e, l) \<in> set (down_runs i n xs) \<Longrightarrow> i \<le> e"
  by (induction i n xs rule: down_runs.induct) (fastforce split: if_splits)+

lemma distinct_down_runs: "distinct (map fst (down_runs i n xs))"
  by (induction i n xs rule: down_runs.induct) (auto dest: down_runs_ends)

lemma count_short_eq:
  "count_short L lo rs =
     ((\<Sum>(e, l)\<leftarrow>filter (\<lambda>(e, l). int l < L) rs. e - max (e - l) lo),
      length (filter (\<lambda>(e, l). int l < L \<and> 0 < e - max (e - l) lo) rs))"
  by (induction L lo rs rule: count_short.induct) (auto simp: Let_def)

definition short_runs :: "string list \<Rightarrow> int \<Rightarrow> (nat \<times> nat) set" where
  "short_runs xs L = {(a, b). max_run xs a b \<and> int (b - a) < L}"

lemma down_runs_bij:
  "bij_betw (\<lambda>(a, b). (b, b - a)) (short_runs xs L) (set (filter (\<lambda>(e, l). int l < L) (down_runs 0 0 xs)))"
proof -
  have "set (down_runs 0 0 xs) = {(b, b - a) | a b. max_run xs a b}"
    using set_down_runs [of "[]" 0 xs] by (simp add: tail_run_def)
  then show ?thesis
    by (auto simp: bij_betw_def inj_on_def short_runs_def max_run_def image_iff)
qed

lemma distinct_short: "distinct (filter P (down_runs 0 0 xs))"
  using distinct_down_runs [of 0 0 xs] by (auto simp: distinct_map)

text \<open>What \<open>short_failures\<close> returns: over the maximal series of failures shorter than
  \<open>long_run\<close>, the number of failures inside the window and the number of series with at least
  one failure inside it.\<close>

lemma short_failures_fst:
  "fst (short_failures xs L) = (\<Sum>(a, b)\<in>short_runs xs (max L 1). b - max a (length xs - flaky_WINDOW))"
proof -
  let ?lo = "length xs - flaky_WINDOW"
  let ?rs = "filter (\<lambda>(e, l). int l < max L 1) (down_runs 0 0 xs)"
  have "fst (short_failures xs L) = (\<Sum>(e, l)\<in>set ?rs. e - max (e - l) ?lo)"
    by (simp add: short_failures_def count_short_eq Let_def sum_list_distinct_conv_sum_set distinct_short)
  also have "\<dots> = (\<Sum>(a, b)\<in>short_runs xs (max L 1). b - max a ?lo)"
    by (subst sum.reindex_bij_betw [OF down_runs_bij, symmetric])
       (auto intro!: sum.cong simp: short_runs_def max_run_def)
  finally show ?thesis .
qed

lemma short_failures_snd:
  "snd (short_failures xs L) = card {(a, b) \<in> short_runs xs (max L 1). length xs - flaky_WINDOW < b}"
proof -
  let ?lo = "length xs - flaky_WINDOW"
  let ?rs = "filter (\<lambda>(e, l). int l < max L 1 \<and> 0 < e - max (e - l) ?lo) (down_runs 0 0 xs)"
  have "snd (short_failures xs L) = card (set ?rs)"
    by (simp only: short_failures_def count_short_eq Let_def snd_conv distinct_card [OF distinct_short])
  also have "set ?rs = (\<lambda>(a, b). (b, b - a)) ` {(a, b) \<in> short_runs xs (max L 1). ?lo < b}"
    using down_runs_bij [of xs "max L 1"]
    by (auto simp: bij_betw_def short_runs_def max_run_def image_iff set_eq_iff)
  also have "card \<dots> = card {(a, b) \<in> short_runs xs (max L 1). ?lo < b}"
    by (rule card_image) (auto simp: inj_on_def short_runs_def max_run_def)
  finally show ?thesis .
qed

text \<open>The positions of the window that lie in a short series; their number is the first
  component, so it never exceeds the window.\<close>

definition short_positions :: "string list \<Rightarrow> int \<Rightarrow> nat set" where
  "short_positions xs L = {i. length xs - flaky_WINDOW \<le> i \<and> (\<exists>(a, b)\<in>short_runs xs L. a \<le> i \<and> i < b)}"

lemma max_run_disjoint:
  assumes "max_run xs a b" "max_run xs a' b'" "a \<le> i" "i < b" "a' \<le> i" "i < b'"
  shows "a = a' \<and> b = b'"
proof -
  have start: "a \<le> a'" if "max_run xs a b" "max_run xs a' b'" "a \<le> i" "i < b" "a' \<le> i" "i < b'" for a b a' b'
  proof (rule ccontr)
    assume "\<not> a \<le> a'"
    with that have "a' \<le> a - 1" "a - 1 < b'" "a \<noteq> 0" by auto
    with that show False by (auto simp: max_run_def)
  qed
  have stop: "b \<le> b'" if "max_run xs a b" "max_run xs a' b'" "a \<le> i" "i < b" "a' \<le> i" "i < b'" for a b a' b'
  proof (rule ccontr)
    assume "\<not> b \<le> b'"
    with that have "a \<le> b'" "b' < b" by auto
    with that show False by (auto simp: max_run_def)
  qed
  show ?thesis using start stop assms by (meson le_antisym)
qed

lemma finite_short_runs: "finite (short_runs xs L)"
  using bij_betw_finite [OF down_runs_bij] by simp

lemma short_failures_positions:
  "fst (short_failures xs L) = card (short_positions xs (max L 1))"
proof -
  let ?lo = "length xs - flaky_WINDOW" and ?R = "short_runs xs (max L 1)"
  have "short_positions xs (max L 1) = (\<Union>(a, b)\<in>?R. {max a ?lo..<b})"
    unfolding short_positions_def by fastforce
  also have "card \<dots> = (\<Sum>p\<in>?R. card (case p of (a, b) \<Rightarrow> {max a ?lo..<b}))"
  proof (rule card_UN_disjoint)
    show "\<forall>p\<in>?R. \<forall>q\<in>?R. p \<noteq> q \<longrightarrow>
        (case p of (a, b) \<Rightarrow> {max a ?lo..<b}) \<inter> (case q of (a, b) \<Rightarrow> {max a ?lo..<b}) = {}"
      using max_run_disjoint by (fastforce simp: short_runs_def)
  qed (auto simp: finite_short_runs)
  also have "\<dots> = fst (short_failures xs L)"
    by (auto simp: short_failures_fst intro!: sum.cong)
  finally show ?thesis by simp
qed

lemma short_positions_window:
  "short_positions xs L \<subseteq> {length xs - flaky_WINDOW..<length xs}"
  "i \<in> short_positions xs L \<Longrightarrow> xs ! i = ''down''"
  by (auto simp: short_positions_def short_runs_def max_run_def)

lemma short_failures_le_window: "fst (short_failures xs L) \<le> flaky_WINDOW"
proof -
  have "card (short_positions xs (max L 1)) \<le> card {length xs - flaky_WINDOW..<length xs}"
    by (rule card_mono) (simp_all add: short_positions_window)
  then show ?thesis by (simp add: short_failures_positions)
qed

section \<open>site_flap.py: one alarm and one all-clear per episode\<close>

definition FLAP_WINDOW :: int where [site_defs]: "FLAP_WINDOW = sec 3600"
definition flap_STABLE :: int where [site_defs]: "flap_STABLE = sec 1800"
definition STABLE_N :: nat where [site_defs]: "STABLE_N = 3"
definition flap_WORSE :: int where [site_defs]: "flap_WORSE = sec 600"

type_synonym hist = "(dt \<times> string) list"

definition level :: "dict option \<Rightarrow> string option" where
  "level state =
     (let lvl = dget (case state of None \<Rightarrow> [] | Some d \<Rightarrow> d) ''lvl''
      in if lvl = PStr ''down'' then Some ''down'' else if lvl = PStr ''flaky'' then Some ''flaky'' else None)"

definition opened :: "string \<Rightarrow> time \<Rightarrow> dict" where
  "opened lvl now = [(''lvl'', PStr lvl), (''at'', PStr (iso now))]"

definition closed :: "time \<Rightarrow> dict" where
  "closed now = [(''closed'', PStr (iso now))]"

text \<open>\<open>cutoff\<close>: a missing, empty, non-string or malformed mark gives None.\<close>

definition cutoff :: "dict option \<Rightarrow> dt option" where
  "cutoff state =
     (case dget (case state of None \<Rightarrow> [] | Some d \<Rightarrow> d) ''closed'' of
        PStr raw \<Rightarrow> if raw = [] then None else map_option aware (fromisoformat raw)
      | _ \<Rightarrow> None)"

fun runs_loop :: "time \<Rightarrow> bool \<Rightarrow> hist \<Rightarrow> nat" where
  "runs_loop since inside [] = 0"
| "runs_loop since inside ((ts, st) # h) =
     (if dt_utc (aware ts) < since then runs_loop since inside h
      else if st \<noteq> ''up'' then (if inside then 0 else 1) + runs_loop since True h
      else runs_loop since False h)"

definition runs :: "hist \<Rightarrow> time \<Rightarrow> nat" where
  "runs hist since = runs_loop since False hist"

definition flapping :: "hist \<Rightarrow> time \<Rightarrow> bool" where
  "flapping hist now = (runs hist (now - FLAP_WINDOW) \<ge> 2)"

definition stable :: "hist \<Rightarrow> time \<Rightarrow> bool" where
  "stable hist now =
     (let tail = map snd (last_n STABLE_N hist) in
      if length tail < STABLE_N \<or> list_ex (\<lambda>st. st \<noteq> ''up'') tail then False
      else (case map (\<lambda>(ts, _). dt_utc (aware ts)) (filter (\<lambda>(_, st). st = ''down'') hist) of
              [] \<Rightarrow> True
            | t # ts \<Rightarrow> now - fold max ts t \<ge> flap_STABLE))"

lemma level_opened [simp]:
  "level (Some (opened ''down'' now)) = Some ''down''" "level (Some (opened ''flaky'' now)) = Some ''flaky''"
  by (simp_all add: level_def opened_def Let_def)

lemma level_closed [simp]: "level (Some (closed now)) = None" "level None = None"
  by (simp_all add: level_def closed_def)

lemma level_cases: "level s = None \<or> level s = Some ''down'' \<or> level s = Some ''flaky''"
  by (simp add: level_def Let_def)

lemma cutoff_closed: "time_ok now \<Longrightarrow> cutoff (Some (closed now)) = Some (utc now)"
  by (simp add: cutoff_def closed_def)

lemma fold_max_ge: "(x::int) \<in> set (t # ts) \<Longrightarrow> x \<le> fold max ts t"
  by (metis List.finite_set Max.set_eq_fold Max_ge)

text \<open>An all-clear for a blinking site is given only after half an hour without a failure and
  with three good checks in a row.\<close>

lemma stable_no_recent_down:
  assumes "stable hist now" "(ts, ''down'') \<in> set hist"
  shows "dt_utc ts + flap_STABLE \<le> now"
proof -
  let ?ds = "map (\<lambda>(ts, _). dt_utc (aware ts)) (filter (\<lambda>(_, st). st = ''down'') hist)"
  have mem: "dt_utc ts \<in> set ?ds"
    using assms(2) by force
  then obtain t us where ds: "?ds = t # us"
    by (metis empty_iff list.set(1) neq_Nil_conv)
  with assms(1) have "flap_STABLE \<le> now - fold max us t"
    by (simp add: stable_def Let_def split: if_splits)
  moreover have "dt_utc ts \<le> fold max us t"
    by (rule fold_max_ge) (use mem in \<open>simp only: ds\<close>)
  ultimately show ?thesis by simp
qed

lemma stable_tail_up:
  assumes "stable hist now"
  shows "STABLE_N \<le> length hist" "\<forall>(ts, st)\<in>set (last_n STABLE_N hist). st = ''up''"
  using assms by (auto simp: stable_def Let_def list_ex_iff split: if_splits)

section \<open>Properties\<close>

text \<open>\<open>short_failures\<close> counts exactly the failed checks of the last \<open>WINDOW\<close> that belong to a
  maximal series of consecutive failures shorter than \<open>long_run\<close>, and the number of such series
  that reach into the window; never more failures than the window holds.\<close>

theorem short_failures_correct:
  "short_failures xs L =
     (card {i. length xs - flaky_WINDOW \<le> i \<and>
              (\<exists>a b. max_run xs a b \<and> int (b - a) < max L 1 \<and> a \<le> i \<and> i < b)},
      card {(a, b). max_run xs a b \<and> int (b - a) < max L 1 \<and> length xs - flaky_WINDOW < b})
   \<and> fst (short_failures xs L) \<le> flaky_WINDOW"
proof -
  have "short_positions xs (max L 1) = {i. length xs - flaky_WINDOW \<le> i \<and>
      (\<exists>a b. max_run xs a b \<and> int (b - a) < max L 1 \<and> a \<le> i \<and> i < b)}"
    by (auto simp: short_positions_def short_runs_def)
  moreover have "{(a, b) \<in> short_runs xs (max L 1). length xs - flaky_WINDOW < b}
      = {(a, b). max_run xs a b \<and> int (b - a) < max L 1 \<and> length xs - flaky_WINDOW < b}"
    by (auto simp: short_runs_def)
  ultimately show ?thesis
    using short_failures_positions [of xs L] short_failures_snd [of xs L] short_failures_le_window [of xs L]
    by (metis prod.collapse)
qed

text \<open>C40. Once the last \<open>WINDOW\<close> checks hold no failure the site is not flaky any more, whatever
  it was before: the condition always clears.\<close>

theorem is_flaky_clears:
  assumes "flaky_WINDOW \<le> length xs" "''down'' \<notin> set (last_n flaky_WINDOW xs)"
  shows "\<not> is_flaky xs L was"
proof -
  have nd: "xs ! i \<noteq> ''down''" if "length xs - flaky_WINDOW \<le> i" "i < length xs" for i
  proof -
    have "drop (length xs - flaky_WINDOW) xs ! (i - (length xs - flaky_WINDOW)) = xs ! i"
      using that by simp
    moreover have "i - (length xs - flaky_WINDOW) < length (drop (length xs - flaky_WINDOW) xs)"
      using that by simp
    ultimately show ?thesis using assms(2) unfolding last_n_def by (metis nth_mem)
  qed
  have "i \<notin> short_positions xs (max L 1)" for i
    using short_positions_window nd by (metis atLeastLessThan_iff subsetD)
  then have "short_positions xs (max L 1) = {}" by auto
  then have "fst (short_failures xs L) = 0" by (simp add: short_failures_positions)
  moreover have "\<not> in_outage xs L"
  proof
    define k where "k = nat (max L 1)"
    assume "in_outage xs L"
    then have all: "list_all (\<lambda>s. s = ''down'') (last_n k xs)"
      by (auto simp: in_outage_def Let_def k_def)
    have x: "0 < length xs" "0 < k" using assms(1) by (auto simp: site_defs k_def)
    then have ne: "length xs - k < length xs" by linarith
    then have "last (last_n k xs) = ''down''"
      using all last_in_set [of "last_n k xs"] by (fastforce simp: list_all_iff last_n_def)
    moreover have "last (last_n k xs) = xs ! (length xs - 1)"
      using ne by (simp add: last_n_def last_drop last_conv_nth)
    ultimately have "xs ! (length xs - 1) = ''down''" by simp
    moreover have "length xs - flaky_WINDOW \<le> length xs - 1" by (simp add: site_defs)
    ultimately show False using nd [of "length xs - 1"] x by linarith
  qed
  ultimately show ?thesis
    by (auto simp: is_flaky_def site_defs split: prod.splits)
qed

theorem is_flaky_clears_witness:
  "\<not> is_flaky (replicate 3 ''down'' @ replicate 20 ''up'') 3 True"
  by (rule is_flaky_clears) (simp_all add: site_defs last_n_def)

text \<open>A blinking site is declared healthy only when its last three checks succeeded and no
  check of the history failed during the last half hour.\<close>

theorem stable_means_quiet:
  assumes "stable hist now"
  shows "3 \<le> length hist \<and> (\<forall>(ts, st)\<in>set (last_n 3 hist). st = ''up'') \<and>
    (\<forall>(ts, st)\<in>set hist. st = ''down'' \<longrightarrow> dt_utc ts + sec 1800 \<le> now)"
  using stable_tail_up [OF assms] stable_no_recent_down [OF assms]
  by (auto simp: site_defs)

theorem stable_means_quiet_witness:
  "\<exists>hist now. stable hist now \<and> 3 \<le> length hist \<and> (utc 0, ''down'') \<in> set hist"
proof -
  let ?h = "[(utc 0, ''down''), (utc (sec 1800), ''up''), (utc (sec 1860), ''up''), (utc (sec 1920), ''up'')]"
  have "stable ?h (sec 1920)"
    by code_simp
  with stable_means_quiet [OF this] show ?thesis by (intro exI [of _ ?h]) auto
qed

end
