(* ===== verification/Known.thy ===== *)
theory Known
  imports Py_Datetime
begin

text \<open>
  Known issues (\<open>backend/app/known.py\<close>): a person marked a problem as known; the mark silences
  the alert until it gets worse, and closes itself when the problem is gone.  An entry is the JSON
  object the code stores; the lemmas state when an entry silences, when it closes, and that a gap
  in the evidence never counts as recovery.
\<close>

definition GONE_S :: int where "GONE_S = 10 * 60"
definition REMIND_S :: int where "REMIND_S = 7 * 86400"

text \<open>\<open>_ts\<close>: a non-empty string in ISO format, else None.\<close>

definition known_ts :: "py \<Rightarrow> dt option" where
  "known_ts v = (case v of PStr s \<Rightarrow> if s = [] then None else fromisoformat s | _ \<Rightarrow> None)"

definition known_expired :: "dict \<Rightarrow> time \<Rightarrow> bool res" where
  "known_expired entry now =
     (case known_ts (dget entry ''until'') of
        None \<Rightarrow> Inr False
      | Some u \<Rightarrow> rbind (dt_sub (utc now) u) (\<lambda>d. Inr (0 \<le> d)))"

text \<open>\<open>set(map(str, v))\<close> of a stored value.\<close>

fun str_items :: "py \<Rightarrow> string list res" where
  "str_items (PList xs) = Inr (map py_str xs)"
| "str_items (PStr s) = Inr (map (\<lambda>c. [c]) s)"
| "str_items (PDict d) = Inr (map fst d)"
| "str_items _ = Inl TypeError"

definition covers :: "dict option \<Rightarrow> int \<Rightarrow> string list option \<Rightarrow> bool res" where
  "covers entry level sig =
     (case entry of
        None \<Rightarrow> Inr False
      | Some e \<Rightarrow>
         if e = [] \<or> level \<le> 0 then Inr False
         else if dget e ''level'' = PNone then Inr True
         else rbind (py_int (dget e ''level'')) (\<lambda>known_level.
           if level > known_level then Inr False
           else (case sig of
                   None \<Rightarrow> Inr True
                 | Some xs \<Rightarrow>
                    if xs = [] \<or> dget e ''sig'' = PNone then Inr True
                    else rbind (str_items (dget e ''sig'')) (\<lambda>ks. Inr (set xs \<subseteq> set ks)))))"

text \<open>\<open>_remind\<close> writes \<open>reminded_at\<close> into the entry it is given.\<close>

definition remind :: "dict \<Rightarrow> int \<Rightarrow> time \<Rightarrow> (dict \<times> string) res" where
  "remind new level now =
     (if level \<le> 0 then Inr (new, [])
      else (case (case known_ts (dget new ''reminded_at'') of
                    Some t \<Rightarrow> Some t | None \<Rightarrow> known_ts (dget new ''at'')) of
              None \<Rightarrow> Inr (new, [])
            | Some lst \<Rightarrow> rbind (dt_sub (utc now) lst) (\<lambda>d.
                if d < sec REMIND_S then Inr (new, [])
                else Inr (dset ''reminded_at'' (PStr (iso now)) new, ''remind''))))"

definition finish :: "dict \<Rightarrow> int \<Rightarrow> time \<Rightarrow> (dict option \<times> string) res" where
  "finish new level now = rbind (remind new level now) (\<lambda>(e, what). Inr (Some e, what))"

definition known_step :: "dict \<Rightarrow> int \<Rightarrow> string list option \<Rightarrow> time \<Rightarrow> bool \<Rightarrow> (dict option \<times> string) res" where
  "known_step entry level sig now confirmed =
     rbind (known_expired entry now) (\<lambda>ex.
       if ex then Inr (None, ''expired'')
       else if \<not> confirmed then Inr (Some (dpop ''gone_at'' entry), [])
       else if level > 0 then
         (let new = dpop ''gone_at'' entry;
              new = (if dget new ''level'' = PNone
                     then dset ''sig'' (case sig of None \<Rightarrow> PNone
                             | Some xs \<Rightarrow> if xs = [] then PNone else PList (map PStr (sort xs)))
                            (dset ''level'' (PInt level) new)
                     else new)
          in rbind (covers (Some new) level sig) (\<lambda>c.
               finish (dset ''worse'' (PBool (\<not> c)) new) level now))
       else (case known_ts (dget entry ''gone_at'') of
               None \<Rightarrow> finish (dset ''worse'' (PBool False) (dset ''gone_at'' (PStr (iso now)) entry)) level now
             | Some gone \<Rightarrow> rbind (dt_sub (utc now) gone) (\<lambda>d.
                 if d \<ge> sec GONE_S then Inr (None, ''closed'')
                 else finish (dset ''worse'' (PBool False) entry) level now)))"

definition step_check :: "dict \<Rightarrow> bool \<Rightarrow> time \<Rightarrow> (dict option \<times> string) res" where
  "step_check entry ok now =
     rbind (known_expired entry now) (\<lambda>ex.
       if ex then Inr (None, ''expired'')
       else if \<not> ok then finish (dpop ''gone_at'' entry) 1 now
       else (case known_ts (dget entry ''gone_at'') of
               None \<Rightarrow> finish (dset ''gone_at'' (PStr (iso now)) entry) 0 now
             | Some gone \<Rightarrow> rbind (dt_sub (utc now) gone) (\<lambda>d.
                 if d \<ge> sec GONE_S then Inr (None, ''closed'')
                 else finish entry 0 now)))"

definition new_entry :: "string \<Rightarrow> string \<Rightarrow> int \<Rightarrow> time \<Rightarrow> dict" where
  "new_entry text who days now =
     [(''text'', PStr (strip text)), (''by'', PStr who), (''at'', PStr (iso now)),
      (''until'', if days > 0 then PStr (iso (now + days * day_us)) else PNone)]"

section \<open>Lemmas\<close>

text \<open>An entry whose marks were all written by the panel itself: \<open>isoformat\<close> of UTC moments.\<close>

definition own_mark :: "py \<Rightarrow> bool" where
  "own_mark v \<longleftrightarrow> v = PNone \<or> (\<exists>t. time_ok t \<and> v = PStr (iso t))"

definition own_entry :: "dict \<Rightarrow> bool" where
  "own_entry e \<longleftrightarrow> (\<forall>k\<in>{''until'', ''gone_at'', ''reminded_at'', ''at''}. own_mark (dget e k))"

lemma known_ts_simps [simp]:
  "known_ts PNone = None" "time_ok t \<Longrightarrow> known_ts (PStr (iso t)) = Some (utc t)"
  by (simp_all add: known_ts_def)

lemma own_mark_ts: "own_mark v \<Longrightarrow> known_ts v = None \<or> (\<exists>t. known_ts v = Some (utc t))"
  by (auto simp: own_mark_def)

lemma finish_total:
  assumes "own_entry new"
  shows "\<exists>e what. finish new level now = Inr (Some e, what) \<and> what \<in> {[], ''remind''}
     \<and> (\<forall>k. k \<noteq> ''reminded_at'' \<longrightarrow> dget e k = dget new k)"
proof -
  have "known_ts (dget new k) = None \<or> (\<exists>t. known_ts (dget new k) = Some (utc t))"
    if "k \<in> {''reminded_at'', ''at''}" for k
    using assms that own_mark_ts by (auto simp: own_entry_def)
  from this [of "''reminded_at''"] this [of "''at''"] show ?thesis
    by (auto simp: finish_def remind_def split: option.splits)
qed

lemma own_entry_dset:
  "own_entry e \<Longrightarrow> own_mark v \<Longrightarrow> own_entry (dset k v e)"
  "own_entry e \<Longrightarrow> k \<notin> {''until'', ''gone_at'', ''reminded_at'', ''at''} \<Longrightarrow> own_entry (dset k v e)"
  "own_entry e \<Longrightarrow> own_entry (dpop k e)"
  by (auto simp: own_entry_def own_mark_def)

lemma own_mark_iso: "time_ok now \<Longrightarrow> own_mark (PStr (iso now))"
  by (auto simp: own_mark_def)

section \<open>Properties\<close>

text \<open>A fresh mark silences exactly the alerts that are not worse than what was marked: once the
  first tick has taken the snapshot (level and signature), an alert of a higher level or with a
  member outside the snapshot passes, any other alert of the kind is silenced, and a recovery
  (level 0) is never silenced.\<close>

theorem covers_after_snapshot:
  assumes "known_step entry level (Some sig) now True = Inr (Some e, what)"
    and "level > 0" "dget entry ''level'' = PNone" "sig \<noteq> []"
  shows "covers (Some e) level' (Some sig') = Inr (0 < level' \<and> level' \<le> level \<and> set sig' \<subseteq> set sig)"
proof -
  define new where "new = dset ''sig'' (PList (map PStr (sort sig))) (dset ''level'' (PInt level) (dpop ''gone_at'' entry))"
  from assms obtain c where f: "finish (dset ''worse'' (PBool (\<not> c)) new) level now = Inr (Some e, what)"
    by (auto simp: known_step_def Let_def new_def rbind_Inr_iff split: if_splits)
  then have e: "dget e ''level'' = PInt level" "dget e ''sig'' = PList (map PStr (sort sig))"
    by (auto simp: finish_def remind_def new_def rbind_Inr_iff split: if_splits option.splits)
  then have "e \<noteq> []" by auto
  with e show ?thesis
    by (auto simp: covers_def comp_def)
qed

theorem covers_after_snapshot_witness:
  "covers (Some [(''text'', PStr ''ticket''), (''level'', PInt 1), (''sig'', PList [PStr ''sda'']),
     (''worse'', PBool False)]) 1 (Some [''sda'']) = Inr True"
proof -
  have "known_step [(''text'', PStr ''ticket'')] 1 (Some [''sda'']) 0 True
      = Inr (Some [(''text'', PStr ''ticket''), (''level'', PInt 1), (''sig'', PList [PStr ''sda'']),
          (''worse'', PBool False)], [])"
    by code_simp
  from covers_after_snapshot [OF this, of 1 "[''sda'']"] show ?thesis by simp
qed

text \<open>For an entry the panel wrote itself, one tick never raises; it closes the mark only if the
  problem has been confirmed absent for at least \<open>GONE_S\<close> seconds since the stored \<open>gone_at\<close>,
  and an unconfirmed tick restarts that count.\<close>

theorem known_step_closes_only_after_hold:
  assumes "own_entry entry" "time_ok now"
    and "dget entry ''level'' = PNone \<or> (\<exists>l. dget entry ''level'' = PInt l)"
    and "\<exists>xs. dget entry ''sig'' = PList xs \<or> dget entry ''sig'' = PNone"
  shows "\<exists>r what. known_step entry level sig now confirmed = Inr (r, what)
    \<and> (what = ''closed'' \<longrightarrow> confirmed \<and> level \<le> 0 \<and> r = None
         \<and> (\<exists>t. known_ts (dget entry ''gone_at'') = Some (utc t) \<and> sec GONE_S \<le> now - t))
    \<and> (\<not> confirmed \<and> what \<noteq> ''expired'' \<longrightarrow> (\<exists>e. r = Some e \<and> dget e ''gone_at'' = PNone))"
proof -
  have u: "known_ts (dget entry ''until'') = None \<or> (\<exists>t. known_ts (dget entry ''until'') = Some (utc t))"
    and g: "known_ts (dget entry ''gone_at'') = None \<or> (\<exists>t. known_ts (dget entry ''gone_at'') = Some (utc t))"
    using assms(1) own_mark_ts by (auto simp: own_entry_def)
  from u have "\<exists>ex. known_expired entry now = Inr ex"
    by (auto simp: known_expired_def)
  then obtain ex where ex: "known_expired entry now = Inr ex" by blast
  have cov: "\<exists>c. covers (Some e) level sig = Inr c"
    if "dget e ''level'' = PNone \<or> (\<exists>l. dget e ''level'' = PInt l)"
       "\<exists>xs. dget e ''sig'' = PList xs \<or> dget e ''sig'' = PNone" for e
    using that by (auto simp: covers_def split: option.splits)
  show ?thesis
  proof (cases "ex \<or> \<not> confirmed \<or> level > 0")
    case True
    show ?thesis
    proof (cases "ex \<or> \<not> confirmed")
      case True
      then show ?thesis using ex by (auto simp: known_step_def)
    next
      case False
      define new where "new = (let new = dpop ''gone_at'' entry in if dget new ''level'' = PNone
                     then dset ''sig'' (case sig of None \<Rightarrow> PNone
                             | Some xs \<Rightarrow> if xs = [] then PNone else PList (map PStr (sort xs)))
                            (dset ''level'' (PInt level) new) else new)"
      have n: "own_entry new"
        using assms(1) by (simp add: new_def Let_def own_entry_dset)
      have "dget new ''level'' = PNone \<or> (\<exists>l. dget new ''level'' = PInt l)"
        "\<exists>xs. dget new ''sig'' = PList xs \<or> dget new ''sig'' = PNone"
        using assms(3,4) by (auto simp: new_def Let_def split: option.splits)
      from cov [OF this] obtain c where c: "covers (Some new) level sig = Inr c" by blast
      have "own_entry (dset ''worse'' (PBool (\<not> c)) new)"
        using n by (simp add: own_entry_dset)
      from finish_total [OF this, of level now] obtain e what where
        "finish (dset ''worse'' (PBool (\<not> c)) new) level now = Inr (Some e, what)" "what \<in> {[], ''remind''}" by blast
      then show ?thesis using False \<open>ex \<or> \<not> confirmed \<or> level > 0\<close> ex c
        by (auto simp: known_step_def new_def Let_def)
    qed
  next
    case False
    have o: "own_entry (dset ''worse'' (PBool False) entry)"
      "own_entry (dset ''worse'' (PBool False) (dset ''gone_at'' (PStr (iso now)) entry))"
      using assms(1,2) by (simp_all add: own_entry_dset(2) own_entry_dset(1) [OF _ own_mark_iso])
    from finish_total [OF o(1), of level now] finish_total [OF o(2), of level now] g False ex show ?thesis
      by (auto simp: known_step_def)
  qed
qed

theorem known_step_closes_only_after_hold_witness:
  "known_step [(''at'', PStr (iso 0)), (''gone_at'', PStr (iso 0))] 0 None (sec 600) True = Inr (None, ''closed'')
   \<and> (\<exists>r what. known_step [(''at'', PStr (iso 0)), (''gone_at'', PStr (iso 0))] 0 None (sec 600) True = Inr (r, what)
     \<and> (what = ''closed'' \<longrightarrow> r = None))"
proof
  show "known_step [(''at'', PStr (iso 0)), (''gone_at'', PStr (iso 0))] 0 None (sec 600) True = Inr (None, ''closed'')"
    by code_simp
  have t: "time_ok 0" "time_ok (sec 600)" by code_simp+
  have "own_entry [(''at'', PStr (iso 0)), (''gone_at'', PStr (iso 0))]"
    using t(1) by (auto simp: own_entry_def own_mark_def)
  from known_step_closes_only_after_hold [OF this t(2), of 0 None True] show
    "\<exists>r what. known_step [(''at'', PStr (iso 0)), (''gone_at'', PStr (iso 0))] 0 None (sec 600) True = Inr (r, what)
     \<and> (what = ''closed'' \<longrightarrow> r = None)" by auto
qed

end
