(* ===== verification/Site_Monitor.thy ===== *)
theory Site_Monitor
  imports Expiry Parents Site_Health Known
begin

text \<open>
  The life of a site monitor (\<open>collector.py\<close>): when it is due, where it is checked from, what one result does to its
  row, its samples, its incident and the queue of alerts (\<open>record_outcome\<close> with \<open>_flap_hist\<close>, \<open>_flaky_step\<close> and
  \<open>inside_probe.request\<close>), the pass over all due monitors (the loop of \<open>run_due_checks\<close>), and what a delivered alert
  writes back (the end of \<open>_send_alerts\<close>).

  A tick of a monitor is one result recorded and then any part of the alerts it queued delivered; the theorems hold for
  every choice of that part.  Probing itself and the texts of the messages are outside the model: an outcome is an argument.
\<close>

section \<open>Locations and due times\<close>

record location =
  loc_id :: int
  loc_url :: string

record location_result =
  lr_status :: string
  lr_consecutive_fails :: int

definition effective_locations :: "check \<Rightarrow> location list \<Rightarrow> location list" where
  "effective_locations c locs =
     (case location_ids c of None \<Rightarrow> locs | Some ids \<Rightarrow> filter (\<lambda>l. loc_id l \<in> set ids) locs)"

definition BROKEN_MIN_CHECKS :: int where "BROKEN_MIN_CHECKS = 3"

definition broken_location_ids ::
  "location list \<Rightarrow> check list \<Rightarrow> ((int \<times> int) \<times> location_result) list \<Rightarrow> int \<Rightarrow> int list" where
  "broken_location_ids probing checks results min_fails =
     map loc_id (filter (\<lambda>loc.
       let got = concat (map (\<lambda>c. if ck_enabled c \<and> check_locations c \<and> ck_type c = ''http''
                       \<and> loc \<in> set (effective_locations c probing)
                     then (case map_of results (ck_id c, loc_id loc) of Some r \<Rightarrow> [(c, r)] | None \<Rightarrow> []) else []) checks)
       in loc_url loc \<noteq> [] \<and> int (length got) \<ge> BROKEN_MIN_CHECKS
          \<and> list_all (\<lambda>(_, r). lr_status r = ''down'' \<and> lr_consecutive_fails r \<ge> min_fails) got
          \<and> list_ex (\<lambda>(c, _). last_status c = ''up'' \<or> last_status c = ''degraded'') got) probing)"

definition is_due :: "check \<Rightarrow> time \<Rightarrow> bool" where
  "is_due c now = (case last_checked_at c of
     None \<Rightarrow> True
   | Some t \<Rightarrow> now - dt_utc (aware t) \<ge> sec (max (interval_seconds c) 5) - sec 1)"

text \<open>The stored time is not made aware here: a naive one raises.\<close>

definition needs_expiry :: "check \<Rightarrow> time \<Rightarrow> int \<Rightarrow> bool res" where
  "needs_expiry c now expiry_refresh_hours =
     (if ck_type c \<noteq> ''http'' \<or> \<not> (check_ssl c \<or> check_domain c) then Inr False
      else case expiry_checked_at c of
        None \<Rightarrow> Inr True
      | Some t \<Rightarrow> rbind (dt_sub (utc now) t) (\<lambda>d. Inr (d \<ge> sec (max (expiry_refresh_hours * 3600) 60))))"

section \<open>Checks from inside a server\<close>

definition UNBIND_GRACE :: int where "UNBIND_GRACE = 30 * 60"

definition probe_node :: "int list \<Rightarrow> int option \<Rightarrow> (int \<times> string) list \<Rightarrow> int option" where
  "probe_node cands current group_of =
     (if cands = [] then None
      else if (case current of Some i \<Rightarrow> i \<in> set cands | None \<Rightarrow> False) then current
      else if length (remdups (map (\<lambda>i. case map_of group_of i of Some g \<Rightarrow> g | None \<Rightarrow> []) cands)) = 1 then Some (hd cands)
      else None)"

text \<open>\<open>claims\<close>: which servers name a host among their sites, in the order of the servers' names.\<close>

fun claims_of :: "server list \<Rightarrow> (string \<times> int list) list \<Rightarrow> (string \<times> int list) list res" where
  "claims_of [] cl = Inr cl"
| "claims_of (s # ss) cl =
     rbind (site_texts (last_report s)) (\<lambda>sites.
       claims_of ss (fold (\<lambda>raw cl.
         let host = norm_domain raw
         in if host = [] then cl
            else dset host (ids_at cl host @ (if sid s \<in> set (ids_at cl host) then [] else [sid s])) cl) sites cl))"

text \<open>The body of the loop of \<open>rebind_local_probes\<close>: the row, the memory of the last sighting, whether the row changed.\<close>

definition rebind_one ::
  "time \<Rightarrow> (string \<times> int list) list \<Rightarrow> (int \<times> string) list \<Rightarrow> int list \<Rightarrow> (int \<times> time) list \<Rightarrow> check
   \<Rightarrow> (int \<times> time) list \<times> check \<times> bool" where
  "rebind_one now claims group_of online bound_seen c =
     (let want = probe_node (ids_at claims (norm_domain (ck_target c))) (probe_server_id c) group_of;
          bs = (if want \<noteq> None \<and> want = probe_server_id c then dset (ck_id c) now bound_seen else bound_seen);
          lost = (want = None \<and> (case probe_server_id c of Some i \<Rightarrow> i \<in> set online | None \<Rightarrow> False));
          seen = (case map_of bs (ck_id c) of Some t \<Rightarrow> t | None \<Rightarrow> now);
          bs = (if lost \<and> \<not> dhas bs (ck_id c) then dset (ck_id c) now bs else bs)
      in if lost \<and> now - seen < sec UNBIND_GRACE then (bs, c, False)
         else if probe_server_id c \<noteq> want \<or> probe_bound_at c = None
         then (if want \<noteq> None then dset (ck_id c) now bs else bs, c\<lparr>probe_server_id := want, probe_bound_at := Some (utc now)\<rparr>, True)
         else (bs, c, False))"

fun rebind_loop ::
  "time \<Rightarrow> (string \<times> int list) list \<Rightarrow> (int \<times> string) list \<Rightarrow> int list \<Rightarrow> (int \<times> time) list \<Rightarrow> check list
   \<Rightarrow> (int \<times> time) list \<times> check list \<times> int" where
  "rebind_loop now claims group_of online bs [] = (bs, [], 0)"
| "rebind_loop now claims group_of online bs (c # cs) =
     (if ck_enabled c \<and> probe_local c then
        (let (bs1, c1, ch) = rebind_one now claims group_of online bs c;
             (bs2, cs2, n) = rebind_loop now claims group_of online bs1 cs
         in (bs2, c1 # cs2, n + (if ch then 1 else 0)))
      else
        (let (bs2, cs2, n) = rebind_loop now claims group_of online bs cs in (bs2, c # cs2, n)))"

definition rebind_local_probes ::
  "time \<Rightarrow> server list \<Rightarrow> (int \<times> time) list \<Rightarrow> check list \<Rightarrow> ((int \<times> time) list \<times> check list \<times> int) res" where
  "rebind_local_probes now servers0 bound_seen checks =
     (if \<not> list_ex (\<lambda>c. ck_enabled c \<and> probe_local c) checks then Inr (bound_seen, checks, 0)
      else
        (let servers = sort_key srv_name servers0;
             group_of = map (\<lambda>s. (sid s, case srv_group s of Some g \<Rightarrow> g | None \<Rightarrow> [])) servers;
             online = map sid (filter (\<lambda>s. seen_online s now) servers)
         in rbind (claims_of servers []) (\<lambda>claims. Inr (rebind_loop now claims group_of online bound_seen checks))))"

definition PROBE_WARMUP_INTERVALS :: int where "PROBE_WARMUP_INTERVALS = 3"

definition probe_warming_up :: "check \<Rightarrow> time \<Rightarrow> bool" where
  "probe_warming_up c now =
     (case (case probe_bound_at c of Some t \<Rightarrow> Some t | None \<Rightarrow> created_at c) of
        None \<Rightarrow> False
      | Some since \<Rightarrow> now - dt_utc (aware since) < sec (max (interval_seconds c * PROBE_WARMUP_INTERVALS) 180))"

definition paths_warming_up :: "check \<Rightarrow> time \<Rightarrow> bool" where
  "paths_warming_up c now =
     (case concat (map (\<lambda>x. case x of Some t \<Rightarrow> [dt_utc (aware t)] | None \<Rightarrow> []) [paths_changed_at c, probe_bound_at c, created_at c]) of
        [] \<Rightarrow> False
      | t # ts \<Rightarrow> now - fold max ts t < sec (max (interval_seconds c * PROBE_WARMUP_INTERVALS) 180))"

section \<open>inside_probe.py: asking the server of the site\<close>

definition inside_REPEAT :: int where "inside_REPEAT = 5 * 60"

text \<open>\<open>manual_probe._ver\<close> and \<open>fast_agent\<close>: versions compare as tuples.\<close>

definition ver :: "string \<Rightarrow> int list" where
  "ver v = (case rmap int_of_str (split_chr CHR ''.'' (strip v)) of Inr xs \<Rightarrow> xs | Inl _ \<Rightarrow> [0])"

definition fast_agent :: "server \<Rightarrow> bool" where
  "fast_agent s \<longleftrightarrow> [2, 7] \<le> ver (agent_version s)"

definition inside_request :: "check \<Rightarrow> time \<Rightarrow> site_db \<Rightarrow> (bool \<times> check \<times> site_db) res" where
  "inside_request c now db =
     (if ck_type c \<noteq> ''http'' \<or> probe_local c then Inr (False, c, db)
      else if probe_port (ck_target c) \<notin> {None, Some 80, Some 443} then Inr (False, c, db)
      else
        (let li = dict_or_empty (last_inside c);
             asked = known_ts (dget li ''asked'')
         in rbind (case asked of None \<Rightarrow> Inr False | Some t \<Rightarrow> rbind (dt_sub (utc now) t) (\<lambda>d. Inr (d < sec inside_REPEAT)))
              (\<lambda>recent.
            if recent then Inr (False, c, db)
            else rbind (index_of (db_servers db) index0) (\<lambda>idx.
              let pid = map_option fst (find (\<lambda>(_, why). why = ''site'' \<or> why = ''ip'') (parents_of c idx));
                  srv = (case pid of Some i \<Rightarrow> if i \<noteq> 0 then find (\<lambda>s. sid s = i) (db_servers db) else None | None \<Rightarrow> None)
              in case srv of
                   None \<Rightarrow> Inr (False, c, db)
                 | Some s \<Rightarrow>
                     if \<not> enabled s \<or> \<not> fast_agent s \<or> \<not> seen_online s now then Inr (False, c, db)
                     else Inr (True,
                       c\<lparr>last_inside := PDict [(''asked'', PStr (iso now)), (''server_id'', PInt (sid s)), (''server'', PStr (srv_name s))]\<rparr>,
                       db\<lparr>probe_requests := probe_requests db @ [(ck_id c, sid s, now)],
                          db_servers := map (\<lambda>t. if sid t = sid s then t\<lparr>probe_pending_at := Some (utc now)\<rparr> else t) (db_servers db)\<rparr>)))))"

section \<open>One result\<close>

text \<open>\<open>isinstance(v, int)\<close> includes the booleans.\<close>

definition sample_phases :: "py \<Rightarrow> dict" where
  "sample_phases ph =
     (case ph of
        PDict d \<Rightarrow> concat (map (\<lambda>k. case dget d k of
             PInt i \<Rightarrow> [(''ph_'' @ k, PInt i)] | PBool b \<Rightarrow> [(''ph_'' @ k, PBool b)] | _ \<Rightarrow> [])
             [''dns'', ''connect'', ''tls'', ''wait''])
      | _ \<Rightarrow> [])"

text \<open>The earlier samples of a monitor, oldest first.\<close>

definition earlier :: "check \<Rightarrow> time \<Rightarrow> site_db \<Rightarrow> sample list" where
  "earlier row now db = sort_key sm_ts (filter (\<lambda>s. sm_check s = ck_id row \<and> sm_ts s < now) (samples db))"

definition flap_hist :: "check \<Rightarrow> time \<Rightarrow> string \<Rightarrow> site_db \<Rightarrow> hist" where
  "flap_hist row now status db =
     (let lim = max (int STABLE_N) (FLAP_WINDOW div 1000000 div max (interval_seconds row) 1 + 2)
      in map (\<lambda>s. (utc (sm_ts s), sm_status s)) (last_n (nat (min lim 400)) (earlier row now db)) @ [(utc now, status)])"

definition site_pending :: "string \<Rightarrow> check \<Rightarrow> string \<Rightarrow> site_text \<Rightarrow> int option \<Rightarrow> flag list \<Rightarrow> pending" where
  "site_pending kind row st txt inc fl =
     \<lparr>pd_kind = kind, pd_name = ck_name row, pd_status = st, pd_text = txt, pd_inc = inc, pd_check = ck_id row, pd_flags = fl\<rparr>"

definition flaky_step :: "check \<Rightarrow> string \<Rightarrow> string \<Rightarrow> time \<Rightarrow> site_db \<Rightarrow> check \<times> pending list" where
  "flaky_step row new_status msg now db =
     (let thr = max (alert_after_failures row) 1;
          prev = filter (\<lambda>s. case cutoff (flap_state row) of None \<Rightarrow> True | Some c \<Rightarrow> sm_ts s > dt_utc c) (earlier row now db);
          hist = map (\<lambda>s. (sm_status s, sm_message s)) (last_n (flaky_WINDOW + nat thr) prev) @ [(new_status, msg)];
          statuses = map fst hist;
          was = (flaky_since row \<noteq> None);
          now_flaky = is_flaky statuses thr was;
          row = (if now_flaky \<and> \<not> was then row\<lparr>flaky_since := Some (utc now)\<rparr>
                 else if was \<and> \<not> now_flaky then row\<lparr>flaky_since := None\<rparr> else row);
          ep = level (flap_state row)
      in if now_flaky \<and> \<not> flaky_notified row \<and> ep \<noteq> None then (row\<lparr>flaky_notified := True\<rparr>, [])
         else if \<not> now_flaky \<and> flaky_notified row \<and> ep = Some ''down'' then (row\<lparr>flaky_notified := False\<rparr>, [])
         else if now_flaky \<and> \<not> flaky_notified row then
           (let fails = fst (short_failures statuses thr);
                last_err = (case find (\<lambda>(st, m). st = ''down'' \<and> m \<noteq> []) (rev hist) of Some (_, m) \<Rightarrow> m | None \<Rightarrow> [])
            in (row, [site_pending ''flaky'' row new_status (FlakyText (int fails) (int (min (length statuses) flaky_WINDOW)) last_err)
                 None [FlakyNotified True, FlapState (opened ''flaky'' now)]]))
         else if \<not> now_flaky \<and> flaky_notified row then
           (if ep = Some ''flaky'' then row\<lparr>flap_state := Some (closed now)\<rparr> else row,
            [site_pending ''flakyrec'' row ''up'' FlakyOver None [FlakyNotified False]])
         else (row, []))"

text \<open>The open incident of a monitor, and a change of one incident.\<close>

definition open_incident :: "check \<Rightarrow> site_db \<Rightarrow> incident option" where
  "open_incident row db = find (\<lambda>i. in_check i = ck_id row \<and> in_ended_at i = None) (incidents db)"

definition upd_incident :: "int \<Rightarrow> (incident \<Rightarrow> incident) \<Rightarrow> site_db \<Rightarrow> site_db" where
  "upd_incident i f db = db\<lparr>incidents := map (\<lambda>x. if in_id x = i then f x else x) (incidents db)\<rparr>"

text \<open>The branch of \<open>record_outcome\<close> for a result that is not \<open>up\<close>.\<close>

definition outcome_bad :: "check \<Rightarrow> string option \<Rightarrow> string \<Rightarrow> string \<Rightarrow> time \<Rightarrow> bool \<Rightarrow> site_db \<Rightarrow> site_db \<times> pending list" where
  "outcome_bad row ep new_status msg now manual db =
     (let (inc, db) =
        (case open_incident row db of
           None \<Rightarrow>
             (let inc = \<lparr>in_id = new_id in_id (incidents db), in_check = ck_id row, in_status = new_status, in_started_at = utc now,
                         in_ended_at = None, in_last_message = msg, in_notified = False\<rparr>
              in (inc, db\<lparr>incidents := incidents db @ [inc]\<rparr>))
         | Some inc \<Rightarrow> (inc, upd_incident (in_id inc) (\<lambda>x. x\<lparr>in_status := new_status, in_last_message := msg\<rparr>) db));
          threshold = max (if new_status = ''degraded'' then degraded_after_failures row else alert_after_failures row) 1
      in if \<not> manual \<and> \<not> in_notified inc \<and> consecutive_fails row \<ge> threshold then
           (if ep = Some ''down'' then (upd_incident (in_id inc) (\<lambda>x. x\<lparr>in_notified := True\<rparr>) db, [])
            else if ep = Some ''flaky'' \<and> now - dt_utc (aware (in_started_at inc)) < flap_WORSE then (db, [])
            else (db, [site_pending ''bad'' row new_status (RawText msg) (Some (in_id inc)) [FlapState (opened ''down'' now)]]))
         else (db, []))"

text \<open>The branches for a result that is \<open>up\<close>.\<close>

definition outcome_up :: "check \<Rightarrow> string option \<Rightarrow> string \<Rightarrow> time \<Rightarrow> site_db \<Rightarrow> check \<times> site_db \<times> pending list" where
  "outcome_up row ep msg now db =
     (case open_incident row db of
        Some inc \<Rightarrow>
          (let db1 = upd_incident (in_id inc) (\<lambda>x. x\<lparr>in_ended_at := Some (utc now)\<rparr>) db
           in if \<not> in_notified inc then (row, db1, [])
              else if flaky_since row \<noteq> None \<or> flapping (flap_hist row now ''up'' db) now
              then (if ep \<noteq> Some ''down'' then row\<lparr>flap_state := Some (opened ''down'' now)\<rparr> else row, db1, [])
              else (row\<lparr>flap_state := Some (closed now)\<rparr>, db1, [site_pending ''recovery'' row ''up'' (RawText msg) None []]))
      | None \<Rightarrow>
          if ep = Some ''down'' \<and> stable (flap_hist row now ''up'' db) now
          then (row\<lparr>flap_state := Some (closed now), flaky_since := None, flaky_notified := False\<rparr>, db,
                [site_pending ''recstable'' row ''up'' (StableAgain msg) None []])
          else (row, db, []))"

text \<open>The known problem of the monitor.\<close>

definition outcome_known :: "check \<Rightarrow> string \<Rightarrow> string \<Rightarrow> time \<Rightarrow> site_db \<Rightarrow> (check \<times> site_db \<times> pending list) res" where
  "outcome_known row new_status msg now db =
     (case known_issue row of
        None \<Rightarrow> Inr (row, db, [])
      | Some k \<Rightarrow>
          if k = [] then Inr (row, db, [])
          else rbind (step_check k (new_status = ''up'' \<and> flaky_since row = None) now) (\<lambda>(new_k, what).
            Inr (row\<lparr>known_issue := new_k\<rparr>,
                 if what = ''closed'' \<or> what = ''expired''
                 then db\<lparr>known_audit := known_audit db @ [(''known_'' @ what, take 255 (ck_name row))]\<rparr> else db,
                 case new_k of
                   Some nk \<Rightarrow> if what = ''remind'' then [site_pending ''known'' row new_status
                                  (KnownReminder (if msg \<noteq> [] then msg else new_status) nk) None []] else []
                 | None \<Rightarrow> [])))"

text \<open>What the row keeps of the result; \<open>ipr["ip"]\<close> and \<open>ipr["status"]\<close> raise for a missing key.\<close>

definition outcome_store :: "check \<Rightarrow> outcome \<Rightarrow> string \<Rightarrow> time \<Rightarrow> check" where
  "outcome_store row oc msg now =
     (let row = (case oc_answers oc of
                   Some ans \<Rightarrow>
                     if ck_type row = ''dns'' then
                       (let row = row\<lparr>dns_last := ans\<rparr>
                        in if oc_status oc = ''up'' \<and> ans \<noteq> [] \<and> dns_baseline row = [] \<and> strip (dns_expect row) = []
                           then row\<lparr>dns_baseline := ans\<rparr> else row)
                     else row
                 | None \<Rightarrow> row);
          row = row\<lparr>last_status := oc_status oc, last_message := msg, last_latency_ms := oc_latency_ms oc,
                    last_value := oc_value oc, last_checked_at := Some (utc now)\<rparr>;
          row = (case oc_value oc of
                   Some v \<Rightarrow> if ck_type row = ''cert'' then row\<lparr>ssl_days := Some (trunc v), expiry_checked_at := Some (utc now)\<rparr> else row
                 | None \<Rightarrow> row);
          row = row\<lparr>last_path_results := oc_path_results oc, last_phases := oc_phases oc\<rparr>
      in case oc_ip_results oc of
           Some rs \<Rightarrow> row\<lparr>last_ip_results := PList (map PDict rs)\<rparr>
         | None \<Rightarrow> row)"

definition ip_sample_of :: "check \<Rightarrow> time \<Rightarrow> dict \<Rightarrow> ip_sample res" where
  "ip_sample_of row now d =
     (case (map_of d ''ip'', map_of d ''status'') of
        (Some ip, Some st) \<Rightarrow> Inr \<lparr>is_check = ck_id row, is_ip = ip, is_status = st, is_latency = dget d ''latency_ms'', is_ts = now\<rparr>
      | _ \<Rightarrow> Inl KeyError)"

text \<open>The counter and the sample come first; the request to the server of the site swallows its own errors.\<close>

definition outcome_count :: "check \<Rightarrow> outcome \<Rightarrow> string \<Rightarrow> time \<Rightarrow> bool \<Rightarrow> site_db \<Rightarrow> check \<times> site_db" where
  "outcome_count row oc msg now manual db =
     (let db = db\<lparr>samples := samples db @ [\<lparr>sm_check = ck_id row, sm_ts = now, sm_status = oc_status oc, sm_message = msg,
                    sm_latency_ms = oc_latency_ms oc, sm_value = oc_value oc, sm_phases = sample_phases (oc_phases oc)\<rparr>]\<rparr>;
          row = (if oc_status oc = ''up'' then row\<lparr>consecutive_fails := 0\<rparr>
                 else if \<not> manual then row\<lparr>consecutive_fails := consecutive_fails row + 1\<rparr> else row)
      in if oc_status oc = ''down'' \<and> \<not> manual \<and> consecutive_fails row = 1 then
           (case inside_request row now db of Inr (_, row, db) \<Rightarrow> (row, db) | Inl _ \<Rightarrow> (row, db))
         else (row, db))"

text \<open>An episode nobody looked at for longer than \<open>STABLE\<close> is forgotten.\<close>

definition forgotten :: "check \<Rightarrow> time \<Rightarrow> bool" where
  "forgotten row now \<longleftrightarrow> level (flap_state row) \<noteq> None \<and>
     (case last_checked_at row of None \<Rightarrow> False | Some t \<Rightarrow> now - dt_utc (aware t) > flap_STABLE)"

definition record_outcome :: "check \<Rightarrow> outcome \<Rightarrow> time \<Rightarrow> bool \<Rightarrow> site_db \<Rightarrow> (check \<times> site_db \<times> pending list) res" where
  "record_outcome row oc now manual db =
     (let msg = take 512 (oc_message oc);
          new_status = oc_status oc;
          (row, db) = outcome_count row oc msg now manual db;
          row = (if forgotten row now then row\<lparr>flap_state := None\<rparr> else row);
          ep = level (flap_state row);
          (row, db, p1) = (if new_status \<noteq> ''up'' then (case outcome_bad row ep new_status msg now manual db of (db, ps) \<Rightarrow> (row, db, ps))
                           else outcome_up row ep msg now db);
          (row, p2) = (if manual then (row, []) else flaky_step row new_status msg now db)
      in rbind (if manual then Inr (row, db, []) else outcome_known row new_status msg now db) (\<lambda>(row, db, p3).
           rbind (case oc_ip_results oc of None \<Rightarrow> Inr [] | Some rs \<Rightarrow> rmap (ip_sample_of row now) rs) (\<lambda>ips.
             Inr (outcome_store row oc msg now, db\<lparr>ip_samples := ip_samples db @ ips\<rparr>, p1 @ p2 @ p3))))"

section \<open>The pass and the delivery\<close>

text \<open>The loop of \<open>run_due_checks\<close>; an exception ends it before the commit, so nothing of the pass is kept.\<close>

fun check_loop ::
  "time \<Rightarrow> (int \<times> outcome \<times> expiry_info option) list \<Rightarrow> check list \<Rightarrow> site_db \<Rightarrow> domain_alerts option
   \<Rightarrow> (check list \<times> site_db \<times> pending list) res" where
  "check_loop now [] rows db doms = Inr (rows, db, [])"
| "check_loop now ((cid, oc, ex) # due) rows db doms =
     (case find (\<lambda>r. ck_id r = cid) rows of
        None \<Rightarrow> check_loop now due rows db doms
      | Some row \<Rightarrow>
          rbind (record_outcome row oc now False db) (\<lambda>(row, db, p1).
          rbind (case ex of None \<Rightarrow> Inr (row, [], doms) | Some info \<Rightarrow> apply_expiry row info now doms) (\<lambda>(row, p2, doms).
          rbind (check_loop now due (map (\<lambda>r. if ck_id r = cid then row else r) rows) db doms) (\<lambda>(rows, db, p3).
            Inr (rows, db, p1 @ p2 @ p3)))))"

definition check_pass ::
  "time \<Rightarrow> (int \<times> outcome \<times> expiry_info option) list \<Rightarrow> check list \<Rightarrow> site_db \<Rightarrow> (check list \<times> site_db \<times> pending list) res" where
  "check_pass now due rows db =
     rbind (if list_ex (\<lambda>(_, _, e). e \<noteq> None) due
            then rbind (domain_alerts (map (\<lambda>c. (ck_id c, ck_target c, ck_name c, domain_alerted_days c, domain_days c))
                          (filter check_domain rows)) []) (\<lambda>d. Inr (Some d))
            else Inr None) (check_loop now due rows db)"

text \<open>The last block of \<open>_send_alerts\<close>, for the alerts of one monitor that were delivered.\<close>

definition deliver :: "pending list \<Rightarrow> check \<times> site_db \<Rightarrow> check \<times> site_db" where
  "deliver sent = fold (\<lambda>p (row, db).
     (deliver_row [p] row,
      case pd_inc p of
        Some i \<Rightarrow> if pd_kind p = ''bad'' then upd_incident i (\<lambda>x. x\<lparr>in_notified := True\<rparr>) db else db
      | None \<Rightarrow> db)) sent"

end
