(* ===== verification/Site_Alarms.thy ===== *)
theory Site_Alarms
  imports Site_Monitor
begin

text \<open>
  What the operations of \<open>Site_Monitor\<close> guarantee: incidents follow the status of a monitor, alarms and their ends take
  turns over every run, an alarm has enough confirmed failures behind it, a domain is announced once per threshold, an
  address that cannot be parsed stops the pass, and the server that checks a site from inside cannot be replaced by
  another server's claim.
\<close>

section \<open>Incidents\<close>

definition opens :: "int \<Rightarrow> site_db \<Rightarrow> incident list" where
  "opens cid db = filter (\<lambda>i. in_check i = cid \<and> in_ended_at i = None) (incidents db)"

definition wf_inc :: "site_db \<Rightarrow> bool" where
  "wf_inc db \<longleftrightarrow> distinct (map in_id (incidents db)) \<and> (\<forall>cid. length (opens cid db) \<le> 1)"

definition open_notified :: "int \<Rightarrow> site_db \<Rightarrow> bool" where
  "open_notified cid db \<longleftrightarrow> list_ex in_notified (opens cid db)"

lemma wf_inc_0: "wf_inc site_db0"
  by (simp add: wf_inc_def opens_def site_db0_def)

lemma find_filter: "find P xs = (case filter P xs of [] \<Rightarrow> None | x # _ \<Rightarrow> Some x)"
  by (induction xs) auto

lemma open_incident_opens: "open_incident row db = (case opens (ck_id row) db of [] \<Rightarrow> None | x # _ \<Rightarrow> Some x)"
  by (simp add: open_incident_def opens_def find_filter)

text \<open>A change of one incident that keeps its monitor.\<close>

lemma opens_upd_keep:
  assumes "\<And>x. in_check (f x) = in_check x" "\<And>x. in_ended_at (f x) = in_ended_at x"
  shows "opens cid (upd_incident i f db) = map (\<lambda>x. if in_id x = i then f x else x) (opens cid db)"
  unfolding opens_def upd_incident_def using assms by (simp add: filter_map comp_def if_distrib cong: if_cong)

lemma wf_inc_upd_keep:
  assumes "wf_inc db" "\<And>x. in_check (f x) = in_check x" "\<And>x. in_ended_at (f x) = in_ended_at x" "\<And>x. in_id (f x) = in_id x"
  shows "wf_inc (upd_incident i f db)"
proof -
  have "map in_id (incidents (upd_incident i f db)) = map in_id (incidents db)"
    using assms(4) by (simp add: upd_incident_def comp_def)
  with assms(1) show ?thesis
    by (simp add: wf_inc_def opens_upd_keep [of f, OF assms(2,3)])
qed

lemma filter_map_upd:
  "(\<And>x. \<not> P (g x)) \<Longrightarrow> filter P (map (\<lambda>x. if k x = i then g x else x) xs) = filter (\<lambda>x. k x \<noteq> i) (filter P xs)"
  by (induction xs) auto

lemma opens_close:
  assumes "wf_inc db" "opens cid db = [inc]"
  shows "opens c (upd_incident (in_id inc) (\<lambda>x. x\<lparr>in_ended_at := Some t\<rparr>) db) = (if c = cid then [] else opens c db)"
proof -
  have inc: "inc \<in> set (incidents db)" "in_check inc = cid"
    using assms(2) by (auto simp: opens_def filter_eq_Cons_iff)
  have "opens c (upd_incident (in_id inc) (\<lambda>x. x\<lparr>in_ended_at := Some t\<rparr>) db) = filter (\<lambda>x. in_id x \<noteq> in_id inc) (opens c db)"
    unfolding opens_def upd_incident_def by (simp add: filter_map_upd)
  also have "\<dots> = (if c = cid then [] else opens c db)"
  proof (cases "c = cid")
    case False
    have "in_id x \<noteq> in_id inc" if "x \<in> set (opens c db)" for x
    proof
      assume "in_id x = in_id inc"
      moreover have "x \<in> set (incidents db)" "in_check x = c" using that by (auto simp: opens_def)
      ultimately have "x = inc" using assms(1) inc(1) by (metis wf_inc_def distinct_map inj_onD)
      with \<open>in_check x = c\<close> inc(2) False show False by simp
    qed
    with False show ?thesis by (simp add: filter_id_conv)
  qed (simp add: assms(2))
  finally show ?thesis .
qed

lemma wf_inc_close:
  assumes "wf_inc db" "opens cid db = [inc]"
  shows "wf_inc (upd_incident (in_id inc) (\<lambda>x. x\<lparr>in_ended_at := Some t\<rparr>) db)"
proof -
  have "map in_id (incidents (upd_incident (in_id inc) (\<lambda>x. x\<lparr>in_ended_at := Some t\<rparr>) db)) = map in_id (incidents db)"
    by (simp add: upd_incident_def comp_def)
  with assms show ?thesis
    unfolding wf_inc_def by (simp add: opens_close [OF assms])
qed

lemma wf_inc_new:
  assumes "wf_inc db" "opens cid db = []" "in_id inc = new_id in_id (incidents db)" "in_check inc = cid" "in_ended_at inc = None"
  shows "wf_inc (db\<lparr>incidents := incidents db @ [inc]\<rparr>)"
    "opens cid (db\<lparr>incidents := incidents db @ [inc]\<rparr>) = [inc]"
proof -
  have "in_id inc \<notin> in_id ` set (incidents db)"
    using new_id_fresh [of _ "incidents db" in_id] assms(3) by force
  moreover have "opens c (db\<lparr>incidents := incidents db @ [inc]\<rparr>) = opens c db @ (if c = cid then [inc] else [])" for c
    using assms(4,5) by (simp add: opens_def)
  ultimately show "wf_inc (db\<lparr>incidents := incidents db @ [inc]\<rparr>)"
    "opens cid (db\<lparr>incidents := incidents db @ [inc]\<rparr>) = [inc]"
    using assms(1,2) by (auto simp: wf_inc_def)
qed

section \<open>What each part of a result changes\<close>

lemma inside_request_frame:
  assumes "inside_request c now db = Inr (x, c', db')"
  shows "incidents db' = incidents db \<and> (c' = c \<or> (\<exists>v. c' = c\<lparr>last_inside := v\<rparr>))"
proof -
  let ?P = "\<lambda>r :: (bool \<times> check \<times> site_db) res. \<forall>x c' db'. r = Inr (x, c', db') \<longrightarrow>
      incidents db' = incidents db \<and> (c' = c \<or> (\<exists>v. c' = c\<lparr>last_inside := v\<rparr>))"
  have b: "?P (rbind m f)" if "\<And>y. ?P (f y)" for m :: "'b res" and f
    using that by (cases m) auto
  have "?P (inside_request c now db)"
    unfolding inside_request_def Let_def
    apply (split if_split, rule conjI, simp)
    apply (rule impI, split if_split, rule conjI, simp)
    apply (rule impI, rule b, split if_split, rule conjI, simp)
    apply (rule impI, rule b)
    apply (split option.split, rule conjI, simp)
    apply (simp)
    apply blast
    done
  with assms show ?thesis by blast
qed

lemma outcome_count_frame:
  assumes "outcome_count row oc msg now manual db = (row', db')"
  shows "incidents db' = incidents db"
    "ck_id row' = ck_id row" "flap_state row' = flap_state row" "last_checked_at row' = last_checked_at row"
    "flaky_since row' = flaky_since row" "flaky_notified row' = flaky_notified row"
    "alert_after_failures row' = alert_after_failures row" "degraded_after_failures row' = degraded_after_failures row"
    "consecutive_fails row' = (if oc_status oc = ''up'' then 0 else if manual then consecutive_fails row else consecutive_fails row + 1)"
  using assms
  by (auto simp: outcome_count_def Let_def split: if_splits sum.splits prod.splits dest: inside_request_frame)

lemma outcome_bad_effect:
  assumes wf: "wf_inc db" and r: "outcome_bad row ep st msg now manual db = (db', ps)"
  shows "wf_inc db'" "\<exists>inc. opens (ck_id row) db' = [inc]"
    "(ps = [] \<and> (open_notified (ck_id row) db' = open_notified (ck_id row) db \<or> ep = Some ''down'')
        \<and> (open_notified (ck_id row) db \<longrightarrow> open_notified (ck_id row) db')) \<or>
     (\<exists>inc fl. opens (ck_id row) db' = [inc] \<and> \<not> in_notified inc \<and> \<not> open_notified (ck_id row) db \<and> ep \<noteq> Some ''down'' \<and> \<not> manual \<and>
        consecutive_fails row \<ge> max (if st = ''degraded'' then degraded_after_failures row else alert_after_failures row) 1 \<and>
        ps = [site_pending ''bad'' row st (RawText msg) (Some (in_id inc)) [FlapState (opened ''down'' now)]])"
proof -
  let ?c = "ck_id row"
  define inc1 where "inc1 = \<lparr>in_id = new_id in_id (incidents db), in_check = ?c, in_status = st, in_started_at = utc now,
                         in_ended_at = None, in_last_message = msg, in_notified = False\<rparr>"
  define st_upd :: "incident \<Rightarrow> incident" where "st_upd = (\<lambda>x. x\<lparr>in_status := st, in_last_message := msg\<rparr>)"
  obtain inc db1 where d: "(case open_incident row db of None \<Rightarrow> (inc1, db\<lparr>incidents := incidents db @ [inc1]\<rparr>)
       | Some inc \<Rightarrow> (inc, upd_incident (in_id inc) st_upd db)) = (inc, db1)"
    by fastforce
  have 1: "wf_inc db1 \<and> (\<exists>x. opens ?c db1 = [x] \<and> in_id x = in_id inc \<and> in_notified x = in_notified inc)
      \<and> (in_notified inc \<longleftrightarrow> open_notified ?c db)"
  proof (cases "opens ?c db")
    case Nil
    with d have x: "inc = inc1" "db1 = db\<lparr>incidents := incidents db @ [inc1]\<rparr>" by (auto simp: open_incident_opens)
    with wf_inc_new [OF wf Nil, of inc1] Nil show ?thesis by (simp add: inc1_def open_notified_def)
  next
    case (Cons y ys)
    with wf have y: "opens ?c db = [y]" by (cases ys) (auto simp: wf_inc_def dest: spec [of _ ?c])
    with d have x: "inc = y" "db1 = upd_incident (in_id y) st_upd db" by (auto simp: open_incident_opens)
    show ?thesis
      unfolding x(2) using wf_inc_upd_keep [OF wf, of st_upd] opens_upd_keep [of st_upd ?c "in_id y" db] y x(1)
      by (simp add: st_upd_def open_notified_def)
  qed
  then obtain x where wf1: "wf_inc db1" and x: "opens ?c db1 = [x]" "in_id x = in_id inc" "in_notified x = in_notified inc"
    and n: "in_notified inc \<longleftrightarrow> open_notified ?c db" by blast
  define due where "due \<longleftrightarrow> \<not> manual \<and> \<not> in_notified inc \<and>
     consecutive_fails row \<ge> max (if st = ''degraded'' then degraded_after_failures row else alert_after_failures row) 1"
  have r': "(db', ps) = (if due then
           (if ep = Some ''down'' then (upd_incident (in_id inc) (\<lambda>x. x\<lparr>in_notified := True\<rparr>) db1, [])
            else if ep = Some ''flaky'' \<and> now - dt_utc (aware (in_started_at inc)) < flap_WORSE then (db1, [])
            else (db1, [site_pending ''bad'' row st (RawText msg) (Some (in_id inc)) [FlapState (opened ''down'' now)]]))
         else (db1, []))"
    using r [symmetric] unfolding outcome_bad_def Let_def inc1_def [symmetric] st_upd_def [symmetric] d due_def prod.case .
  note upd = wf_inc_upd_keep [OF wf1, of "\<lambda>x. x\<lparr>in_notified := True\<rparr>" "in_id inc"]
    opens_upd_keep [of "\<lambda>x. x\<lparr>in_notified := True\<rparr>" ?c "in_id inc" db1]
  show "wf_inc db'" "\<exists>inc. opens ?c db' = [inc]"
    using r' wf1 x upd by (auto split: if_splits)
  show "(ps = [] \<and> (open_notified ?c db' = open_notified ?c db \<or> ep = Some ''down'')
        \<and> (open_notified ?c db \<longrightarrow> open_notified ?c db')) \<or>
     (\<exists>inc fl. opens ?c db' = [inc] \<and> \<not> in_notified inc \<and> \<not> open_notified ?c db \<and> ep \<noteq> Some ''down'' \<and> \<not> manual \<and>
        consecutive_fails row \<ge> max (if st = ''degraded'' then degraded_after_failures row else alert_after_failures row) 1 \<and>
        ps = [site_pending ''bad'' row st (RawText msg) (Some (in_id inc)) [FlapState (opened ''down'' now)]])"
    using r' x n upd by (auto simp: open_notified_def due_def split: if_splits)
qed

lemma outcome_up_effect:
  assumes wf: "wf_inc db" and r: "outcome_up row ep msg now db = (row', db', ps)" and ep: "ep = level (flap_state row)"
  shows "wf_inc db'" "opens (ck_id row) db' = []" "ck_id row' = ck_id row"
    "(ps = [] \<and> (level (flap_state row') = Some ''down'' \<longleftrightarrow> level (flap_state row) = Some ''down'' \<or> open_notified (ck_id row) db)) \<or>
     (\<exists>kind txt. kind \<in> {''recovery'', ''recstable''} \<and> ps = [site_pending kind row ''up'' txt None []] \<and>
        level (flap_state row') = None \<and> (level (flap_state row) = Some ''down'' \<or> open_notified (ck_id row) db))"
proof -
  let ?c = "ck_id row"
  have "wf_inc db' \<and> opens ?c db' = [] \<and> ck_id row' = ck_id row \<and>
    ((ps = [] \<and> (level (flap_state row') = Some ''down'' \<longleftrightarrow> level (flap_state row) = Some ''down'' \<or> open_notified ?c db)) \<or>
     (\<exists>kind txt. kind \<in> {''recovery'', ''recstable''} \<and> ps = [site_pending kind row ''up'' txt None []] \<and>
        level (flap_state row') = None \<and> (level (flap_state row) = Some ''down'' \<or> open_notified ?c db)))"
  proof (cases "opens ?c db")
    case Nil
    with r wf ep show ?thesis
      by (auto simp: outcome_up_def open_incident_opens open_notified_def site_pending_def split: if_splits)
  next
    case (Cons y ys)
    with wf have y: "opens ?c db = [y]" by (cases ys) (auto simp: wf_inc_def dest: spec [of _ ?c])
    have d: "db' = upd_incident (in_id y) (\<lambda>x. x\<lparr>in_ended_at := Some (utc now)\<rparr>) db"
      using r y by (auto simp: outcome_up_def open_incident_opens Let_def split: if_splits)
    have n: "open_notified ?c db = in_notified y" by (simp add: open_notified_def y)
    from r y ep have "ck_id row' = ck_id row \<and>
      ((ps = [] \<and> (level (flap_state row') = Some ''down'' \<longleftrightarrow> level (flap_state row) = Some ''down'' \<or> in_notified y)) \<or>
     (\<exists>kind txt. kind \<in> {''recovery'', ''recstable''} \<and> ps = [site_pending kind row ''up'' txt None []] \<and>
        level (flap_state row') = None \<and> in_notified y))"
      by (auto simp: outcome_up_def open_incident_opens Let_def split: if_splits)
    with wf_inc_close [OF wf y] opens_close [OF wf y] show ?thesis
      unfolding d n by auto
  qed
  then show "wf_inc db'" "opens (ck_id row) db' = []" "ck_id row' = ck_id row"
    "(ps = [] \<and> (level (flap_state row') = Some ''down'' \<longleftrightarrow> level (flap_state row) = Some ''down'' \<or> open_notified (ck_id row) db)) \<or>
     (\<exists>kind txt. kind \<in> {''recovery'', ''recstable''} \<and> ps = [site_pending kind row ''up'' txt None []] \<and>
        level (flap_state row') = None \<and> (level (flap_state row) = Some ''down'' \<or> open_notified (ck_id row) db))"
    by blast+
qed

text \<open>The step about partial failures never touches an announced outage, and what it queues can only open an episode
  where none is open.\<close>

lemma flaky_step_effect:
  assumes "flaky_step row st msg now db = (row', ps)"
  shows "ck_id row' = ck_id row" "consecutive_fails row' = consecutive_fails row"
    "level (flap_state row') = Some ''down'' \<longleftrightarrow> level (flap_state row) = Some ''down''"
    "ps = [] \<or>
     (\<exists>r txt. ps = [site_pending ''flaky'' r st txt None [FlakyNotified True, FlapState (opened ''flaky'' now)]] \<and> level (flap_state row') = None) \<or>
     (\<exists>r. ps = [site_pending ''flakyrec'' r ''up'' FlakyOver None [FlakyNotified False]])"
proof -
  define thr where "thr = max (alert_after_failures row) 1"
  define hist where "hist = map (\<lambda>s. (sm_status s, sm_message s)) (last_n (flaky_WINDOW + nat thr)
     (filter (\<lambda>s. case cutoff (flap_state row) of None \<Rightarrow> True | Some c \<Rightarrow> sm_ts s > dt_utc c) (earlier row now db))) @ [(st, msg)]"
  define nf where "nf = is_flaky (map fst hist) thr (flaky_since row \<noteq> None)"
  define row1 where "row1 = (if nf \<and> \<not> flaky_since row \<noteq> None then row\<lparr>flaky_since := Some (utc now)\<rparr>
                 else if flaky_since row \<noteq> None \<and> \<not> nf then row\<lparr>flaky_since := None\<rparr> else row)"
  have r1: "ck_id row1 = ck_id row" "consecutive_fails row1 = consecutive_fails row" "flap_state row1 = flap_state row"
    by (simp_all add: row1_def)
  obtain tx where step: "(row', ps) =
      (if nf \<and> \<not> flaky_notified row1 \<and> level (flap_state row1) \<noteq> None then (row1\<lparr>flaky_notified := True\<rparr>, [])
         else if \<not> nf \<and> flaky_notified row1 \<and> level (flap_state row1) = Some ''down'' then (row1\<lparr>flaky_notified := False\<rparr>, [])
         else if nf \<and> \<not> flaky_notified row1 then
           (row1, [site_pending ''flaky'' row1 st tx None [FlakyNotified True, FlapState (opened ''flaky'' now)]])
         else if \<not> nf \<and> flaky_notified row1 then
           (if level (flap_state row1) = Some ''flaky'' then row1\<lparr>flap_state := Some (closed now)\<rparr> else row1,
            [site_pending ''flakyrec'' row1 ''up'' FlakyOver None [FlakyNotified False]])
         else (row1, []))"
    using assms [symmetric]
    unfolding flaky_step_def Let_def thr_def [symmetric] hist_def [symmetric] nf_def [symmetric] row1_def [symmetric]
    by blast
  then show "ck_id row' = ck_id row" "consecutive_fails row' = consecutive_fails row"
    "level (flap_state row') = Some ''down'' \<longleftrightarrow> level (flap_state row) = Some ''down''"
    using r1 by (auto split: if_splits)
  show "ps = [] \<or>
     (\<exists>r txt. ps = [site_pending ''flaky'' r st txt None [FlakyNotified True, FlapState (opened ''flaky'' now)]] \<and> level (flap_state row') = None) \<or>
     (\<exists>r. ps = [site_pending ''flakyrec'' r ''up'' FlakyOver None [FlakyNotified False]])"
    using step by (auto split: if_splits)
qed

lemma outcome_known_effect:
  assumes "outcome_known row st msg now db = Inr (row', db', ps)"
  shows "ck_id row' = ck_id row" "consecutive_fails row' = consecutive_fails row" "flap_state row' = flap_state row"
    "incidents db' = incidents db" "\<forall>p\<in>set ps. pd_kind p = ''known'' \<and> pd_flags p = [] \<and> pd_inc p = None"
proof -
  have "ck_id row' = ck_id row \<and> consecutive_fails row' = consecutive_fails row \<and> flap_state row' = flap_state row \<and>
    incidents db' = incidents db \<and> (\<forall>p\<in>set ps. pd_kind p = ''known'' \<and> pd_flags p = [] \<and> pd_inc p = None)"
  proof (cases "known_issue row = None \<or> known_issue row = Some []")
    case True
    with assms show ?thesis by (auto simp: outcome_known_def)
  next
    case False
    then obtain k where k: "known_issue row = Some k" "k \<noteq> []" by auto
    let ?db = "\<lambda>what. if what = ''closed'' \<or> what = ''expired''
        then db\<lparr>known_audit := known_audit db @ [(''known_'' @ what, take 255 (ck_name row))]\<rparr> else db"
    let ?ps = "\<lambda>new_k what. case new_k of Some nk \<Rightarrow> if what = ''remind'' then [site_pending ''known'' row st
               (KnownReminder (if msg \<noteq> [] then msg else st) nk) None []] else [] | None \<Rightarrow> []"
    from assms k have "rbind (step_check k (st = ''up'' \<and> flaky_since row = None) now)
        (\<lambda>(new_k, what). Inr (row\<lparr>known_issue := new_k\<rparr>, ?db what, ?ps new_k what)) = Inr (row', db', ps)"
      by (simp add: outcome_known_def)
    then obtain r where "(case r of (new_k, what) \<Rightarrow> Inr (row\<lparr>known_issue := new_k\<rparr>, ?db what, ?ps new_k what))
        = (Inr (row', db', ps) :: (check \<times> site_db \<times> pending list) res)"
      unfolding rbind_Inr_iff by blast
    then obtain new_k what where "row' = row\<lparr>known_issue := new_k\<rparr>" "db' = ?db what" "ps = ?ps new_k what"
      by (cases r) (simp only: prod.case sum.inject prod.inject, blast)
    then show ?thesis by (simp add: site_pending_def split: option.splits)
  qed
  then show "ck_id row' = ck_id row" "consecutive_fails row' = consecutive_fails row" "flap_state row' = flap_state row"
    "incidents db' = incidents db" "\<forall>p\<in>set ps. pd_kind p = ''known'' \<and> pd_flags p = [] \<and> pd_inc p = None"
    by blast+
qed

lemma outcome_store_frame [simp]:
  "ck_id (outcome_store row oc msg now) = ck_id row" "flap_state (outcome_store row oc msg now) = flap_state row"
  "consecutive_fails (outcome_store row oc msg now) = consecutive_fails row"
  "last_status (outcome_store row oc msg now) = oc_status oc"
  "last_checked_at (outcome_store row oc msg now) = Some (utc now)"
  by (simp_all add: outcome_store_def Let_def split: option.splits)

lemma opens_cong: "incidents db = incidents db' \<Longrightarrow> opens cid db = opens cid db'"
  by (simp add: opens_def)

lemma wf_inc_cong: "incidents db = incidents db' \<Longrightarrow> wf_inc db = wf_inc db'"
  by (simp add: wf_inc_def opens_def)

text \<open>The parts of \<open>record_outcome\<close> in a row.\<close>

lemma record_outcome_cases:
  assumes "record_outcome row oc now manual db = Inr (row', db', ps)"
  obtains row1 db1 row2 row3 db2 p1 row4 p2 row5 db3 p3 where
    "outcome_count row oc (take 512 (oc_message oc)) now manual db = (row1, db1)"
    "row2 = (if forgotten row1 now then row1\<lparr>flap_state := None\<rparr> else row1)"
    "oc_status oc \<noteq> ''up'' \<and> row3 = row2 \<and>
       outcome_bad row2 (level (flap_state row2)) (oc_status oc) (take 512 (oc_message oc)) now manual db1 = (db2, p1) \<or>
     oc_status oc = ''up'' \<and> outcome_up row2 (level (flap_state row2)) (take 512 (oc_message oc)) now db1 = (row3, db2, p1)"
    "manual \<and> row4 = row3 \<and> p2 = [] \<or> \<not> manual \<and> flaky_step row3 (oc_status oc) (take 512 (oc_message oc)) now db2 = (row4, p2)"
    "manual \<and> row5 = row4 \<and> db3 = db2 \<and> p3 = [] \<or>
     \<not> manual \<and> outcome_known row4 (oc_status oc) (take 512 (oc_message oc)) now db2 = Inr (row5, db3, p3)"
    "row' = outcome_store row5 oc (take 512 (oc_message oc)) now" "incidents db' = incidents db3" "ps = p1 @ p2 @ p3"
proof -
  let ?msg = "take 512 (oc_message oc)"
  obtain row1 db1 where 1: "outcome_count row oc ?msg now manual db = (row1, db1)" by fastforce
  define row2 where "row2 = (if forgotten row1 now then row1\<lparr>flap_state := None\<rparr> else row1)"
  obtain row3 db2 p1 where 3: "(if oc_status oc \<noteq> ''up''
      then (case outcome_bad row2 (level (flap_state row2)) (oc_status oc) ?msg now manual db1 of (db, ps) \<Rightarrow> (row2, db, ps))
      else outcome_up row2 (level (flap_state row2)) ?msg now db1) = (row3, db2, p1)"
    using prod_cases3 by blast
  obtain row4 p2 where 4: "(if manual then (row3, []) else flaky_step row3 (oc_status oc) ?msg now db2) = (row4, p2)" by fastforce
  from assms have "rbind (if manual then Inr (row4, db2, []) else outcome_known row4 (oc_status oc) ?msg now db2) (\<lambda>(row, db, p3).
           rbind (case oc_ip_results oc of None \<Rightarrow> Inr [] | Some rs \<Rightarrow> rmap (ip_sample_of row now) rs) (\<lambda>ips.
             Inr (outcome_store row oc ?msg now, db\<lparr>ip_samples := ip_samples db @ ips\<rparr>, p1 @ p2 @ p3))) = Inr (row', db', ps)"
    unfolding record_outcome_def Let_def 1 prod.case row2_def [symmetric] 3 4 .
  then obtain row5 db3 p3 where 5: "(if manual then Inr (row4, db2, []) else outcome_known row4 (oc_status oc) ?msg now db2) = Inr (row5, db3, p3)"
    "row' = outcome_store row5 oc ?msg now" "incidents db' = incidents db3" "ps = p1 @ p2 @ p3"
    by (auto simp: rbind_Inr_iff)
  show thesis
    by (rule that [OF 1 row2_def, of row3 db2 p1 row4 p2 row5 db3 p3])
       (use 3 4 5 in \<open>auto split: if_splits prod.splits\<close>)
qed

section \<open>The effect of one result\<close>

definition announced :: "check \<Rightarrow> site_db \<Rightarrow> bool" where
  "announced row db \<longleftrightarrow> level (flap_state row) = Some ''down'' \<or> open_notified (ck_id row) db"

definition clears :: "pending list \<Rightarrow> bool" where
  "clears ps \<longleftrightarrow> (\<exists>p\<in>set ps. pd_kind p = ''recovery'' \<or> pd_kind p = ''recstable'')"

definition alarms :: "pending list \<Rightarrow> bool" where
  "alarms ps \<longleftrightarrow> (\<exists>p\<in>set ps. pd_kind p = ''bad'')"

text \<open>Announced before the result, with a forgotten episode already dropped.\<close>

definition still_announced :: "check \<Rightarrow> site_db \<Rightarrow> time \<Rightarrow> bool" where
  "still_announced row db now \<longleftrightarrow> level (flap_state row) = Some ''down'' \<and> \<not> forgotten row now \<or> open_notified (ck_id row) db"

lemma site_pending_simps [simp]:
  "pd_kind (site_pending k row st x inc fl) = k" "pd_flags (site_pending k row st x inc fl) = fl"
  "pd_inc (site_pending k row st x inc fl) = inc" "pd_text (site_pending k row st x inc fl) = x"
  by (simp_all add: site_pending_def)

text \<open>What one result queues and leaves: neither an alarm nor an all-clear, or an alarm, or an all-clear.\<close>

definition queues :: "check \<Rightarrow> site_db \<Rightarrow> outcome \<Rightarrow> time \<Rightarrow> bool \<Rightarrow> check \<Rightarrow> site_db \<Rightarrow> pending list \<Rightarrow> bool" where
  "queues row db oc now manual row' db' p1 \<longleftrightarrow>
     (p1 = [] \<and> announced row' db' = still_announced row db now \<or>
       (\<exists>inc r x. p1 = [site_pending ''bad'' r (oc_status oc) x (Some (in_id inc)) [FlapState (opened ''down'' now)]] \<and>
          opens (ck_id row) db' = [inc] \<and> \<not> announced row' db' \<and> \<not> still_announced row db now \<and> \<not> manual \<and>
          max (if oc_status oc = ''degraded'' then degraded_after_failures row else alert_after_failures row) 1 \<le> consecutive_fails row') \<or>
       (\<exists>kind r x. kind \<in> {''recovery'', ''recstable''} \<and> p1 = [site_pending kind r ''up'' x None []] \<and>
          still_announced row db now \<and> \<not> announced row' db'))"

lemma record_outcome_effect:
  assumes "record_outcome row oc now manual db = Inr (row', db', ps)" and wf: "wf_inc db"
  shows "wf_inc db'" "ck_id row' = ck_id row" "last_status row' = oc_status oc"
    "length (opens (ck_id row) db') = (if oc_status oc = ''up'' then 0 else 1)"
    "consecutive_fails row' = (if oc_status oc = ''up'' then 0 else if manual then consecutive_fails row else consecutive_fails row + 1)"
    "\<exists>p1 rest. ps = p1 @ rest \<and>
      (\<forall>p\<in>set rest. pd_kind p \<in> {''flaky'', ''flakyrec'', ''known''} \<and>
         (\<forall>d. FlapState d \<in> set (pd_flags p) \<longrightarrow> d = opened ''flaky'' now \<and> level (flap_state row') = None)) \<and>
      queues row db oc now manual row' db' p1"
proof -
  let ?msg = "take 512 (oc_message oc)" and ?c = "ck_id row"
  from assms(1) obtain row1 db1 row2 row3 db2 p1 row4 p2 row5 db3 p3 where
    count: "outcome_count row oc ?msg now manual db = (row1, db1)"
    and row2: "row2 = (if forgotten row1 now then row1\<lparr>flap_state := None\<rparr> else row1)"
    and main: "oc_status oc \<noteq> ''up'' \<and> row3 = row2 \<and>
       outcome_bad row2 (level (flap_state row2)) (oc_status oc) ?msg now manual db1 = (db2, p1) \<or>
     oc_status oc = ''up'' \<and> outcome_up row2 (level (flap_state row2)) ?msg now db1 = (row3, db2, p1)"
    and flaky: "manual \<and> row4 = row3 \<and> p2 = [] \<or> \<not> manual \<and> flaky_step row3 (oc_status oc) ?msg now db2 = (row4, p2)"
    and known: "manual \<and> row5 = row4 \<and> db3 = db2 \<and> p3 = [] \<or>
     \<not> manual \<and> outcome_known row4 (oc_status oc) ?msg now db2 = Inr (row5, db3, p3)"
    and row': "row' = outcome_store row5 oc ?msg now" and db': "incidents db' = incidents db3" and ps: "ps = p1 @ p2 @ p3"
    by (rule record_outcome_cases)
  note c = outcome_count_frame [OF count]
  have forg: "forgotten row1 now = forgotten row now" by (simp add: forgotten_def c)
  have r2: "ck_id row2 = ?c" "consecutive_fails row2 = consecutive_fails row1"
    "alert_after_failures row2 = alert_after_failures row" "degraded_after_failures row2 = degraded_after_failures row"
    "level (flap_state row2) = (if forgotten row now then None else level (flap_state row))"
    by (simp_all add: row2 forg c)
  have still: "still_announced row db now \<longleftrightarrow> level (flap_state row2) = Some ''down'' \<or> open_notified ?c db1"
    by (auto simp: still_announced_def r2 open_notified_def opens_def c)
  have wf1: "wf_inc db1" using wf wf_inc_cong [OF c(1)] by simp
  have rest: "ck_id row5 = ck_id row3" "consecutive_fails row5 = consecutive_fails row3" "incidents db3 = incidents db2"
    "level (flap_state row5) = Some ''down'' \<longleftrightarrow> level (flap_state row3) = Some ''down''"
    "\<forall>p\<in>set (p2 @ p3). pd_kind p \<in> {''flaky'', ''flakyrec'', ''known''} \<and>
       (\<forall>d. FlapState d \<in> set (pd_flags p) \<longrightarrow> d = opened ''flaky'' now \<and> level (flap_state row5) = None)"
    using flaky known flaky_step_effect [of row3 "oc_status oc" ?msg now db2 row4 p2]
      outcome_known_effect [of row4 "oc_status oc" ?msg now db2 row5 db3 p3]
    by auto
  have o: "opens ?c db' = opens ?c db2" "open_notified ?c db' = open_notified ?c db2" "wf_inc db' = wf_inc db2"
    using db' rest(3) by (simp_all add: open_notified_def opens_def wf_inc_def)
  have ann: "announced row' db' \<longleftrightarrow> level (flap_state row3) = Some ''down'' \<or> open_notified ?c db2"
    if "ck_id row3 = ?c" using that by (simp add: announced_def row' rest o)
  have m: "ck_id row3 = ?c \<and> wf_inc db2 \<and> length (opens ?c db2) = (if oc_status oc = ''up'' then 0 else 1)
      \<and> consecutive_fails row3 = consecutive_fails row1 \<and> queues row db oc now manual row' db' p1"
    using main
  proof (elim disjE conjE)
    assume st: "oc_status oc \<noteq> ''up''" and r3: "row3 = row2"
      and b: "outcome_bad row2 (level (flap_state row2)) (oc_status oc) ?msg now manual db1 = (db2, p1)"
    note bad = outcome_bad_effect [OF wf1 b, unfolded r2(1)]
    have "consecutive_fails row' = consecutive_fails row2" by (simp add: row' rest r3)
    with bad(3) have "queues row db oc now manual row' db' p1"
      unfolding queues_def ann [unfolded r3, OF r2(1)] still o(1) r2(3,4) open_notified_def
      by (elim disjE exE conjE) auto
    with bad st show ?thesis by (auto simp: r3 r2)
  next
    assume st: "oc_status oc = ''up''"
      and u: "outcome_up row2 (level (flap_state row2)) ?msg now db1 = (row3, db2, p1)"
    note up = outcome_up_effect [OF wf1 u refl, unfolded r2(1)]
    have "consecutive_fails row3 = consecutive_fails row2"
      using u by (auto simp: outcome_up_def Let_def split: option.splits if_splits)
    moreover from up have "queues row db oc now manual row' db' p1"
      unfolding queues_def ann [OF up(3)] still o(1) open_notified_def
      by (elim disjE exE conjE) auto
    ultimately show ?thesis using up st by (simp add: r2)
  qed
  show "last_status row' = oc_status oc" by (simp add: row')
  show "ck_id row' = ck_id row" "wf_inc db'"
    "length (opens (ck_id row) db') = (if oc_status oc = ''up'' then 0 else 1)"
    "consecutive_fails row' = (if oc_status oc = ''up'' then 0 else if manual then consecutive_fails row else consecutive_fails row + 1)"
    using m by (simp_all add: row' rest o c)
  show "\<exists>p1 rest. ps = p1 @ rest \<and>
      (\<forall>p\<in>set rest. pd_kind p \<in> {''flaky'', ''flakyrec'', ''known''} \<and>
         (\<forall>d. FlapState d \<in> set (pd_flags p) \<longrightarrow> d = opened ''flaky'' now \<and> level (flap_state row') = None)) \<and>
      queues row db oc now manual row' db' p1"
    using m rest(5) by (intro exI [of _ p1] exI [of _ "p2 @ p3"]) (simp add: ps row')
qed

section \<open>Delivery\<close>

definition bad_ids :: "pending list \<Rightarrow> int set" where
  "bad_ids sent = {i. \<exists>p\<in>set sent. pd_kind p = ''bad'' \<and> pd_inc p = Some i}"

lemma deliver_Nil [simp]: "deliver [] = id"
  by (simp add: deliver_def fun_eq_iff)

lemma deliver_Cons:
  "deliver (p # sent) (row, db) = deliver sent (deliver_row [p] row,
     case pd_inc p of
       Some i \<Rightarrow> if pd_kind p = ''bad'' then upd_incident i (\<lambda>x. x\<lparr>in_notified := True\<rparr>) db else db
     | None \<Rightarrow> db)"
  by (simp add: deliver_def)

lemma deliver_eq:
  "fst (deliver sent (row, db)) = deliver_row sent row"
  "incidents (snd (deliver sent (row, db))) = map (\<lambda>x. if in_id x \<in> bad_ids sent then x\<lparr>in_notified := True\<rparr> else x) (incidents db)"
proof (induction sent arbitrary: row db)
  case (Cons p sent)
  case 1
  show ?case by (simp add: deliver_Cons Cons deliver_row_def)
  case 2
  have "bad_ids (p # sent) = (if pd_kind p = ''bad'' then set_option (pd_inc p) else {}) \<union> bad_ids sent"
    by (cases "pd_inc p") (auto simp: bad_ids_def)
  then show ?case
    by (auto simp: deliver_Cons Cons upd_incident_def split: option.splits)
qed (simp_all add: deliver_row_def bad_ids_def)

lemma deliver_opens:
  "opens cid (snd (deliver sent (row, db))) = map (\<lambda>x. if in_id x \<in> bad_ids sent then x\<lparr>in_notified := True\<rparr> else x) (opens cid db)"
  unfolding opens_def deliver_eq by (simp add: filter_map comp_def if_distrib cong: if_cong)

lemma deliver_wf: "wf_inc db \<Longrightarrow> wf_inc (snd (deliver sent (row, db)))"
proof -
  have "map in_id (incidents (snd (deliver sent (row, db)))) = map in_id (incidents db)"
    unfolding deliver_eq by (simp add: comp_def if_distrib cong: if_cong)
  then show "wf_inc db \<Longrightarrow> wf_inc (snd (deliver sent (row, db)))"
    by (simp add: wf_inc_def deliver_opens)
qed

lemma deliver_notified:
  "open_notified cid (snd (deliver sent (row, db))) \<longleftrightarrow> open_notified cid db \<or> (\<exists>x\<in>set (opens cid db). in_id x \<in> bad_ids sent)"
proof -
  have "list_ex in_notified (map (\<lambda>x. if in_id x \<in> B then x\<lparr>in_notified := True\<rparr> else x) xs) \<longleftrightarrow>
      list_ex in_notified xs \<or> (\<exists>x\<in>set xs. in_id x \<in> B)" for B and xs :: "incident list"
    by (induction xs) auto
  then show ?thesis by (simp add: open_notified_def deliver_opens)
qed

lemma fold_apply_flag_id [simp]: "ck_id (fold apply_flag fl row) = ck_id row"
proof (induction fl arbitrary: row)
  case (Cons f fl)
  then show ?case by (cases f) simp_all
qed simp

lemma deliver_row_id [simp]: "ck_id (deliver_row sent row) = ck_id row"
  by (simp add: deliver_row_def)

lemma fold_apply_flag_flap:
  "(\<And>d. FlapState d \<in> set fl \<Longrightarrow> P (Some d)) \<Longrightarrow> flap_state (fold apply_flag fl row) = flap_state row \<or> P (flap_state (fold apply_flag fl row))"
proof (induction fl arbitrary: row)
  case (Cons f fl)
  have "flap_state (fold apply_flag fl (apply_flag f row)) = flap_state (apply_flag f row) \<or>
      P (flap_state (fold apply_flag fl (apply_flag f row)))"
    by (rule Cons.IH) (simp add: Cons.prems)
  then show ?case using Cons.prems by (cases f) auto
qed simp

text \<open>Delivering alerts none of which is an alarm does not announce an outage; delivering the alarm does.\<close>

lemma deliver_announced:
  assumes "record_outcome row oc now manual db = Inr (row', db', ps)" "wf_inc db" "set sent \<subseteq> set ps"
    "deliver sent (row', db') = (row2, db2)"
  shows "ck_id row2 = ck_id row" "wf_inc db2" "announced row2 db2 \<longleftrightarrow> announced row' db' \<or> alarms sent"
proof -
  note e = record_outcome_effect [OF assms(1,2)]
  have d: "row2 = deliver_row sent row'" "db2 = snd (deliver sent (row', db'))"
    using assms(4) deliver_eq(1) [of sent row' db'] by simp_all
  show "ck_id row2 = ck_id row" "wf_inc db2"
    using e(1,2) deliver_wf by (simp_all add: d)
  obtain p1 rest where ps: "ps = p1 @ rest"
    and rest: "\<forall>p\<in>set rest. pd_kind p \<in> {''flaky'', ''flakyrec'', ''known''} \<and>
         (\<forall>d. FlapState d \<in> set (pd_flags p) \<longrightarrow> d = opened ''flaky'' now \<and> level (flap_state row') = None)"
    and q: "queues row db oc now manual row' db' p1"
    using e(6) by blast
  show "announced row2 db2 \<longleftrightarrow> announced row' db' \<or> alarms sent"
  proof (cases "alarms sent")
    case True
    then obtain p where p: "p \<in> set sent" "pd_kind p = ''bad''" by (auto simp: alarms_def)
    have "p \<notin> set rest" using rest p(2) by fastforce
    with assms(3) p(1) have "p \<in> set p1" by (auto simp: ps)
    with q p(2) obtain inc where "pd_inc p = Some (in_id inc)" "opens (ck_id row) db' = [inc]"
      by (auto simp: queues_def)
    with p have "open_notified (ck_id row) db2"
      by (auto simp: d deliver_notified bad_ids_def)
    with True show ?thesis by (simp add: announced_def d e(2))
  next
    case False
    then have "bad_ids sent = {}" by (auto simp: alarms_def bad_ids_def)
    then have n: "open_notified c db2 = open_notified c db'" for c by (simp add: d deliver_notified)
    have "flap_state row2 = flap_state row' \<or> level (flap_state row2) \<noteq> Some ''down'' \<and> level (flap_state row') \<noteq> Some ''down''"
      unfolding d deliver_row_def
    proof (rule fold_apply_flag_flap [where P = "\<lambda>s. level s \<noteq> Some ''down'' \<and> level (flap_state row') \<noteq> Some ''down''"])
      fix st assume "FlapState st \<in> set (concat (map pd_flags sent))"
      then obtain p where p: "p \<in> set sent" "FlapState st \<in> set (pd_flags p)" by auto
      have "p \<notin> set p1" using q False p by (auto simp: queues_def alarms_def)
      with p(1) assms(3) have "p \<in> set rest" by (auto simp: ps)
      with rest p(2) have "st = opened ''flaky'' now \<and> level (flap_state row') = None" by blast
      then show "level (Some st) \<noteq> Some ''down'' \<and> level (flap_state row') \<noteq> Some ''down''" by simp
    qed
    with n False show ?thesis by (auto simp: announced_def d e(2))
  qed
qed

section \<open>Runs of a monitor\<close>

datatype site_event = Alarm | AllClear bool | Forgotten

text \<open>What becomes of an outage in one tick: its episode is dropped unannounced after a gap in the checks, its alarm is
  delivered, or its end is queued.  The end is queued once; whether that message was delivered is the flag of the event.\<close>

definition tick_events :: "check \<Rightarrow> site_db \<Rightarrow> time \<Rightarrow> pending list \<Rightarrow> pending list \<Rightarrow> site_event list" where
  "tick_events row db now ps sent =
     (if announced row db \<and> \<not> still_announced row db now then [Forgotten] else [])
     @ (if alarms sent then [Alarm] else []) @ (if clears ps then [AllClear (clears sent)] else [])"

inductive site_run :: "check \<Rightarrow> site_db \<Rightarrow> site_event list \<Rightarrow> bool" where
  start: "wf_inc db \<Longrightarrow> \<not> announced row db \<Longrightarrow> site_run row db []"
| tick: "site_run row db es \<Longrightarrow> record_outcome row oc now manual db = Inr (row', db', ps) \<Longrightarrow> sent \<in> set (subseqs ps) \<Longrightarrow>
    deliver sent (row', db') = (row2, db2) \<Longrightarrow> site_run row2 db2 (es @ tick_events row db now ps sent)"
| other: "site_run row db es \<Longrightarrow> ck_id row' = ck_id row \<Longrightarrow> flap_state row' = flap_state row \<Longrightarrow> wf_inc db' \<Longrightarrow>
    opens (ck_id row) db' = opens (ck_id row) db \<Longrightarrow> site_run row' db' es"

text \<open>Alarms and their ends take turns, an alarm first.\<close>

definition take_turns :: "site_event list \<Rightarrow> bool" where
  "take_turns es \<longleftrightarrow> successively (\<lambda>a b. (a = Alarm) \<noteq> (b = Alarm)) es \<and> (es \<noteq> [] \<longrightarrow> hd es = Alarm)"

lemma take_turns_snoc:
  "take_turns (es @ [e]) \<longleftrightarrow> take_turns es \<and> (if e = Alarm then es = [] \<or> last es \<noteq> Alarm else es \<noteq> [] \<and> last es = Alarm)"
  by (cases es rule: rev_cases) (auto simp: take_turns_def successively_append_iff hd_append)

definition in_alarm :: "site_event list \<Rightarrow> bool" where
  "in_alarm es \<longleftrightarrow> es \<noteq> [] \<and> last es = Alarm"

lemma in_alarm_snoc [simp]: "in_alarm (es @ [e]) \<longleftrightarrow> e = Alarm" "\<not> in_alarm []"
  by (simp_all add: in_alarm_def)

lemma take_turns_snoc':
  "take_turns (es @ [e]) \<longleftrightarrow> take_turns es \<and> ((e = Alarm) \<noteq> in_alarm es)"
  by (auto simp: take_turns_snoc in_alarm_def)

lemma take_turns_snoc2:
  "take_turns (es @ [a, b]) \<longleftrightarrow> take_turns es \<and> ((a = Alarm) \<noteq> in_alarm es) \<and> ((b = Alarm) \<noteq> (a = Alarm))"
  "in_alarm (es @ [a, b]) \<longleftrightarrow> b = Alarm"
  using take_turns_snoc' [of "es @ [a]" b] take_turns_snoc' [of es a] by (auto simp: in_alarm_def)

lemma tick_shape:
  assumes "record_outcome row oc now manual db = Inr (row', db', ps)" "wf_inc db" "sent \<in> set (subseqs ps)"
    "deliver sent (row', db') = (row2, db2)"
  shows "alarms sent \<Longrightarrow> \<not> still_announced row db now \<and> \<not> clears ps \<and> announced row2 db2"
    "clears ps \<Longrightarrow> still_announced row db now \<and> \<not> alarms sent \<and> \<not> announced row2 db2"
    "\<not> alarms sent \<Longrightarrow> \<not> clears ps \<Longrightarrow> announced row2 db2 = still_announced row db now"
proof -
  have sub: "set sent \<subseteq> set ps"
    using subseqs_powset [of ps] assms(3) by blast
  note d = deliver_announced(3) [OF assms(1,2) sub assms(4)]
  from record_outcome_effect(6) [OF assms(1,2)] obtain p1 rest where ps: "ps = p1 @ rest"
    and rest: "\<forall>p\<in>set rest. pd_kind p \<in> {''flaky'', ''flakyrec'', ''known''}"
    and q: "queues row db oc now manual row' db' p1"
    by blast
  have k: "alarms ps = alarms p1" "clears ps = clears p1"
    using rest by (auto simp: alarms_def clears_def ps)
  have s: "alarms sent \<Longrightarrow> alarms ps" using sub by (auto simp: alarms_def)
  from q have "p1 = [] \<and> announced row' db' = still_announced row db now \<or>
      alarms p1 \<and> \<not> clears p1 \<and> \<not> announced row' db' \<and> \<not> still_announced row db now \<or>
      clears p1 \<and> \<not> alarms p1 \<and> still_announced row db now \<and> \<not> announced row' db'"
    unfolding queues_def by (elim disjE exE conjE) (auto simp: alarms_def clears_def)
  then show "alarms sent \<Longrightarrow> \<not> still_announced row db now \<and> \<not> clears ps \<and> announced row2 db2"
    "clears ps \<Longrightarrow> still_announced row db now \<and> \<not> alarms sent \<and> \<not> announced row2 db2"
    "\<not> alarms sent \<Longrightarrow> \<not> clears ps \<Longrightarrow> announced row2 db2 = still_announced row db now"
    using k s d by (auto simp: alarms_def clears_def)
qed

lemma site_run_turns:
  "site_run row db es \<Longrightarrow> wf_inc db \<and> take_turns es \<and> (announced row db \<longleftrightarrow> in_alarm es)"
proof (induction rule: site_run.induct)
  case (start db row)
  then show ?case by (simp add: take_turns_def)
next
  case (tick row db es oc now manual row' db' ps sent row2 db2)
  have sub: "set sent \<subseteq> set ps"
    using subseqs_powset [of ps] tick.hyps(3) by blast
  from tick.IH have wf: "wf_inc db" and t: "take_turns es" and a: "announced row db \<longleftrightarrow> in_alarm es" by auto
  note sh = tick_shape [OF tick.hyps(2) wf tick.hyps(3,4)]
  have mono: "still_announced row db now \<Longrightarrow> announced row db"
    by (auto simp: still_announced_def announced_def)
  have "take_turns (es @ tick_events row db now ps sent) \<and> (announced row2 db2 \<longleftrightarrow> in_alarm (es @ tick_events row db now ps sent))"
    using sh mono t a
    by (cases "still_announced row db now"; cases "announced row db"; cases "alarms sent"; cases "clears ps")
       (simp_all add: tick_events_def take_turns_snoc' take_turns_snoc2)
  then show ?case
    using deliver_announced(2) [OF tick.hyps(2) wf sub tick.hyps(4)] by blast
next
  case (other row db es row' db')
  then show ?case by (simp add: announced_def open_notified_def)
qed

section \<open>Failures behind an alarm\<close>

text \<open>The history of a monitor: the status of every result and whether a person asked for it.\<close>

definition confirmed_fails :: "(string \<times> bool) list \<Rightarrow> int" where
  "confirmed_fails h = int (length (filter (\<lambda>(_, manual). \<not> manual) (takeWhile (\<lambda>(st, _). st \<noteq> ''up'') (rev h))))"

inductive site_hist :: "check \<Rightarrow> site_db \<Rightarrow> (string \<times> bool) list \<Rightarrow> bool" where
  start: "wf_inc db \<Longrightarrow> consecutive_fails row = 0 \<Longrightarrow> site_hist row db []"
| tick: "site_hist row db h \<Longrightarrow> record_outcome row oc now manual db = Inr (row', db', ps) \<Longrightarrow> sent \<in> set (subseqs ps) \<Longrightarrow>
    deliver sent (row', db') = (row2, db2) \<Longrightarrow> site_hist row2 db2 (h @ [(oc_status oc, manual)])"
| other: "site_hist row db h \<Longrightarrow> consecutive_fails row' = consecutive_fails row \<Longrightarrow> wf_inc db' \<Longrightarrow> site_hist row' db' h"

lemma fold_apply_flag_fails [simp]: "consecutive_fails (fold apply_flag fl row) = consecutive_fails row"
proof (induction fl arbitrary: row)
  case (Cons f fl)
  then show ?case by (cases f) simp_all
qed simp

lemma confirmed_fails_snoc:
  "confirmed_fails (h @ [(st, manual)]) = (if st = ''up'' then 0 else if manual then confirmed_fails h else confirmed_fails h + 1)"
  by (simp add: confirmed_fails_def)

lemma site_hist_count: "site_hist row db h \<Longrightarrow> wf_inc db \<and> consecutive_fails row = confirmed_fails h"
proof (induction rule: site_hist.induct)
  case (tick row db h oc now manual row' db' ps sent row2 db2)
  then have wf: "wf_inc db" and c: "consecutive_fails row = confirmed_fails h" by auto
  have sub: "set sent \<subseteq> set ps"
    using subseqs_powset [of ps] tick.hyps(3) by blast
  have "row2 = deliver_row sent row'"
    using tick.hyps(4) deliver_eq(1) [of sent row' db'] by simp
  then have "consecutive_fails row2 = consecutive_fails row'" by (simp add: deliver_row_def)
  then show ?case
    using deliver_announced(2) [OF tick.hyps(2) wf sub tick.hyps(4)] record_outcome_effect(5) [OF tick.hyps(2) wf]
    by (simp add: confirmed_fails_snoc c)
qed (simp_all add: confirmed_fails_def)

section \<open>One pass over the monitors\<close>

lemma record_outcome_no_terms:
  assumes "record_outcome row oc now manual db = Inr (row', db', ps)"
  shows "dom_marks z ps = []" "ck_id row' = ck_id row"
proof -
  let ?msg = "take 512 (oc_message oc)"
  let ?ok = "\<lambda>ps. \<forall>p\<in>set ps. \<forall>b. DomainAlerted b \<notin> set (pd_flags p)"
  from assms obtain row1 db1 row2 row3 db2 p1 row4 p2 row5 db3 p3 where
    count: "outcome_count row oc ?msg now manual db = (row1, db1)"
    and row2: "row2 = (if forgotten row1 now then row1\<lparr>flap_state := None\<rparr> else row1)"
    and main: "oc_status oc \<noteq> ''up'' \<and> row3 = row2 \<and>
       outcome_bad row2 (level (flap_state row2)) (oc_status oc) ?msg now manual db1 = (db2, p1) \<or>
     oc_status oc = ''up'' \<and> outcome_up row2 (level (flap_state row2)) ?msg now db1 = (row3, db2, p1)"
    and flaky: "manual \<and> row4 = row3 \<and> p2 = [] \<or> \<not> manual \<and> flaky_step row3 (oc_status oc) ?msg now db2 = (row4, p2)"
    and known: "manual \<and> row5 = row4 \<and> db3 = db2 \<and> p3 = [] \<or>
     \<not> manual \<and> outcome_known row4 (oc_status oc) ?msg now db2 = Inr (row5, db3, p3)"
    and row': "row' = outcome_store row5 oc ?msg now" and ps: "ps = p1 @ p2 @ p3"
    by (rule record_outcome_cases)
  have 1: "?ok p1" "ck_id row3 = ck_id row2"
    using main by (auto simp: outcome_bad_def outcome_up_def Let_def split: option.splits if_splits prod.splits)
  have 2: "?ok p2" "ck_id row4 = ck_id row3"
    using flaky flaky_step_effect [of row3 "oc_status oc" ?msg now db2 row4 p2] by auto
  have 3: "?ok p3" "ck_id row5 = ck_id row4"
    using known outcome_known_effect [of row4 "oc_status oc" ?msg now db2 row5 db3 p3] by auto
  have "?ok ps" using 1 2 3 by (auto simp: ps)
  then show "dom_marks z ps = []" by (force simp: dom_marks_def split: flag.splits)
  show "ck_id row' = ck_id row"
    using outcome_count_frame(2) [OF count] 1 2 3 by (simp add: row' row2)
qed

lemma check_loop_dom_marks:
  assumes "check_loop now due rows db (Some by) = Inr (rows', db', ps)" "distinct (map fst due)"
  shows "sorted_wrt (>) (dom_marks z ps) \<and>
    (\<forall>b\<in>set (dom_marks z ps). \<forall>c a. c \<notin> fst ` set due \<longrightarrow> dom_mark by z c = Some a \<longrightarrow> b < a)"
  using assms
proof (induction due arbitrary: rows db "by" ps)
  case Nil
  then show ?case by simp
next
  case (Cons d due)
  obtain cid oc ex where d: "d = (cid, oc, ex)" by (cases d)
  show ?case
  proof (cases "find (\<lambda>r. ck_id r = cid) rows")
    case None
    with Cons.prems Cons.IH [of rows db "by" ps] show ?thesis by (auto simp: d)
  next
    case (Some row)
    then have id: "ck_id row = cid" by (auto simp: find_Some_iff)
    from Cons.prems(1) Some obtain row1 db1 p1 row2 p2 doms p3 where
      r: "record_outcome row oc now False db = Inr (row1, db1, p1)"
      and e: "(case ex of None \<Rightarrow> Inr (row1, [], Some by) | Some info \<Rightarrow> apply_expiry row1 info now (Some by)) = Inr (row2, p2, doms)"
      and l: "check_loop now due (map (\<lambda>r. if ck_id r = cid then row2 else r) rows) db1 doms = Inr (rows', db', p3)"
      and ps: "ps = p1 @ p2 @ p3"
      unfolding d check_loop.simps option.case rbind_Inr_iff by (auto simp: rbind_Inr_iff)
    have id1: "ck_id row1 = cid" and m1: "dom_marks z p1 = []"
      using record_outcome_no_terms [OF r] id by auto
    have "\<exists>by'. doms = Some by' \<and> (\<forall>z c. c \<noteq> cid \<longrightarrow> dom_mark by' z c = dom_mark by z c) \<and>
       (\<forall>z. dom_marks z p2 = [] \<or> (\<exists>b. dom_marks z p2 = [b] \<and> dom_mark by' z cid = Some b \<and>
          (\<forall>c a. c \<noteq> cid \<longrightarrow> dom_mark by z c = Some a \<longrightarrow> b < a)))"
      using e apply_expiry_dom_marks [of row1 _ now "by" row2 p2 doms] id1 by (cases ex) auto
    then obtain by' where b': "doms = Some by'" "\<forall>z c. c \<noteq> cid \<longrightarrow> dom_mark by' z c = dom_mark by z c"
      "dom_marks z p2 = [] \<or> (\<exists>b. dom_marks z p2 = [b] \<and> dom_mark by' z cid = Some b \<and>
          (\<forall>c a. c \<noteq> cid \<longrightarrow> dom_mark by z c = Some a \<longrightarrow> b < a))"
      by blast
    from Cons.IH [of _ db1 by' p3] l b'(1) Cons.prems(2) d have ih: "sorted_wrt (>) (dom_marks z p3)"
      "\<forall>b\<in>set (dom_marks z p3). \<forall>c a. c \<notin> fst ` set due \<longrightarrow> dom_mark by' z c = Some a \<longrightarrow> b < a"
      by auto
    have cid: "cid \<notin> fst ` set due" using Cons.prems(2) d by auto
    have 3: "\<forall>b\<in>set (dom_marks z p3). \<forall>c a. c \<notin> fst ` set (d # due) \<longrightarrow> dom_mark by z c = Some a \<longrightarrow> b < a"
      using ih(2) b'(2) d by (metis fst_conv image_insert insertCI list.set(2))
    from b'(3) show ?thesis
    proof (elim disjE exE conjE)
      assume "dom_marks z p2 = []"
      with ih(1) 3 show ?thesis by (simp add: ps m1)
    next
      fix b assume b: "dom_marks z p2 = [b]" "dom_mark by' z cid = Some b"
        "\<forall>c a. c \<noteq> cid \<longrightarrow> dom_mark by z c = Some a \<longrightarrow> b < a"
      have "\<forall>x\<in>set (dom_marks z p3). x < b" using ih(2) cid b(2) by blast
      with b ih(1) 3 d show ?thesis by (auto simp: ps m1)
    qed
  qed
qed

section \<open>Where a monitor is checked from\<close>

text \<open>A server claims a host when its last report names a site with that host.\<close>

definition claims :: "server \<Rightarrow> string \<Rightarrow> bool" where
  "claims s host \<longleftrightarrow> host \<noteq> [] \<and> (\<exists>ts. site_texts (last_report s) = Inr ts \<and> host \<in> norm_domain ` set ts)"

lemma ids_at_dset [simp]: "ids_at (dset k xs m) k' = (if k = k' then xs else ids_at m k')"
  by (simp add: ids_at_def update_conv')

lemma fold_claims:
  "set (ids_at (fold (\<lambda>raw cl. let host = norm_domain raw in if host = [] then cl
       else dset host (ids_at cl host @ (if i \<in> set (ids_at cl host) then [] else [i])) cl) sites cl) h)
   = set (ids_at cl h) \<union> (if h \<noteq> [] \<and> h \<in> norm_domain ` set sites then {i} else {})"
  by (induction sites arbitrary: cl) (auto simp: Let_def)

lemma claims_of_ids:
  "claims_of ss cl = Inr cl' \<Longrightarrow> set (ids_at cl' h) = set (ids_at cl h) \<union> {sid s | s. s \<in> set ss \<and> claims s h}"
proof (induction ss arbitrary: cl)
  case (Cons s ss)
  then obtain ts where ts: "site_texts (last_report s) = Inr ts" by (auto simp: rbind_Inr_iff)
  have "set (ids_at cl' h) = set (ids_at (fold (\<lambda>raw cl. let host = norm_domain raw in if host = [] then cl
       else dset host (ids_at cl host @ (if sid s \<in> set (ids_at cl host) then [] else [sid s])) cl) ts cl) h)
     \<union> {sid s | s. s \<in> set ss \<and> claims s h}"
    using Cons.prems ts by (intro Cons.IH) simp
  then show ?case unfolding fold_claims using ts by (auto simp: claims_def)
qed simp

lemma probe_node_keeps: "i \<in> set cands \<Longrightarrow> probe_node cands (Some i) gs = Some i"
  by (auto simp: probe_node_def)

definition group_at :: "(int \<times> string) list \<Rightarrow> int \<Rightarrow> string" where
  "group_at gs i = (case map_of gs i of Some g \<Rightarrow> g | None \<Rightarrow> [])"

lemma remdups_single: "length (remdups xs) = 1 \<Longrightarrow> x \<in> set xs \<Longrightarrow> y \<in> set xs \<Longrightarrow> x = y"
  by (metis One_nat_def length_remdups_card_conv card_1_singletonE singletonD)

lemma probe_node_moves:
  assumes "probe_node cands cur gs = Some j" "cur \<noteq> Some j"
  shows "j \<in> set cands \<and> (\<forall>i\<in>set cands. \<forall>k\<in>set cands. group_at gs i = group_at gs k)"
proof -
  have l: "length (remdups (map (group_at gs) cands)) = 1" and j: "j = hd cands" "cands \<noteq> []"
    using assms by (auto simp: probe_node_def group_at_def [abs_def] split: if_splits)
  have "group_at gs i = group_at gs k" if "i \<in> set cands" "k \<in> set cands" for i k
    using remdups_single [OF l, of "group_at gs i" "group_at gs k"] that by simp
  moreover have "j \<in> set cands" unfolding j(1) using j(2) by (rule hd_in_set)
  ultimately show ?thesis by blast
qed

lemma rebind_one_cases:
  assumes "rebind_one now cl gs online bs c = (bs', c', ch)"
  shows "c' = c \<or> probe_server_id c' = probe_node (ids_at cl (norm_domain (ck_target c))) (probe_server_id c) gs"
proof -
  define want where "want = probe_node (ids_at cl (norm_domain (ck_target c))) (probe_server_id c) gs"
  obtain P Q b1 b2 b3 where "rebind_one now cl gs online bs c = (if P then (b1, c, False)
      else if Q then (b2, c\<lparr>probe_server_id := want, probe_bound_at := Some (utc now)\<rparr>, True) else (b3, c, False))"
    unfolding rebind_one_def Let_def want_def [symmetric] by blast
  with assms have "c' = c \<or> c' = c\<lparr>probe_server_id := want, probe_bound_at := Some (utc now)\<rparr>"
    by (simp split: if_split_asm)
  then show ?thesis unfolding want_def [symmetric] by (elim disjE) simp_all
qed

lemma rebind_loop_rows:
  assumes "rebind_loop now cl gs online bs cs = (bs', cs', n)"
  shows "list_all2 (\<lambda>c c'. c' = c \<or>
    probe_server_id c' = probe_node (ids_at cl (norm_domain (ck_target c))) (probe_server_id c) gs) cs cs'"
  using assms
proof (induction cs arbitrary: bs bs' cs' n)
  case (Cons c cs)
  obtain bs1 c1 ch where 1: "rebind_one now cl gs online bs c = (bs1, c1, ch)" using prod_cases3 by blast
  obtain bs2 cs2 m where 2: "rebind_loop now cl gs online bs1 cs = (bs2, cs2, m)" using prod_cases3 by blast
  obtain bs3 cs3 k where 3: "rebind_loop now cl gs online bs cs = (bs3, cs3, k)" using prod_cases3 by blast
  show ?case
    using Cons.prems rebind_one_cases [OF 1] Cons.IH [OF 2] Cons.IH [OF 3]
    by (cases "ck_enabled c \<and> probe_local c") (auto simp: 1 2 3)
qed simp

lemma group_at_servers:
  assumes "distinct (map sid ss)" "s \<in> set ss"
  shows "group_at (map (\<lambda>s. (sid s, case srv_group s of Some g \<Rightarrow> g | None \<Rightarrow> [])) ss) (sid s) = (case srv_group s of Some g \<Rightarrow> g | None \<Rightarrow> [])"
proof -
  have "map_of (map (\<lambda>s. (sid s, case srv_group s of Some g \<Rightarrow> g | None \<Rightarrow> [])) ss) (sid s) = Some (case srv_group s of Some g \<Rightarrow> g | None \<Rightarrow> [])"
    using assms by (intro map_of_is_SomeI) (auto simp: comp_def)
  then show ?thesis by (simp add: group_at_def)
qed

lemma rebind_rows:
  assumes r: "rebind_local_probes now servers bs checks = Inr (bs', checks', n)" and d: "distinct (map sid servers)"
    and i: "i < length checks"
  defines "host \<equiv> norm_domain (ck_target (checks ! i))"
  shows "length checks' = length checks"
    "s \<in> set servers \<Longrightarrow> claims s host \<Longrightarrow> probe_server_id (checks ! i) = Some (sid s) \<Longrightarrow> probe_server_id (checks' ! i) = Some (sid s)"
    "probe_server_id (checks' ! i) = Some j \<Longrightarrow> probe_server_id (checks ! i) \<noteq> Some j \<Longrightarrow>
       (\<exists>s\<in>set servers. sid s = j \<and> claims s host) \<and>
       (\<forall>s\<in>set servers. \<forall>t\<in>set servers. claims s host \<longrightarrow> claims t host \<longrightarrow>
          (case srv_group s of Some g \<Rightarrow> g | None \<Rightarrow> []) = (case srv_group t of Some g \<Rightarrow> g | None \<Rightarrow> []))"
proof -
  let ?ss = "sort_key srv_name servers"
  let ?gs = "map (\<lambda>s. (sid s, case srv_group s of Some g \<Rightarrow> g | None \<Rightarrow> [])) ?ss"
  have ds: "distinct (map sid ?ss)"
    using d by (simp add: distinct_map)
  have all: "length checks' = length checks \<and> (checks' ! i = checks ! i \<or> (\<exists>cl. claims_of ?ss [] = Inr cl \<and>
      probe_server_id (checks' ! i) = probe_node (ids_at cl host) (probe_server_id (checks ! i)) ?gs))"
  proof (cases "list_ex (\<lambda>c. ck_enabled c \<and> probe_local c) checks")
    case True
    with r obtain cl where cl: "claims_of ?ss [] = Inr cl"
      and l: "rebind_loop now cl ?gs (map sid (filter (\<lambda>s. seen_online s now) ?ss)) bs checks = (bs', checks', n)"
      by (auto simp: rebind_local_probes_def Let_def rbind_Inr_iff)
    show ?thesis
      using rebind_loop_rows [OF l] i cl by (auto simp: list_all2_conv_all_nth host_def)
  next
    case False
    with r show ?thesis by (simp add: rebind_local_probes_def)
  qed
  then show "length checks' = length checks" by blast
  have ids: "set (ids_at cl host) = {sid s | s. s \<in> set servers \<and> claims s host}" if "claims_of ?ss [] = Inr cl" for cl
    using claims_of_ids [OF that, of host] by (simp add: ids_at_def)
  show "probe_server_id (checks' ! i) = Some (sid s)"
    if "s \<in> set servers" "claims s host" "probe_server_id (checks ! i) = Some (sid s)"
    using all
  proof (elim conjE disjE exE)
    fix cl assume cl: "claims_of ?ss [] = Inr cl"
      and p: "probe_server_id (checks' ! i) = probe_node (ids_at cl host) (probe_server_id (checks ! i)) ?gs"
    have "sid s \<in> set (ids_at cl host)" unfolding ids [OF cl] using that by blast
    then show ?thesis unfolding p that(3) by (rule probe_node_keeps)
  qed (simp add: that)
  assume j: "probe_server_id (checks' ! i) = Some j" "probe_server_id (checks ! i) \<noteq> Some j"
  with all obtain cl where cl: "claims_of ?ss [] = Inr cl"
    and p: "probe_node (ids_at cl host) (probe_server_id (checks ! i)) ?gs = Some j"
    by auto
  from probe_node_moves [OF p j(2)] have m: "j \<in> {sid s | s. s \<in> set servers \<and> claims s host}"
    "\<And>a b. a \<in> {sid s | s. s \<in> set servers \<and> claims s host} \<Longrightarrow> b \<in> {sid s | s. s \<in> set servers \<and> claims s host} \<Longrightarrow>
      group_at ?gs a = group_at ?gs b"
    unfolding ids [OF cl] by blast+
  have g: "group_at ?gs (sid s) = (case srv_group s of Some g \<Rightarrow> g | None \<Rightarrow> [])" if "s \<in> set servers" for s
    using that by (intro group_at_servers [OF ds]) simp
  show "(\<exists>s\<in>set servers. sid s = j \<and> claims s host) \<and>
       (\<forall>s\<in>set servers. \<forall>t\<in>set servers. claims s host \<longrightarrow> claims t host \<longrightarrow>
          (case srv_group s of Some g \<Rightarrow> g | None \<Rightarrow> []) = (case srv_group t of Some g \<Rightarrow> g | None \<Rightarrow> []))"
  proof (intro conjI ballI impI)
    show "\<exists>s\<in>set servers. sid s = j \<and> claims s host" using m(1) by blast
    fix s t assume st: "s \<in> set servers" "t \<in> set servers" "claims s host" "claims t host"
    have "group_at ?gs (sid s) = group_at ?gs (sid t)"
      using st by (intro m(2)) blast+
    then show "(case srv_group s of Some g \<Rightarrow> g | None \<Rightarrow> []) = (case srv_group t of Some g \<Rightarrow> g | None \<Rightarrow> [])"
      using g st by simp
  qed
qed

section \<open>Properties\<close>

definition result0 :: "string \<Rightarrow> outcome" where
  "result0 st = \<lparr>oc_status = st, oc_latency_ms = None, oc_value = None, oc_message = ''HTTP 500'', oc_ip_results = None,
     oc_path_results = PNone, oc_answers = None, oc_phases = PNone\<rparr>"

text \<open>C5. One alarm and one end of it: over any run of a monitor, from a state in which nothing is announced, with results of
  any kind, scheduled or asked for by hand, whatever part of the queued alerts is delivered and whatever happens to other
  monitors in between, the delivered outage alarms and the ends of the outages take turns, and an alarm comes first.  An
  end is the queueing of the recovery message, whether that message is then delivered or lost, or an episode dropped
  because nobody checked for half an hour.  So a recovery is queued only for an outage people were told of, and nobody is
  told of the next outage before the end of the last.  Messages of partial trouble are not among these events.\<close>

theorem alarms_take_turns:
  assumes "site_run row db es"
  shows "successively (\<lambda>a b. (a = Alarm) \<noteq> (b = Alarm)) es \<and> (es \<noteq> [] \<longrightarrow> hd es = Alarm)"
  using site_run_turns [OF assms] by (simp add: take_turns_def)

theorem alarms_take_turns_witness:
  "\<exists>row db. site_run row db [Alarm, AllClear True] \<and> successively (\<lambda>a b. (a = Alarm) \<noteq> (b = Alarm)) [Alarm, AllClear True]"
proof -
  let ?row = "check0\<lparr>alert_after_failures := 1\<rparr>"
  have c: "case record_outcome ?row (result0 ''down'') 0 False site_db0 of
      Inl _ \<Rightarrow> False
    | Inr (r, d, ps) \<Rightarrow> (case deliver ps (r, d) of (r2, d2) \<Rightarrow> tick_events ?row site_db0 0 ps ps = [Alarm] \<and>
        (case record_outcome r2 (result0 ''up'') (sec 60) False d2 of
           Inl _ \<Rightarrow> False
         | Inr (r3, d3, ps3) \<Rightarrow> tick_events r2 d2 (sec 60) ps3 ps3 = [AllClear True]))"
    by code_simp
  then obtain r d ps where 1: "record_outcome ?row (result0 ''down'') 0 False site_db0 = Inr (r, d, ps)"
    by (auto split: sum.splits)
  obtain r2 d2 where 2: "deliver ps (r, d) = (r2, d2)" by fastforce
  from c 1 2 obtain r3 d3 ps3 where 3: "record_outcome r2 (result0 ''up'') (sec 60) False d2 = Inr (r3, d3, ps3)"
    "tick_events ?row site_db0 0 ps ps = [Alarm]" "tick_events r2 d2 (sec 60) ps3 ps3 = [AllClear True]"
    by (auto split: sum.splits)
  obtain r4 d4 where 4: "deliver ps3 (r3, d3) = (r4, d4)" by fastforce
  have "\<not> announced ?row site_db0"
    by (simp add: announced_def check0_def site_db0_def open_notified_def opens_def)
  with wf_inc_0 have s: "site_run ?row site_db0 []" by (rule site_run.start)
  have "ps \<in> set (subseqs ps)" for ps :: "pending list" by (induction ps) (auto simp: Let_def)
  with site_run.tick [OF s 1 _ 2] 3 have "site_run r2 d2 [Alarm]" by fastforce
  from site_run.tick [OF this 3(1) \<open>ps3 \<in> set (subseqs ps3)\<close> 4] 3(3) have "site_run r4 d4 [Alarm, AllClear True]"
    by simp
  with alarms_take_turns [OF this] show ?thesis by blast
qed

text \<open>C6. The incident of a monitor follows its status: after every recorded result, scheduled or by hand, the monitor has
  exactly one open incident when the result is not up and none when it is, no monitor ever has two, and the row shows
  the status of the result.\<close>

theorem incident_matches_status:
  assumes "record_outcome row oc now manual db = Inr (row', db', ps)"
    and "distinct (map in_id (incidents db))" "\<forall>c. length (filter (\<lambda>i. in_check i = c \<and> in_ended_at i = None) (incidents db)) \<le> 1"
  shows "length (filter (\<lambda>i. in_check i = ck_id row \<and> in_ended_at i = None) (incidents db')) = (if oc_status oc = ''up'' then 0 else 1)
    \<and> last_status row' = oc_status oc
    \<and> (\<forall>c. length (filter (\<lambda>i. in_check i = c \<and> in_ended_at i = None) (incidents db')) \<le> 1)"
proof -
  have "wf_inc db" using assms(2,3) by (simp add: wf_inc_def opens_def)
  note e = record_outcome_effect [OF assms(1) this]
  show ?thesis using e(1,3,4) by (simp add: wf_inc_def opens_def)
qed

theorem incident_matches_status_witness:
  "\<exists>r. record_outcome check0 (result0 ''down'') 0 False site_db0 = Inr r \<and>
     length (filter (\<lambda>i. in_check i = 1 \<and> in_ended_at i = None) (incidents (fst (snd r)))) = 1"
proof -
  have "case record_outcome check0 (result0 ''down'') 0 False site_db0 of Inr _ \<Rightarrow> True | Inl _ \<Rightarrow> False"
    by code_simp
  then obtain row' db' ps where r: "record_outcome check0 (result0 ''down'') 0 False site_db0 = Inr (row', db', ps)"
    by (auto split: sum.splits)
  from incident_matches_status [OF r] r show ?thesis
    by (simp add: site_db0_def check0_def result0_def)
qed

text \<open>C7. An alarm is never queued early: in any run of a monitor, the result that queues it is a scheduled one, and the
  failures the schedule has confirmed since the last success, this one included, have reached the threshold of the
  monitor (the one for slow answers when the result is degraded).  Results asked for by hand never count.\<close>

theorem alarm_needs_confirmed_failures:
  assumes "site_hist row db h" "record_outcome row oc now manual db = Inr (row', db', ps)" "p \<in> set ps" "pd_kind p = ''bad''"
  shows "\<not> manual \<and> confirmed_fails (h @ [(oc_status oc, manual)]) \<ge>
    max (if oc_status oc = ''degraded'' then degraded_after_failures row else alert_after_failures row) 1"
proof -
  from site_hist_count [OF assms(1)] have wf: "wf_inc db" and c: "consecutive_fails row = confirmed_fails h" by auto
  note e = record_outcome_effect [OF assms(2) wf]
  from e(6) obtain p1 rest where ps: "ps = p1 @ rest" and r: "\<forall>p\<in>set rest. pd_kind p \<in> {''flaky'', ''flakyrec'', ''known''}"
    and q: "queues row db oc now manual row' db' p1"
    by blast
  have "p \<notin> set rest" using r assms(4) by force
  with assms(3) have "p \<in> set p1" by (simp add: ps)
  with q assms(4) have m: "\<not> manual \<and> max (if oc_status oc = ''degraded'' then degraded_after_failures row else alert_after_failures row) 1
      \<le> consecutive_fails row'"
    unfolding queues_def by (elim disjE exE conjE) (auto)
  have "confirmed_fails (h @ [(oc_status oc, manual)]) = consecutive_fails row'"
    by (simp add: e(5) confirmed_fails_snoc c)
  then show ?thesis using m by argo
qed

theorem alarm_needs_confirmed_failures_witness:
  "confirmed_fails ([] @ [(''down'', False)]) \<ge> 1"
proof -
  let ?row = "check0\<lparr>alert_after_failures := 1\<rparr>"
  have "case record_outcome ?row (result0 ''down'') 0 False site_db0 of Inr (_, _, ps) \<Rightarrow> list_ex (\<lambda>p. pd_kind p = ''bad'') ps | Inl _ \<Rightarrow> False"
    by code_simp
  then obtain row' db' ps p where r: "record_outcome ?row (result0 ''down'') 0 False site_db0 = Inr (row', db', ps)"
    "p \<in> set ps" "pd_kind p = ''bad''"
    by (auto split: sum.splits simp: list_ex_iff)
  have "site_hist ?row site_db0 []" using wf_inc_0 by (rule site_hist.start) (simp add: check0_def)
  from alarm_needs_confirmed_failures [OF this r] show ?thesis by (simp add: result0_def)
qed

text \<open>C8. The term of a domain is announced once however many monitors stand on it: in one pass over any due monitors, the
  thresholds at which messages about one domain are queued strictly decrease, so no threshold is announced twice.\<close>

theorem domain_announced_once:
  assumes "check_pass now due rows db = Inr (rows', db', ps)" "distinct (map fst due)" "\<exists>d\<in>set due. snd (snd d) \<noteq> None"
  shows "sorted_wrt (>) [b. p \<leftarrow> ps, DomainAlerted b \<leftarrow> pd_flags p, case pd_text p of DomainExpires z _ _ \<Rightarrow> z = zone | _ \<Rightarrow> False]"
proof -
  have "list_ex (\<lambda>(_, _, e). e \<noteq> None) due"
    using assms(3) by (force simp: list_ex_iff)
  with assms(1) obtain ds where "check_loop now due rows db (Some ds) = Inr (rows', db', ps)"
    by (auto simp: check_pass_def rbind_Inr_iff)
  from check_loop_dom_marks [OF this assms(2), of zone] show ?thesis
    by (simp add: dom_marks_def)
qed


theorem domain_announced_once_witness:
  "\<exists>rows' db' ps. check_pass 0 [(1, result0 ''up'', Some (ssl_info 9\<lparr>ei_domain_days := Some 3\<rparr>)),
        (2, result0 ''up'', Some (ssl_info 9\<lparr>ei_domain_days := Some 3\<rparr>))]
      [check0, check0\<lparr>ck_id := 2, ck_target := ''www.example.com''\<rparr>] site_db0 = Inr (rows', db', ps) \<and>
     [b. p \<leftarrow> ps, DomainAlerted b \<leftarrow> pd_flags p, case pd_text p of DomainExpires z _ _ \<Rightarrow> z = ''example.com'' | _ \<Rightarrow> False] = [7] \<and>
     sorted_wrt (>) [b. p \<leftarrow> ps, DomainAlerted b \<leftarrow> pd_flags p, case pd_text p of DomainExpires z _ _ \<Rightarrow> z = ''example.com'' | _ \<Rightarrow> False]"
proof -
  let ?due = "[(1, result0 ''up'', Some (ssl_info 9\<lparr>ei_domain_days := Some 3\<rparr>)),
        (2, result0 ''up'', Some (ssl_info 9\<lparr>ei_domain_days := Some 3\<rparr>))]"
  let ?rows = "[check0, check0\<lparr>ck_id := 2, ck_target := ''www.example.com''\<rparr>]"
  have c: "case check_pass 0 ?due ?rows site_db0 of Inl _ \<Rightarrow> False | Inr (rows', db', ps) \<Rightarrow>
      [b. p \<leftarrow> ps, DomainAlerted b \<leftarrow> pd_flags p, case pd_text p of DomainExpires z _ _ \<Rightarrow> z = ''example.com'' | _ \<Rightarrow> False] = [7]"
    by code_simp
  then obtain rows' db' ps where r: "check_pass 0 ?due ?rows site_db0 = Inr (rows', db', ps)"
    by (auto split: sum.splits)
  from domain_announced_once [OF r, of "''example.com''"] c r show ?thesis by (simp only:) auto
qed

text \<open>C33. One monitor with an address that cannot be parsed stops the whole pass: when a term is to be refreshed and some
  monitor that watches its domain has such an address, the pass raises before anything is recorded, for every monitor
  that is due.\<close>

theorem bad_address_stops_pass:
  assumes "\<exists>d\<in>set due. snd (snd d) \<noteq> None" "c \<in> set rows" "check_domain c"
    and "registrable_domain (if ck_target c \<noteq> [] then ck_target c else ck_name c) = Inl e"
  shows "check_pass now due rows db = Inl ValueError"
proof -
  have "list_ex (\<lambda>(_, _, e). e \<noteq> None) due"
    using assms(1) by (force simp: list_ex_iff)
  moreover have "domain_alerts (map (\<lambda>c. (ck_id c, ck_target c, ck_name c, domain_alerted_days c, domain_days c))
      (filter check_domain rows)) [] = Inl ValueError"
    unfolding domain_alerts_total using assms(2-4) by (fastforce simp: expiry_domain_def)
  ultimately show ?thesis by (simp add: check_pass_def)
qed

theorem bad_address_stops_pass_witness:
  "check_pass 0 [(1, result0 ''up'', Some (ssl_info 9))] [check0, check0\<lparr>ck_id := 2, ck_target := ''http://[''\<rparr>] site_db0 = Inl ValueError"
proof (rule bad_address_stops_pass)
  show "registrable_domain (if ck_target (check0\<lparr>ck_id := 2, ck_target := ''http://[''\<rparr>) \<noteq> [] then
      ck_target (check0\<lparr>ck_id := 2, ck_target := ''http://[''\<rparr>) else ck_name (check0\<lparr>ck_id := 2, ck_target := ''http://[''\<rparr>)) = Inl ValueError"
    by code_simp
qed (simp_all add: check0_def)

text \<open>C18. A server cannot take over the check of a foreign site: whatever the servers report, a monitor bound to a server
  that still names the site stays with it, and a monitor moves only to a server that names the site, and only when all
  the servers that name it belong to one group.\<close>

theorem probe_never_hijacked:
  assumes "rebind_local_probes now servers bs checks = Inr (bs', checks', n)" "distinct (map sid servers)" "i < length checks"
  shows "(\<forall>s\<in>set servers. claims s (norm_domain (ck_target (checks ! i))) \<longrightarrow> probe_server_id (checks ! i) = Some (sid s) \<longrightarrow>
        probe_server_id (checks' ! i) = Some (sid s)) \<and>
    (\<forall>j. probe_server_id (checks' ! i) = Some j \<longrightarrow> probe_server_id (checks ! i) \<noteq> Some j \<longrightarrow>
       (\<exists>s\<in>set servers. sid s = j \<and> claims s (norm_domain (ck_target (checks ! i)))) \<and>
       (\<forall>s\<in>set servers. \<forall>t\<in>set servers.
          claims s (norm_domain (ck_target (checks ! i))) \<longrightarrow> claims t (norm_domain (ck_target (checks ! i))) \<longrightarrow>
          (case srv_group s of Some g \<Rightarrow> g | None \<Rightarrow> []) = (case srv_group t of Some g \<Rightarrow> g | None \<Rightarrow> [])))"
  using rebind_rows(2,3) [OF assms] by blast

definition web0 :: "dict option" where
  "web0 = Some [(''web_services'', PList [PDict [(''sites'', PList [PStr ''example.com''])]])]"

theorem probe_never_hijacked_witness:
  "\<exists>bs' checks' n. rebind_local_probes 0 [server0\<lparr>last_report := web0\<rparr>, server0\<lparr>sid := 2, srv_name := ''a'', last_report := web0\<rparr>] []
      [check0\<lparr>probe_local := True, probe_server_id := Some 1\<rparr>] = Inr (bs', checks', n) \<and> probe_server_id (checks' ! 0) = Some 1"
proof -
  let ?ss = "[server0\<lparr>last_report := web0\<rparr>, server0\<lparr>sid := 2, srv_name := ''a'', last_report := web0\<rparr>]"
  let ?cs = "[check0\<lparr>probe_local := True, probe_server_id := Some 1\<rparr>]"
  have "case rebind_local_probes 0 ?ss [] ?cs of Inr _ \<Rightarrow> True | Inl _ \<Rightarrow> False" by code_simp
  then obtain bs' checks' n where r: "rebind_local_probes 0 ?ss [] ?cs = Inr (bs', checks', n)"
    by (auto split: sum.splits)
  have "site_texts web0 = Inr [''example.com'']" "norm_domain ''https://example.com'' = ''example.com''" "norm_domain ''example.com'' = ''example.com''"
    by code_simp+
  then have "claims (server0\<lparr>last_report := web0\<rparr>) (norm_domain (ck_target (?cs ! 0)))"
    by (simp add: claims_def check0_def)
  with probe_never_hijacked [OF r, of 0] have "probe_server_id (checks' ! 0) = Some 1"
    by (simp add: server0_def check0_def)
  with r show ?thesis by blast
qed

end
