(* ===== verification/Alarm_Hold.thy ===== *)
theory Alarm_Hold
  imports Panel_Rows
begin

text \<open>
  Alerts with a hold: an alert is raised only after the trouble has lasted, and ended only after calm has lasted.  Three
  routines of the panel implement it: \<open>fill_alert.step\<close> for disk space and inodes, and \<open>sustain\<close> and \<open>sustain_lvl\<close>
  inside \<open>collector._server_conditions\<close> for the other kinds; \<open>settle\<close> is the common hold before an all-clear in the loop
  over the alerts.  What a tick remembers lives in \<open>alert_state\<close> under \<open><kind>_since\<close> and \<open><kind>_cool\<close>, the announced
  level under \<open><kind>\<close>.

  The locale \<open>raise_hold\<close> states what raising must obey, \<open>held_alarm\<close> adds the end of an alert; the promises to people
  are proved in the locales once and hold for every run of ticks, whether or not a computed level gets stored (a message
  may not be delivered).  Both are interpreted on the routines of the code.  \<open>sustain\<close> is an instance of the first only:
  the last theorem shows how it lets an all-clear go out while the trouble is there.
\<close>

section \<open>fill_alert.py\<close>

definition HOLD_S :: int where "HOLD_S = 1800"
definition HYST :: rat where "HYST = 3"
definition CALM_S :: int where "CALM_S = 1800"
definition CRIT :: int where "CRIT = 3"
definition FAST_WINDOW_S :: rat where "FAST_WINDOW_S = 600"
definition FAST_MIN_SPAN_S :: rat where "FAST_MIN_SPAN_S = 480"
definition FAST_MIN_POINTS :: nat where "FAST_MIN_POINTS = 6"
definition FAST_ETA_S :: rat where "FAST_ETA_S = 1800"

text \<open>\<open>fill_alert._iso\<close> and, the same, \<open>collector._parse_iso\<close>.\<close>

definition parse_iso :: "py \<Rightarrow> dt option" where
  "parse_iso v = (case v of PStr s \<Rightarrow> map_option aware (fromisoformat s) | _ \<Rightarrow> None)"

text \<open>\<open>min(pts, key=lambda p: abs(p[0] - x))\<close>: the first of the nearest points.\<close>

definition nearest :: "(rat \<times> rat) list \<Rightarrow> rat \<Rightarrow> rat \<times> rat" where
  "nearest pts x = fold (\<lambda>p best. if \<bar>fst p - x\<bar> < \<bar>fst best - x\<bar> then p else best) (tl pts) (hd pts)"

fun growth_rates :: "(rat \<times> rat) list \<Rightarrow> rat list option" where
  "growth_rates ((ta, va) # (tb, vb) # ms) =
     (if tb \<le> ta then None else map_option (Cons ((vb - va) / (tb - ta))) (growth_rates ((tb, vb) # ms)))"
| "growth_rates _ = Some []"

text \<open>The growth in percent per minute, rounded to tenths, and the minutes left.\<close>

definition fast_fill :: "(rat \<times> rat) list \<Rightarrow> rat \<Rightarrow> time \<Rightarrow> (rat \<times> int) option" where
  "fast_fill points value now =
     (let t = of_int now / 1000000;
          pts = filter (\<lambda>(a, _). t - FAST_WINDOW_S \<le> a \<and> a < t - 1) points @ [(t, value)];
          t0 = fst (hd pts); t3 = fst (last pts)
      in if length pts < FAST_MIN_POINTS \<or> t3 - t0 < FAST_MIN_SPAN_S then None
         else
           (let step = (t3 - t0) / 3
            in case growth_rates [hd pts, nearest pts (t0 + step), nearest pts (t0 + 2 * step), last pts] of
                 None \<Rightarrow> None
               | Some [] \<Rightarrow> None
               | Some (r # rs) \<Rightarrow>
                   (let rate = fold min rs r; eta = (100 - value) / rate
                    in if rate \<le> 0 \<or> eta > FAST_ETA_S then None
                       else Some (of_int (round_half_even (rate * 600)) / 10, max 1 (round_half_even (eta / 60))))))"

text \<open>\<open>int(state.get(key, 0) or 0)\<close>\<close>

definition state_level :: "dict \<Rightarrow> string \<Rightarrow> int res" where
  "state_level st key = py_int (por (dget_or st key (PInt 0)) (PInt 0))"

record hold_ctx =
  hc_since :: py
  hc_cool :: py
  hc_fast :: "(rat \<times> int) option"

definition fill_step ::
  "dict \<Rightarrow> string \<Rightarrow> rat \<Rightarrow> int \<Rightarrow> rat option \<Rightarrow> time \<Rightarrow> (rat \<times> rat) list \<Rightarrow> (int \<times> hold_ctx) res" where
  "fill_step st key value raw low now points =
     rbind (state_level st key) (\<lambda>prev.
       let fast = (if raw \<noteq> 0 then fast_fill points value now else None);
           kept = por (dget st (key @ ''_since'')) (PStr (iso now))
       in case (if prev \<noteq> 0 then low else None) of
            Some lo \<Rightarrow>
              if value \<ge> lo - HYST then Inr (max prev raw, \<lparr>hc_since = kept, hc_cool = PNone, hc_fast = fast\<rparr>)
              else
                (let started = (case parse_iso (dget st (key @ ''_cool'')) of Some d \<Rightarrow> d | None \<Rightarrow> utc now)
                 in if now - dt_utc started < sec CALM_S
                    then Inr (prev, \<lparr>hc_since = dget st (key @ ''_since''), hc_cool = PStr (isoformat started), hc_fast = fast\<rparr>)
                    else Inr (0, \<lparr>hc_since = PNone, hc_cool = PStr (isoformat started), hc_fast = fast\<rparr>))
          | None \<Rightarrow>
              if raw \<noteq> 0 then
                (let begun = (case parse_iso kept of Some d \<Rightarrow> d | None \<Rightarrow> utc now)
                 in Inr (if raw \<ge> CRIT \<or> fast \<noteq> None \<or> now - dt_utc begun \<ge> sec HOLD_S then raw else 0,
                         \<lparr>hc_since = kept, hc_cool = PNone, hc_fast = fast\<rparr>))
              else Inr (0, \<lparr>hc_since = PNone, hc_cool = PNone, hc_fast = fast\<rparr>))"

section \<open>sustain and sustain_lvl\<close>

text \<open>\<open>started = _parse_iso(str(state.get(f"{key}_cool") or "")) or now\<close>\<close>

definition cool_start :: "dict \<Rightarrow> string \<Rightarrow> time \<Rightarrow> dt" where
  "cool_start st key now =
     (case parse_iso (PStr (py_str (por (dget st (key @ ''_cool'')) (PStr [])))) of Some d \<Rightarrow> d | None \<Rightarrow> utc now)"

text \<open>\<open>held = (now - started).total_seconds() if started else 0.0\<close>\<close>

definition held_us :: "py \<Rightarrow> time \<Rightarrow> int" where
  "held_us since now = (case parse_iso since of Some d \<Rightarrow> now - dt_utc d | None \<Rightarrow> 0)"

text \<open>\<open>below\<close> is \<open>None\<close> for a kind without a line for the all-clear.\<close>

definition sustain ::
  "dict \<Rightarrow> bool \<Rightarrow> int \<Rightarrow> string \<Rightarrow> bool \<Rightarrow> bool option \<Rightarrow> int option \<Rightarrow> int option \<Rightarrow> time \<Rightarrow> (int \<times> py \<times> py) res" where
  "sustain st online sustain_s key breach below cool_s hold_s now =
     rbind (if below = None then Inr False else rbind (state_level st key) (\<lambda>l. Inr (l \<ge> 1))) (\<lambda>alerted.
       let kept = por (dget st (key @ ''_since'')) (PStr (iso now))
       in if online \<and> (breach \<or> alerted \<and> below = Some False) then
            Inr (if held_us kept now \<ge> sec (case hold_s of None \<Rightarrow> sustain_s | Some h \<Rightarrow> h) then 1 else 0, kept, PNone)
          else if online \<and> alerted then
            (let started = cool_start st key now
             in if now - dt_utc started < sec (case cool_s of None \<Rightarrow> sustain_s | Some c \<Rightarrow> c)
                then Inr (1, dget st (key @ ''_since''), PStr (isoformat started))
                else Inr (0, PNone, PStr (isoformat started)))
          else Inr (0, PNone, PNone))"

definition sustain_lvl ::
  "dict \<Rightarrow> bool \<Rightarrow> int \<Rightarrow> string \<Rightarrow> int \<Rightarrow> int option \<Rightarrow> int option \<Rightarrow> time \<Rightarrow> (int \<times> py \<times> py) res" where
  "sustain_lvl st online sustain_s key lvl cool_s hold_s now =
     rbind (case cool_s of None \<Rightarrow> Inr 0 | Some _ \<Rightarrow> state_level st key) (\<lambda>alerted.
       let kept = por (dget st (key @ ''_since'')) (PStr (iso now))
       in if lvl \<noteq> 0 \<and> online then
            (let l = (if held_us kept now \<ge> sec (case hold_s of None \<Rightarrow> sustain_s | Some h \<Rightarrow> h) then lvl else 0)
             in Inr (if alerted \<noteq> 0 \<and> l = 0 then alerted else l, kept, PNone))
          else if online \<and> alerted \<noteq> 0 then
            (let started = cool_start st key now
             in if now - dt_utc started < sec (case cool_s of None \<Rightarrow> 0 | Some c \<Rightarrow> c)
                then Inr (alerted, dget st (key @ ''_since''), PStr (isoformat started))
                else Inr (0, PNone, PStr (isoformat started)))
          else Inr (0, PNone, PNone))"

text \<open>What a tick writes back into \<open>alert_state\<close>.\<close>

definition persist :: "string \<Rightarrow> py \<Rightarrow> py \<Rightarrow> dict \<Rightarrow> dict" where
  "persist key since cool st = dset (key @ ''_cool'') cool (dset (key @ ''_since'') since st)"

section \<open>The common hold of an all-clear\<close>

definition SETTLE_S :: int where "SETTLE_S = 15 * 60"

text \<open>Whether the loop goes on to the all-clear, and the mark of the calm.\<close>

definition settle :: "dict \<Rightarrow> string \<Rightarrow> int \<Rightarrow> int \<Rightarrow> time \<Rightarrow> bool \<times> dict" where
  "settle st key prev lvl now =
     (let calm = parse_iso (PStr (py_str (por (dget st (key @ ''_calm'')) (PStr []))));
          st = (if lvl \<noteq> 0 \<and> calm \<noteq> None then dset (key @ ''_calm'') PNone st else st)
      in if prev \<noteq> 0 \<and> lvl = 0 then
           (case calm of
              None \<Rightarrow> (False, dset (key @ ''_calm'') (PStr (iso now)) st)
            | Some c \<Rightarrow> (\<not> now - dt_utc c < sec SETTLE_S, st))
         else (False, st))"

section \<open>Runs of ticks\<close>

text \<open>After each tick the computed level is announced (stored) or not: a message may fail, an all-clear waits.  The history
  holds the times and the observations of the ticks.\<close>

inductive alarm_run ::
  "('s \<Rightarrow> 'i \<Rightarrow> time \<Rightarrow> (int \<times> 's) res) \<Rightarrow> (int \<Rightarrow> 's \<Rightarrow> 's) \<Rightarrow> ('i \<Rightarrow> bool) \<Rightarrow> 's \<Rightarrow> 's \<Rightarrow> (time \<times> 'i) list \<Rightarrow> bool"
  for step store ok s0 where
  start: "alarm_run step store ok s0 s0 []"
| tick: "alarm_run step store ok s0 s h \<Longrightarrow> ok i \<Longrightarrow> time_ok t \<Longrightarrow> step s i t = Inr (l, s') \<Longrightarrow> s'' = s' \<or> s'' = store l s' \<Longrightarrow>
    alarm_run step store ok s0 s'' (h @ [(t, i)])"

text \<open>The last ticks of a history, from one at least \<open>d\<close> before the end on, all satisfy \<open>p\<close>.\<close>

definition lasted :: "int \<Rightarrow> ('i \<Rightarrow> bool) \<Rightarrow> (time \<times> 'i) list \<Rightarrow> bool" where
  "lasted d p h \<longleftrightarrow> (\<exists>pre t0 i suf. h = pre @ (t0, i) # suf \<and> d \<le> fst (last h) - t0 \<and> (\<forall>x\<in>set ((t0, i) # suf). p (snd x)))"

definition since_then :: "time option \<Rightarrow> ('i \<Rightarrow> bool) \<Rightarrow> (time \<times> 'i) list \<Rightarrow> bool" where
  "since_then m p h \<longleftrightarrow> (\<forall>t0. m = Some t0 \<longrightarrow> (\<exists>pre i suf. h = pre @ (t0, i) # suf \<and> (\<forall>x\<in>set ((t0, i) # suf). p (snd x))))"

lemma since_then_None [simp]: "since_then None p h"
  by (simp add: since_then_def)

lemma since_then_snoc:
  assumes "since_then m p h" "p i"
  shows "since_then (Some (case m of Some t0 \<Rightarrow> t0 | None \<Rightarrow> t)) p (h @ [(t, i)])"
proof (cases m)
  case None
  have "h @ [(t, i)] = h @ (t, i) # []" by simp
  with None assms(2) show ?thesis unfolding since_then_def by fastforce
next
  case (Some t0)
  with assms(1) obtain pre j suf where "h = pre @ (t0, j) # suf" "\<forall>x\<in>set ((t0, j) # suf). p (snd x)"
    by (auto simp: since_then_def)
  then have "h @ [(t, i)] = pre @ (t0, j) # (suf @ [(t, i)])" "\<forall>x\<in>set ((t0, j) # (suf @ [(t, i)])). p (snd x)"
    using assms(2) by auto
  then have "since_then (Some t0) p (h @ [(t, i)])" unfolding since_then_def by blast
  then show ?thesis by (simp add: Some)
qed

lemma lastedI: "since_then (Some t0) p (h @ [(t, i)]) \<Longrightarrow> d \<le> t - t0 \<Longrightarrow> lasted d p (h @ [(t, i)])"
  unfolding since_then_def lasted_def by auto

section \<open>What raising an alert must obey\<close>

text \<open>\<open>'s\<close> is what is remembered between ticks, \<open>'i\<close> what a tick observes; \<open>ok\<close> are the observations the promise is
  about.  A tick computes a level and remembers when the trouble began; \<open>store\<close> is the announcement of a level.\<close>

locale raise_hold =
  fixes wf :: "'s \<Rightarrow> bool" and lvl :: "'s \<Rightarrow> int" and since :: "'s \<Rightarrow> time option"
    and step :: "'s \<Rightarrow> 'i \<Rightarrow> time \<Rightarrow> (int \<times> 's) res"
    and ok :: "'i \<Rightarrow> bool" and trouble :: "'i \<Rightarrow> bool" and urgent :: "'i \<Rightarrow> time \<Rightarrow> bool" and hold :: int
  assumes step_total: "wf s \<Longrightarrow> ok i \<Longrightarrow> time_ok t \<Longrightarrow> \<exists>l s'. step s i t = Inr (l, s') \<and> wf s' \<and> lvl s' = lvl s \<and> 0 \<le> l"
    and since_law: "wf s \<Longrightarrow> ok i \<Longrightarrow> time_ok t \<Longrightarrow> step s i t = Inr (l, s') \<Longrightarrow> lvl s = 0 \<Longrightarrow>
      since s' = None \<or> trouble i \<and> since s' = Some (case since s of Some t0 \<Rightarrow> t0 | None \<Rightarrow> t)"
    and raise_law: "wf s \<Longrightarrow> ok i \<Longrightarrow> time_ok t \<Longrightarrow> step s i t = Inr (l, s') \<Longrightarrow> lvl s = 0 \<Longrightarrow> 0 < l \<Longrightarrow> \<not> urgent i t \<Longrightarrow>
      \<exists>t0. since s' = Some t0 \<and> hold \<le> t - t0"
begin

lemma step_wf:
  "wf s \<Longrightarrow> ok i \<Longrightarrow> time_ok t \<Longrightarrow> step s i t = Inr (l, s') \<Longrightarrow> wf s' \<and> lvl s' = lvl s \<and> 0 \<le> l"
  using step_total [of s i t] by auto

text \<open>While nothing gets announced, the remembered moment is the beginning of a trouble that never stopped.\<close>

lemma unannounced_since:
  assumes "alarm_run step (\<lambda>_ s. s) ok s0 s h" "wf s0" "lvl s0 = 0" "since s0 = None"
  shows "wf s \<and> lvl s = 0 \<and> since_then (since s) trouble h"
  using assms
proof (induction rule: alarm_run.induct)
  case (tick s h i t l s' s'')
  then show ?case
    using step_wf [of s i t l s'] since_law [of s i t l s'] since_then_snoc [of "since s" trouble h i t] by auto
qed simp

lemma raised_after_hold:
  assumes "alarm_run step (\<lambda>_ s. s) ok s0 s h" "wf s0" "lvl s0 = 0" "since s0 = None"
    and t: "ok i" "time_ok t" "step s i t = Inr (l, s')" and "0 < l" "\<not> urgent i t"
  shows "lasted hold trouble (h @ [(t, i)])"
proof -
  from unannounced_since [OF assms(1-4)] have s: "wf s" "lvl s = 0" by auto
  from raise_law [OF s(1) t s(2) assms(8,9)] obtain t0 where t0: "since s' = Some t0" "hold \<le> t - t0" by blast
  have "alarm_run step (\<lambda>_ s. s) ok s0 s' (h @ [(t, i)])"
    using assms(1) t by (rule alarm_run.tick) simp
  from unannounced_since [OF this assms(2-4)] t0 show ?thesis by (auto intro: lastedI)
qed

end

section \<open>What ending it must obey\<close>

locale held_alarm = raise_hold wf lvl since step ok trouble urgent hold
  for wf :: "'s \<Rightarrow> bool" and lvl :: "'s \<Rightarrow> int" and since :: "'s \<Rightarrow> time option"
    and step :: "'s \<Rightarrow> 'i \<Rightarrow> time \<Rightarrow> (int \<times> 's) res"
    and ok :: "'i \<Rightarrow> bool" and trouble :: "'i \<Rightarrow> bool" and urgent :: "'i \<Rightarrow> time \<Rightarrow> bool" and hold :: int +
  fixes store :: "int \<Rightarrow> 's \<Rightarrow> 's" and cool :: "'s \<Rightarrow> time option" and quiet :: "'i \<Rightarrow> bool" and calm :: int
  assumes store_law: "wf s \<Longrightarrow> 0 \<le> l \<Longrightarrow> wf (store l s) \<and> lvl (store l s) = l \<and> since (store l s) = since s \<and> cool (store l s) = cool s"
    and cool_off: "wf s \<Longrightarrow> ok i \<Longrightarrow> time_ok t \<Longrightarrow> step s i t = Inr (l, s') \<Longrightarrow> lvl s = 0 \<Longrightarrow> cool s' = None"
    and cool_law: "wf s \<Longrightarrow> ok i \<Longrightarrow> time_ok t \<Longrightarrow> step s i t = Inr (l, s') \<Longrightarrow> 0 < lvl s \<Longrightarrow>
      cool s' = None \<or> quiet i \<and> cool s' = Some (case cool s of Some t0 \<Rightarrow> t0 | None \<Rightarrow> t)"
    and clear_law: "wf s \<Longrightarrow> ok i \<Longrightarrow> time_ok t \<Longrightarrow> step s i t = Inr (0, s') \<Longrightarrow> 0 < lvl s \<Longrightarrow>
      since s' = None \<and> (\<exists>t0. cool s' = Some t0 \<and> calm \<le> t - t0)"
begin

definition fresh :: "'s \<Rightarrow> bool" where
  "fresh s \<longleftrightarrow> wf s \<and> lvl s = 0 \<and> since s = None \<and> cool s = None"

lemma run_since:
  assumes "alarm_run step store ok s0 s h" "fresh s0"
  shows "wf s \<and> 0 \<le> lvl s \<and> (lvl s = 0 \<longrightarrow> since_then (since s) trouble h) \<and> (0 < lvl s \<longrightarrow> since_then (cool s) quiet h)"
  using assms
proof (induction rule: alarm_run.induct)
  case start
  then show ?case by (simp add: fresh_def)
next
  case (tick s h i t l s' s'')
  then have s: "wf s" "0 \<le> lvl s" "lvl s = 0 \<Longrightarrow> since_then (since s) trouble h" "0 < lvl s \<Longrightarrow> since_then (cool s) quiet h" by auto
  note w = step_wf [OF s(1) tick.hyps(2-4)]
  note laws = since_law [OF s(1) tick.hyps(2-4)] cool_off [OF s(1) tick.hyps(2-4)] cool_law [OF s(1) tick.hyps(2-4)]
  have st: "wf s'' \<and> lvl s'' \<in> {lvl s, l} \<and> since s'' = since s' \<and> cool s'' = cool s'"
    using tick.hyps(5) w store_law [of s' l] by auto
  show ?case
  proof (cases "lvl s = 0")
    case True
    have "since_then (since s') trouble (h @ [(t, i)])"
      using laws(1) [OF True] since_then_snoc [OF s(3) [OF True], of i t] by auto
    with st w True laws(2) [OF True] show ?thesis by auto
  next
    case False
    then have p: "0 < lvl s" using s(2) by simp
    have c: "since_then (cool s') quiet (h @ [(t, i)])"
      using laws(3) [OF p] since_then_snoc [OF s(4) [OF p], of i t] by auto
    have "since s' = None" if "lvl s'' = 0"
      using that st p clear_law [OF s(1) tick.hyps(2,3), of s'] tick.hyps(4) by auto
    with c st w p show ?thesis by auto
  qed
qed

lemma raised_in_run:
  assumes "alarm_run step store ok s0 s h" "fresh s0" "lvl s = 0"
    and t: "ok i" "time_ok t" "step s i t = Inr (l, s')" and "0 < l" "\<not> urgent i t"
  shows "lasted hold trouble (h @ [(t, i)])"
proof -
  from run_since [OF assms(1,2)] have s: "wf s" "since_then (since s) trouble h" using assms(3) by auto
  from raise_law [OF s(1) t assms(3,7,8)] obtain t0 where t0: "since s' = Some t0" "hold \<le> t - t0" by blast
  from since_law [OF s(1) t assms(3)] t0(1) since_then_snoc [OF s(2), of i t] have "since_then (Some t0) trouble (h @ [(t, i)])" by auto
  then show ?thesis using t0(2) by (rule lastedI)
qed

lemma cleared_in_run:
  assumes "alarm_run step store ok s0 s h" "fresh s0" "0 < lvl s"
    and t: "ok i" "time_ok t" "step s i t = Inr (0, s')"
  shows "lasted calm quiet (h @ [(t, i)])"
proof -
  from run_since [OF assms(1,2)] have s: "wf s" "since_then (cool s) quiet h" using assms(3) by auto
  from clear_law [OF s(1) t assms(3)] obtain t0 where t0: "cool s' = Some t0" "calm \<le> t - t0" by blast
  from cool_law [OF s(1) t assms(3)] t0(1) since_then_snoc [OF s(2), of i t] have "since_then (Some t0) quiet (h @ [(t, i)])" by auto
  then show ?thesis using t0(2) by (rule lastedI)
qed

end

section \<open>The state in alert_state\<close>

text \<open>A state whose marks were written by the panel: a level that is a number, moments in ISO format or nothing.\<close>

definition own_moment :: "py \<Rightarrow> bool" where
  "own_moment v \<longleftrightarrow> v = PNone \<or> (\<exists>t. time_ok t \<and> v = PStr (iso t))"

definition own_state :: "string \<Rightarrow> dict \<Rightarrow> bool" where
  "own_state key st \<longleftrightarrow> (\<exists>l\<ge>0. dget_or st key (PInt 0) = PInt l) \<and> own_moment (dget st (key @ ''_since'')) \<and> own_moment (dget st (key @ ''_cool''))"

definition level_of :: "string \<Rightarrow> dict \<Rightarrow> int" where
  "level_of key st = (case dget_or st key (PInt 0) of PInt l \<Rightarrow> l | _ \<Rightarrow> 0)"

definition moment_of :: "string \<Rightarrow> dict \<Rightarrow> time option" where
  "moment_of k st = map_option dt_utc (parse_iso (dget st k))"

definition set_level :: "string \<Rightarrow> int \<Rightarrow> dict \<Rightarrow> dict" where
  "set_level key l st = dset key (PInt l) st"

lemma dget_or_dset [simp]: "dget_or (dset k v d) k' w = (if k = k' then v else dget_or d k' w)"
  by (simp add: dget_or_def update_conv')

lemma parse_iso_simps [simp]: "parse_iso PNone = None" "time_ok t \<Longrightarrow> parse_iso (PStr (iso t)) = Some (utc t)" "parse_iso (PStr []) = None"
  by (simp_all add: parse_iso_def) code_simp

lemma own_momentE:
  assumes "own_moment v"
  obtains "v = PNone" | t where "time_ok t" "v = PStr (iso t)"
  using assms by (auto simp: own_moment_def)

lemma own_moment_intros [intro, simp]: "own_moment PNone" "time_ok t \<Longrightarrow> own_moment (PStr (iso t))"
  by (auto simp: own_moment_def)

lemma iso_utc [simp]: "isoformat (utc t) = iso t"
  by (simp add: iso_def)

text \<open>The expressions of the code on such a state.\<close>

lemma kept_since:
  assumes "own_moment v" "time_ok now"
  shows "own_moment (por v (PStr (iso now)))"
    "parse_iso (por v (PStr (iso now))) = Some (utc (case map_option dt_utc (parse_iso v) of Some t0 \<Rightarrow> t0 | None \<Rightarrow> now))"
    "held_us (por v (PStr (iso now))) now = now - (case map_option dt_utc (parse_iso v) of Some t0 \<Rightarrow> t0 | None \<Rightarrow> now)"
  using assms by (auto elim!: own_momentE simp: por_def held_us_def)

lemma cool_start_own:
  assumes "own_moment (dget st (key @ ''_cool''))" "time_ok now"
  shows "cool_start st key now = utc (case moment_of (key @ ''_cool'') st of Some t0 \<Rightarrow> t0 | None \<Rightarrow> now)"
    "(case parse_iso (dget st (key @ ''_cool'')) of Some d \<Rightarrow> d | None \<Rightarrow> utc now) =
       utc (case moment_of (key @ ''_cool'') st of Some t0 \<Rightarrow> t0 | None \<Rightarrow> now)"
  using assms(1) by (auto elim!: own_momentE simp: cool_start_def moment_of_def por_def)

lemma own_started: "own_moment (dget st k) \<Longrightarrow> time_ok now \<Longrightarrow> time_ok (case moment_of k st of Some t0 \<Rightarrow> t0 | None \<Rightarrow> now)"
  by (auto elim!: own_momentE simp: moment_of_def)

lemma state_level_own: "own_state key st \<Longrightarrow> state_level st key = Inr (level_of key st)"
  by (auto simp: own_state_def state_level_def level_of_def por_def)

lemma level_of_nonneg: "own_state key st \<Longrightarrow> 0 \<le> level_of key st"
  by (auto simp: own_state_def level_of_def)

lemma persist_simps [simp]:
  "level_of key (persist key since cool st) = level_of key st"
  "moment_of (key @ ''_since'') (persist key since cool st) = map_option dt_utc (parse_iso since)"
  "moment_of (key @ ''_cool'') (persist key since cool st) = map_option dt_utc (parse_iso cool)"
  by (simp_all add: persist_def level_of_def moment_of_def)

lemma own_state_persist:
  "own_state key st \<Longrightarrow> own_moment since \<Longrightarrow> own_moment cool \<Longrightarrow> own_state key (persist key since cool st)"
  by (simp add: own_state_def persist_def)

lemma set_level_law:
  "own_state key s \<Longrightarrow> 0 \<le> l \<Longrightarrow> own_state key (set_level key l s) \<and> level_of key (set_level key l s) = l \<and>
     moment_of (key @ ''_since'') (set_level key l s) = moment_of (key @ ''_since'') s \<and>
     moment_of (key @ ''_cool'') (set_level key l s) = moment_of (key @ ''_cool'') s"
  by (simp add: set_level_def own_state_def level_of_def moment_of_def)

section \<open>Disk space and inodes\<close>

record fill_input =
  fi_value :: rat
  fi_raw :: int
  fi_low :: "rat option"
  fi_points :: "(rat \<times> rat) list"

definition fill_tick :: "string \<Rightarrow> dict \<Rightarrow> fill_input \<Rightarrow> time \<Rightarrow> (int \<times> dict) res" where
  "fill_tick key st i now =
     rbind (fill_step st key (fi_value i) (fi_raw i) (fi_low i) now (fi_points i)) (\<lambda>(l, cx).
       Inr (l, persist key (hc_since cx) (hc_cool cx) st))"

definition fill_ok :: "fill_input \<Rightarrow> bool" where
  "fill_ok i \<longleftrightarrow> fi_low i \<noteq> None \<and> 0 \<le> fi_raw i"

definition fill_urgent :: "fill_input \<Rightarrow> time \<Rightarrow> bool" where
  "fill_urgent i t \<longleftrightarrow> CRIT \<le> fi_raw i \<or> fast_fill (fi_points i) (fi_value i) t \<noteq> None"

definition fill_quiet :: "fill_input \<Rightarrow> bool" where
  "fill_quiet i \<longleftrightarrow> (case fi_low i of Some lo \<Rightarrow> fi_value i < lo - HYST | None \<Rightarrow> False)"

text \<open>A tick on a state of the panel, branch by branch.\<close>

lemma fill_tick_cases:
  assumes "own_state key s" "fill_ok i" "time_ok t"
  defines "S \<equiv> (case moment_of (key @ ''_since'') s of Some t0 \<Rightarrow> t0 | None \<Rightarrow> t)"
    and "C \<equiv> (case moment_of (key @ ''_cool'') s of Some t0 \<Rightarrow> t0 | None \<Rightarrow> t)"
  shows "level_of key s = 0 \<Longrightarrow> fi_raw i = 0 \<Longrightarrow> fill_tick key s i t = Inr (0, persist key PNone PNone s)"
    "level_of key s = 0 \<Longrightarrow> fi_raw i \<noteq> 0 \<Longrightarrow> fill_tick key s i t =
       Inr (if fill_urgent i t \<or> sec HOLD_S \<le> t - S then fi_raw i else 0, persist key (PStr (iso S)) PNone s)"
    "level_of key s \<noteq> 0 \<Longrightarrow> \<not> fill_quiet i \<Longrightarrow> fill_tick key s i t = Inr (max (level_of key s) (fi_raw i), persist key (PStr (iso S)) PNone s)"
    "level_of key s \<noteq> 0 \<Longrightarrow> fill_quiet i \<Longrightarrow> fill_tick key s i t =
       (if t - C < sec CALM_S then Inr (level_of key s, persist key (dget s (key @ ''_since'')) (PStr (iso C)) s)
        else Inr (0, persist key PNone (PStr (iso C)) s))"
proof -
  have m: "own_moment (dget s (key @ ''_since''))" "own_moment (dget s (key @ ''_cool''))"
    using assms(1) by (simp_all add: own_state_def)
  obtain lo where lo: "fi_low i = Some lo" using assms(2) by (auto simp: fill_ok_def)
  have k: "por (dget s (key @ ''_since'')) (PStr (iso t)) = PStr (iso S)"
    using m(1) by (auto elim!: own_momentE simp: S_def moment_of_def por_def)
  have S: "parse_iso (PStr (iso S)) = Some (utc S)"
    using own_started [OF m(1) assms(3)] by (simp add: S_def)
  note simps = fill_tick_def fill_step_def state_level_own [OF assms(1)] lo k S cool_start_own(2) [OF m(2) assms(3)] Let_def
    fill_urgent_def fill_quiet_def C_def [symmetric]
  show "level_of key s = 0 \<Longrightarrow> fi_raw i = 0 \<Longrightarrow> fill_tick key s i t = Inr (0, persist key PNone PNone s)"
    by (simp add: simps)
  show "level_of key s = 0 \<Longrightarrow> fi_raw i \<noteq> 0 \<Longrightarrow> fill_tick key s i t =
       Inr (if fill_urgent i t \<or> sec HOLD_S \<le> t - S then fi_raw i else 0, persist key (PStr (iso S)) PNone s)"
    by (simp add: simps)
  show "level_of key s \<noteq> 0 \<Longrightarrow> \<not> fill_quiet i \<Longrightarrow> fill_tick key s i t = Inr (max (level_of key s) (fi_raw i), persist key (PStr (iso S)) PNone s)"
    by (simp add: simps)
  show "level_of key s \<noteq> 0 \<Longrightarrow> fill_quiet i \<Longrightarrow> fill_tick key s i t =
       (if t - C < sec CALM_S then Inr (level_of key s, persist key (dget s (key @ ''_since'')) (PStr (iso C)) s)
        else Inr (0, persist key PNone (PStr (iso C)) s))"
    by (simp add: simps)
qed

lemma own_parts:
  assumes "own_state key s" "time_ok t"
  shows "own_moment (dget s (key @ ''_since''))" "own_moment (dget s (key @ ''_cool''))"
    "time_ok (case moment_of (key @ ''_since'') s of Some t0 \<Rightarrow> t0 | None \<Rightarrow> t)"
    "time_ok (case moment_of (key @ ''_cool'') s of Some t0 \<Rightarrow> t0 | None \<Rightarrow> t)"
  using assms by (simp_all add: own_state_def own_started)

interpretation fill: held_alarm "own_state key" "level_of key" "moment_of (key @ ''_since'')" "fill_tick key" fill_ok
  "\<lambda>i. 0 < fi_raw i" fill_urgent "sec HOLD_S" "set_level key" "moment_of (key @ ''_cool'')" fill_quiet "sec CALM_S" for key
proof
  fix s :: dict and i t l and s'
  assume a: "own_state key s" "fill_ok i" "time_ok t"
  note c = fill_tick_cases [OF a] and p = own_parts [OF a(1,3)]
  have raw: "0 \<le> fi_raw i" using a(2) by (simp add: fill_ok_def)
  note lv = level_of_nonneg [OF a(1)]
  show "\<exists>l s'. fill_tick key s i t = Inr (l, s') \<and> own_state key s' \<and> level_of key s' = level_of key s \<and> 0 \<le> l"
    by (cases "level_of key s = 0"; cases "fi_raw i = 0"; cases "fill_quiet i")
       (use raw lv in \<open>simp_all add: c own_state_persist a(1) p\<close>)
  { assume r: "fill_tick key s i t = Inr (l, s')" and z: "level_of key s = 0"
    show "moment_of (key @ ''_since'') s' = None \<or>
        0 < fi_raw i \<and> moment_of (key @ ''_since'') s' = Some (case moment_of (key @ ''_since'') s of Some t0 \<Rightarrow> t0 | None \<Rightarrow> t)"
      using r raw by (cases "fi_raw i = 0") (auto simp: c z p)
    show "moment_of (key @ ''_cool'') s' = None"
      using r by (cases "fi_raw i = 0") (auto simp: c z)
    assume "0 < l" "\<not> fill_urgent i t"
    then show "\<exists>t0. moment_of (key @ ''_since'') s' = Some t0 \<and> sec HOLD_S \<le> t - t0"
      using r by (cases "fi_raw i = 0") (auto simp: c z p split: if_splits) }
  { assume r: "fill_tick key s i t = Inr (l, s')" and z: "0 < level_of key s"
    then show "moment_of (key @ ''_cool'') s' = None \<or>
        fill_quiet i \<and> moment_of (key @ ''_cool'') s' = Some (case moment_of (key @ ''_cool'') s of Some t0 \<Rightarrow> t0 | None \<Rightarrow> t)"
      by (cases "fill_quiet i") (auto simp: c p split: if_splits) }
  assume r: "fill_tick key s i t = Inr (0, s')" and z: "0 < level_of key s"
  then show "moment_of (key @ ''_since'') s' = None \<and> (\<exists>t0. moment_of (key @ ''_cool'') s' = Some t0 \<and> sec CALM_S \<le> t - t0)"
    by (cases "fill_quiet i") (auto simp: c p split: if_splits)
next
  fix s l assume "own_state key s" "0 \<le> (l :: int)"
  then show "own_state key (set_level key l s) \<and> level_of key (set_level key l s) = l \<and>
     moment_of (key @ ''_since'') (set_level key l s) = moment_of (key @ ''_since'') s \<and>
     moment_of (key @ ''_cool'') (set_level key l s) = moment_of (key @ ''_cool'') s"
    by (rule set_level_law)
qed

section \<open>The kinds with levels\<close>

text \<open>A tick of \<open>sustain_lvl\<close> with a hold for the all-clear; the observation is the level the report shows, of a server
  that is talking.\<close>

definition lvl_tick :: "string \<Rightarrow> int \<Rightarrow> int \<Rightarrow> dict \<Rightarrow> int \<Rightarrow> time \<Rightarrow> (int \<times> dict) res" where
  "lvl_tick key hold_s cool_s st lvl now =
     rbind (sustain_lvl st True hold_s key lvl (Some cool_s) None now) (\<lambda>(l, since, cool). Inr (l, persist key since cool st))"

lemma lvl_tick_cases:
  assumes "own_state key s" "time_ok t"
  defines "S \<equiv> (case moment_of (key @ ''_since'') s of Some t0 \<Rightarrow> t0 | None \<Rightarrow> t)"
    and "C \<equiv> (case moment_of (key @ ''_cool'') s of Some t0 \<Rightarrow> t0 | None \<Rightarrow> t)"
  shows "i \<noteq> 0 \<Longrightarrow> lvl_tick key hs cs s i t =
      Inr (if sec hs \<le> t - S then i else level_of key s, persist key (PStr (iso S)) PNone s)"
    "level_of key s = 0 \<Longrightarrow> lvl_tick key hs cs s 0 t = Inr (0, persist key PNone PNone s)"
    "level_of key s \<noteq> 0 \<Longrightarrow> lvl_tick key hs cs s 0 t =
       (if t - C < sec cs then Inr (level_of key s, persist key (dget s (key @ ''_since'')) (PStr (iso C)) s)
        else Inr (0, persist key PNone (PStr (iso C)) s))"
proof -
  note p = own_parts [OF assms(1,2)]
  have k: "por (dget s (key @ ''_since'')) (PStr (iso t)) = PStr (iso S)"
    using p(1) by (auto elim!: own_momentE simp: S_def moment_of_def por_def)
  have h: "held_us (PStr (iso S)) t = t - S"
    using p(3) by (simp add: S_def held_us_def)
  note simps = lvl_tick_def sustain_lvl_def state_level_own [OF assms(1)] k h cool_start_own(1) [OF p(2) assms(2)] Let_def C_def [symmetric]
  show "i \<noteq> 0 \<Longrightarrow> lvl_tick key hs cs s i t =
      Inr (if sec hs \<le> t - S then i else level_of key s, persist key (PStr (iso S)) PNone s)"
    by (simp add: simps)
  show "level_of key s = 0 \<Longrightarrow> lvl_tick key hs cs s 0 t = Inr (0, persist key PNone PNone s)"
    by (simp add: simps)
  show "level_of key s \<noteq> 0 \<Longrightarrow> lvl_tick key hs cs s 0 t =
       (if t - C < sec cs then Inr (level_of key s, persist key (dget s (key @ ''_since'')) (PStr (iso C)) s)
        else Inr (0, persist key PNone (PStr (iso C)) s))"
    by (simp add: simps)
qed

interpretation lvl: held_alarm "own_state key" "level_of key" "moment_of (key @ ''_since'')" "lvl_tick key hs cs" "\<lambda>i. 0 \<le> i"
  "\<lambda>i. 0 < i" "\<lambda>_ _. False" "sec hs" "set_level key" "moment_of (key @ ''_cool'')" "\<lambda>i. i = 0" "sec cs" for key hs cs
proof
  fix s :: dict and i t l :: int and s'
  assume a: "own_state key s" "0 \<le> i" "time_ok t"
  note c = lvl_tick_cases [OF a(1,3)] and p = own_parts [OF a(1,3)]
  note lv = level_of_nonneg [OF a(1)]
  show "\<exists>l s'. lvl_tick key hs cs s i t = Inr (l, s') \<and> own_state key s' \<and> level_of key s' = level_of key s \<and> 0 \<le> l"
    by (cases "i = 0"; cases "level_of key s = 0") (use a(2) lv in \<open>simp_all add: c own_state_persist a(1) p\<close>)
  { assume r: "lvl_tick key hs cs s i t = Inr (l, s')" and z: "level_of key s = 0"
    show "moment_of (key @ ''_since'') s' = None \<or>
        0 < i \<and> moment_of (key @ ''_since'') s' = Some (case moment_of (key @ ''_since'') s of Some t0 \<Rightarrow> t0 | None \<Rightarrow> t)"
      using r a(2) by (cases "i = 0") (auto simp: c z p)
    show "moment_of (key @ ''_cool'') s' = None"
      using r by (cases "i = 0") (auto simp: c z)
    assume "0 < l"
    then show "\<exists>t0. moment_of (key @ ''_since'') s' = Some t0 \<and> sec hs \<le> t - t0"
      using r by (cases "i = 0") (auto simp: c z p split: if_splits) }
  { assume r: "lvl_tick key hs cs s i t = Inr (l, s')" and z: "0 < level_of key s"
    then show "moment_of (key @ ''_cool'') s' = None \<or>
        i = 0 \<and> moment_of (key @ ''_cool'') s' = Some (case moment_of (key @ ''_cool'') s of Some t0 \<Rightarrow> t0 | None \<Rightarrow> t)"
      by (cases "i = 0") (auto simp: c p split: if_splits) }
  assume r: "lvl_tick key hs cs s i t = Inr (0, s')" and z: "0 < level_of key s"
  then show "moment_of (key @ ''_since'') s' = None \<and> (\<exists>t0. moment_of (key @ ''_cool'') s' = Some t0 \<and> sec cs \<le> t - t0)"
    by (cases "i = 0") (auto simp: c p split: if_splits)
next
  fix s l assume "own_state key s" "0 \<le> (l :: int)"
  then show "own_state key (set_level key l s) \<and> level_of key (set_level key l s) = l \<and>
     moment_of (key @ ''_since'') (set_level key l s) = moment_of (key @ ''_since'') s \<and>
     moment_of (key @ ''_cool'') (set_level key l s) = moment_of (key @ ''_cool'') s"
    by (rule set_level_law)
qed

section \<open>The kinds without levels\<close>

text \<open>A tick of \<open>sustain\<close> for a kind with a line for the all-clear: whether the threshold is reached and whether the value
  is below the line.\<close>

definition sus_tick :: "string \<Rightarrow> int \<Rightarrow> dict \<Rightarrow> bool \<times> bool \<Rightarrow> time \<Rightarrow> (int \<times> dict) res" where
  "sus_tick key hold_s st i now =
     rbind (sustain st True hold_s key (fst i) (Some (snd i)) None None now) (\<lambda>(l, since, cool). Inr (l, persist key since cool st))"

lemma sus_tick_cases:
  assumes "own_state key s" "time_ok t"
  defines "S \<equiv> (case moment_of (key @ ''_since'') s of Some t0 \<Rightarrow> t0 | None \<Rightarrow> t)"
  shows "fst i \<or> 1 \<le> level_of key s \<and> \<not> snd i \<Longrightarrow> sus_tick key hs s i t =
      Inr (if sec hs \<le> t - S then 1 else 0, persist key (PStr (iso S)) PNone s)"
    "level_of key s = 0 \<Longrightarrow> \<not> fst i \<Longrightarrow> sus_tick key hs s i t = Inr (0, persist key PNone PNone s)"
    "\<exists>l s'. sus_tick key hs s i t = Inr (l, s') \<and> own_state key s' \<and> level_of key s' = level_of key s \<and> 0 \<le> l"
proof -
  note p = own_parts [OF assms(1,2)]
  have k: "por (dget s (key @ ''_since'')) (PStr (iso t)) = PStr (iso S)"
    using p(1) by (auto elim!: own_momentE simp: S_def moment_of_def por_def)
  have h: "held_us (PStr (iso S)) t = t - S" "own_moment (PStr (iso S))"
    using p(3) by (simp_all add: S_def held_us_def)
  note simps = sus_tick_def sustain_def state_level_own [OF assms(1)] k h cool_start_own(1) [OF p(2) assms(2)] Let_def
  show "fst i \<or> 1 \<le> level_of key s \<and> \<not> snd i \<Longrightarrow> sus_tick key hs s i t =
      Inr (if sec hs \<le> t - S then 1 else 0, persist key (PStr (iso S)) PNone s)"
    by (auto simp: simps)
  show "level_of key s = 0 \<Longrightarrow> \<not> fst i \<Longrightarrow> sus_tick key hs s i t = Inr (0, persist key PNone PNone s)"
    by (simp add: simps)
  show "\<exists>l s'. sus_tick key hs s i t = Inr (l, s') \<and> own_state key s' \<and> level_of key s' = level_of key s \<and> 0 \<le> l"
    using p by (simp add: simps own_state_persist assms(1))
qed

interpretation sus: raise_hold "own_state key" "level_of key" "moment_of (key @ ''_since'')" "sus_tick key hs" "\<lambda>_. True"
  fst "\<lambda>_ _. False" "sec hs" for key hs
proof
  fix s :: dict and i :: "bool \<times> bool" and t l and s'
  assume a: "own_state key s" "time_ok t"
  note c = sus_tick_cases [OF a] and p = own_parts [OF a]
  show "\<exists>l s'. sus_tick key hs s i t = Inr (l, s') \<and> own_state key s' \<and> level_of key s' = level_of key s \<and> 0 \<le> l"
    by (rule c(3))
  assume r: "sus_tick key hs s i t = Inr (l, s')" and z: "level_of key s = 0"
  show "moment_of (key @ ''_since'') s' = None \<or>
      fst i \<and> moment_of (key @ ''_since'') s' = Some (case moment_of (key @ ''_since'') s of Some t0 \<Rightarrow> t0 | None \<Rightarrow> t)"
    using r by (cases "fst i") (auto simp: c z p)
  assume "0 < l"
  then show "\<exists>t0. moment_of (key @ ''_since'') s' = Some t0 \<and> sec hs \<le> t - t0"
    using r by (cases "fst i") (auto simp: c z p split: if_splits)
qed

section \<open>Properties\<close>

lemma fresh_Nil: "fill.fresh key []" "lvl.fresh key []"
  by (simp_all add: fill.fresh_def lvl.fresh_def own_state_def level_of_def moment_of_def dget_or_def)

text \<open>C20. Disk space and inodes: over any run of ticks from an empty state, announced or not, an alert that is not urgent (a
  critical or fast fill is raised at once, see \<open>fill_urgent\<close>) is raised only after the value was over a threshold at every tick of the last half
  hour; it ends only after the value was under the lowest threshold by the margin at every tick of the last half hour; and
  in between its level never falls.\<close>

theorem fill_alert_holds:
  assumes "alarm_run (fill_tick key) (set_level key) fill_ok [] s h"
    and "fill_ok i" "time_ok t" "fill_tick key s i t = Inr (l, s')"
  shows "(level_of key s = 0 \<and> 0 < l \<and> \<not> fill_urgent i t \<longrightarrow> lasted (sec 1800) (\<lambda>i. 0 < fi_raw i) (h @ [(t, i)])) \<and>
    (0 < level_of key s \<and> l = 0 \<longrightarrow> lasted (sec 1800) fill_quiet (h @ [(t, i)])) \<and>
    (l = 0 \<or> level_of key s \<le> l)"
proof -
  note f = fresh_Nil(1) [of key]
  from fill.run_since [OF assms(1) f] have w: "own_state key s" "0 \<le> level_of key s" by auto
  note c = fill_tick_cases [OF w(1) assms(2,3)]
  have "l = 0 \<or> level_of key s \<le> l"
    using assms(2,4) by (cases "level_of key s = 0"; cases "fi_raw i = 0"; cases "fill_quiet i")
      (auto simp: c fill_ok_def split: if_splits)
  then show ?thesis
    using fill.raised_in_run [OF assms(1) f _ assms(2-4)] fill.cleared_in_run [OF assms(1) f _ assms(2,3)] assms(4)
    by (auto simp: HOLD_S_def CALM_S_def)
qed

definition full :: "int \<Rightarrow> fill_input" where
  "full raw = \<lparr>fi_value = 80 + of_int raw * 5, fi_raw = raw, fi_low = Some 85, fi_points = []\<rparr>"

theorem fill_alert_holds_witness:
  "lasted (sec 1800) (\<lambda>i. 0 < fi_raw i) [(0, full 1), (sec 1800, full 1)]"
proof -
  have ok: "fill_ok (full 1)" "time_ok 0" "time_ok (sec 1800)" "\<not> fill_urgent (full 1) (sec 1800)" by code_simp+
  let ?s1 = "persist ''disk'' (PStr (iso 0)) PNone []"
  have 1: "fill_tick ''disk'' [] (full 1) 0 = Inr (0, ?s1)"
    and 2: "\<exists>s2. fill_tick ''disk'' ?s1 (full 1) (sec 1800) = Inr (1, s2)" "level_of ''disk'' ?s1 = 0"
    by (code_simp, rule exI, code_simp, code_simp)
  have "alarm_run (fill_tick ''disk'') (set_level ''disk'') fill_ok [] ?s1 ([] @ [(0, full 1)])"
    using alarm_run.start ok(1,2) 1 by (rule alarm_run.tick) simp
  with 2 fill_alert_holds [OF this ok(1,3)] ok(4) show ?thesis by auto
qed

text \<open>The kinds with levels (pressure, network, links, slow disks and the others that go through \<open>sustain_lvl\<close> with a
  hold for the all-clear): over any run of ticks an alert is raised only after the trouble was there at every tick of the
  hold, and ends only after it was gone at every tick of the calm.\<close>

theorem sustain_lvl_holds:
  assumes "alarm_run (lvl_tick key hold_s cool_s) (set_level key) (\<lambda>i. 0 \<le> i) [] s h"
    and "0 \<le> i" "time_ok t" "lvl_tick key hold_s cool_s s i t = Inr (l, s')"
  shows "(level_of key s = 0 \<and> 0 < l \<longrightarrow> lasted (sec hold_s) (\<lambda>i. 0 < i) (h @ [(t, i)])) \<and>
    (0 < level_of key s \<and> l = 0 \<longrightarrow> lasted (sec cool_s) (\<lambda>i. i = 0) (h @ [(t, i)]))"
  using lvl.raised_in_run [OF assms(1) fresh_Nil(2) _ assms(2-4)] lvl.cleared_in_run [OF assms(1) fresh_Nil(2) _ assms(2,3)] assms(4)
  by auto

theorem sustain_lvl_holds_witness:
  "lasted (sec 900) (\<lambda>i. 0 < i) [(0, 2), (sec 900, 2 :: int)]"
proof -
  let ?s1 = "persist ''link'' (PStr (iso 0)) PNone []"
  have ok: "time_ok 0" "time_ok (sec 900)" by code_simp+
  have 1: "lvl_tick ''link'' 900 3600 [] 2 0 = Inr (0, ?s1)"
    and 2: "\<exists>s2. lvl_tick ''link'' 900 3600 ?s1 2 (sec 900) = Inr (2, s2)" "level_of ''link'' ?s1 = 0"
    by (code_simp, rule exI, code_simp, code_simp)
  have "alarm_run (lvl_tick ''link'' 900 3600) (set_level ''link'') (\<lambda>i. 0 \<le> i) [] ?s1 ([] @ [(0, 2)])"
    by (rule alarm_run.tick, rule alarm_run.start, simp, rule ok(1), rule 1, simp)
  with 2 sustain_lvl_holds [OF this, of 2 "sec 900"] ok(2) show ?thesis by auto
qed

text \<open>The kinds without levels (CPU, memory, temperatures and the others that go through \<open>sustain\<close>): while nothing is
  announced, an alert is raised only after the threshold was reached at every tick of the hold.\<close>

theorem sustain_raises_after_hold:
  assumes "alarm_run (sus_tick key hold_s) (\<lambda>_ s. s) (\<lambda>_. True) [] s h" "time_ok t" "sus_tick key hold_s s i t = Inr (1, s')"
  shows "lasted (sec hold_s) fst (h @ [(t, i)])"
  by (rule sus.raised_after_hold [OF assms(1) _ _ _ _ assms(2,3)])
     (simp_all add: own_state_def level_of_def moment_of_def dget_or_def)

theorem sustain_raises_after_hold_witness:
  "lasted (sec 900) fst [(0, (True, False)), (sec 900, (True, False))]"
proof -
  let ?s1 = "persist ''cpu'' (PStr (iso 0)) PNone []"
  have ok: "time_ok 0" "time_ok (sec 900)" by code_simp+
  have 1: "sus_tick ''cpu'' 900 [] (True, False) 0 = Inr (0, ?s1)"
    and 2: "\<exists>s2. sus_tick ''cpu'' 900 ?s1 (True, False) (sec 900) = Inr (1, s2)"
    by (code_simp, rule exI, code_simp)
  have "alarm_run (sus_tick ''cpu'' 900) (\<lambda>_ s. s) (\<lambda>_. True) [] ?s1 ([] @ [(0, (True, False))])"
    by (rule alarm_run.tick, rule alarm_run.start, simp, rule ok(1), rule 1, simp)
  with 2 sustain_raises_after_hold [OF this ok(2)] show ?thesis by auto
qed

text \<open>C21. \<open>sustain\<close> does not keep the other half of the contract: once it has computed the end of an alert, a threshold
  reached again gives level 0 for the length of the hold, and the common hold of the all-clear goes on counting.  So the
  all-clear goes out although the threshold has been reached at every tick since \<open>t0\<close>.\<close>

theorem sustain_clears_in_trouble:
  assumes "dget_or st key (PInt 0) = PInt 1" "dget st (key @ ''_since'') = PStr (iso t0)" "dget st (key @ ''_calm'') = PStr (iso c)"
    and "time_ok t0" "time_ok c" "now - t0 < sec hold_s" "sec 900 \<le> now - c"
  shows "\<exists>st'. sus_tick key hold_s st (True, False) now = Inr (0, st') \<and> fst (settle st' key 1 0 now)"
proof -
  have "state_level st key = Inr 1"
    using assms(1) by (simp add: state_level_def por_def)
  then have "sus_tick key hold_s st (True, False) now = Inr (0, persist key (PStr (iso t0)) PNone st)"
    using assms(2,4,6) by (simp add: sus_tick_def sustain_def por_def held_us_def)
  moreover have "fst (settle (persist key (PStr (iso t0)) PNone st) key 1 0 now)"
    using assms(3,5,7) by (simp add: settle_def persist_def por_def SETTLE_S_def)
  ultimately show ?thesis by blast
qed

text \<open>The state of the witness is one the code reaches: at 0 and 900 s the threshold is reached, the alert is announced; at
  1000 and 1900 s the value is below the line and the end is computed; at 2000 s the threshold is reached again.\<close>

definition two_bursts :: "(dict \<times> int) res" where
  "two_bursts =
     rbind (sus_tick ''cpu'' 900 [] (True, False) 0) (\<lambda>(_, st).
     rbind (sus_tick ''cpu'' 900 st (True, False) (sec 900)) (\<lambda>(l, st).
     rbind (sus_tick ''cpu'' 900 (set_level ''cpu'' l st) (False, True) (sec 1000)) (\<lambda>(_, st).
     rbind (sus_tick ''cpu'' 900 st (False, True) (sec 1900)) (\<lambda>(l1, st).
     rbind (sus_tick ''cpu'' 900 (snd (settle st ''cpu'' l l1 (sec 1900))) (True, False) (sec 2000)) (\<lambda>(l2, st).
       Inr (snd (settle st ''cpu'' l l2 (sec 2000)), l))))))"

theorem sustain_clears_in_trouble_witness:
  "\<exists>st st'. two_bursts = Inr (st, 1) \<and> sus_tick ''cpu'' 900 st (True, False) (sec 2800) = Inr (0, st') \<and> fst (settle st' ''cpu'' 1 0 (sec 2800))"
proof -
  have "case two_bursts of Inl _ \<Rightarrow> False | Inr (st, l) \<Rightarrow> l = 1 \<and> dget_or st ''cpu'' (PInt 0) = PInt 1 \<and>
      dget st (''cpu'' @ ''_since'') = PStr (iso (sec 2000)) \<and> dget st (''cpu'' @ ''_calm'') = PStr (iso (sec 1900))"
    by code_simp
  then obtain st where s: "two_bursts = Inr (st, 1)" "dget_or st ''cpu'' (PInt 0) = PInt 1"
      "dget st (''cpu'' @ ''_since'') = PStr (iso (sec 2000))" "dget st (''cpu'' @ ''_calm'') = PStr (iso (sec 1900))"
    by (auto split: sum.splits)
  have "time_ok (sec 2000)" "time_ok (sec 1900)" by code_simp+
  from sustain_clears_in_trouble [OF s(2-4) this, of "sec 2800" 900] s(1) show ?thesis
    by (auto simp: sec_def)
qed

end
