(* ===== verification/Alarm_Members.thy ===== *)
theory Alarm_Members
  imports Alarm_Hold
begin

text \<open>
  Alerts about several things at once: a kind such as \<open>disk_health\<close> or \<open>cron_stuck\<close> has a level and a list of members (the
  keys of what is broken).  This theory models what one tick of \<open>collector.evaluate_servers\<close> does with such a kind: what it
  forgets when the source of the evidence breaks, when a trouble that returns after its all-clear is the old one
  (\<open>_again_of\<close>, \<open>_was_after\<close>), which members are news, when the all-clear is due, and what is written back when the
  message went out.

  The kinds are those of \<open>MEMBER_KINDS\<close>: the list \<open>tracks_members\<close> of the source without the kinds that take a way of
  their own through the loop (a hold per object, a daily routine, daytime only, keys renamed between versions).  Texts are
  left out: a \<open>message\<close> holds the members it is about.  What a server as a whole is excused from (snooze,
  maintenance, boot, a rule switched off, a mute, a known problem) is decided before; \<open>held_tick\<close>, \<open>muted_tick\<close> and
  \<open>quiet_tick\<close> are what such a tick still does.  The marks of a single disk that is muted until it is replaced are left out.

  Lists of members in \<open>alert_state\<close> are lists of strings, as the panel writes them; anything else is a \<open>TypeError\<close> here.
\<close>

named_theorems member_simps \<open>rules that evaluate the bookkeeping of a kind\<close>

section \<open>Definitions\<close>

definition MEMBER_KINDS :: "string list" where
  "MEMBER_KINDS =
     [''windows_service'', ''disk_health'', ''mem_limit'', ''db_health'', ''web_config'', ''web_cert'', ''webfiles'', ''listen_gone'',
      ''docker_risk'', ''access_risk'', ''link'', ''gpu'', ''cf_realip'', ''queue_stuck'', ''queue_failed'', ''cron_stuck'', ''fpm'',
      ''gitlab'', ''autoban'', ''vpn_torrent'', ''vpn_heavy'']"

definition SIG_STORY :: "string list" where "SIG_STORY = [''docker_restarts'', ''kube_restarts'', ''db_health'']"
definition SIG_STORY_S :: int where "SIG_STORY_S = 3600"
definition AGAIN_S :: int where "AGAIN_S = 6 * 3600"
definition AGAIN_MAX :: int where "AGAIN_MAX = 24 * 3600"
definition AGAIN_TELL :: int where "AGAIN_TELL = 3 * 3600"

text \<open>\<open>set(v or [])\<close>, \<open>_parse_iso(str(v or ""))\<close>, \<open>int(v or 0)\<close>, and a stored list.\<close>

definition members_of :: "py \<Rightarrow> string list res" where
  "members_of v =
     (if \<not> truthy v then Inr []
      else case v of PList xs \<Rightarrow> rmap (\<lambda>x. case x of PStr s \<Rightarrow> Inr s | _ \<Rightarrow> Inl TypeError) xs | _ \<Rightarrow> Inl TypeError)"

definition dt_mark :: "py \<Rightarrow> dt option" where
  "dt_mark v = parse_iso (PStr (py_str (por v (PStr []))))"

definition mark_of :: "py \<Rightarrow> time option" where
  "mark_of v = map_option dt_utc (dt_mark v)"

definition int_or0 :: "py \<Rightarrow> int res" where
  "int_or0 v = py_int (por v (PInt 0))"

definition stored :: "string list \<Rightarrow> py" where
  "stored xs = PList (map PStr (sorted_set xs))"

definition put :: "(string \<times> py) list \<Rightarrow> dict \<Rightarrow> dict" where
  "put ws st = fold (\<lambda>(k, v) d. dset k v d) ws st"

text \<open>What is seen of the kind in this tick, and what is known about the server.\<close>

record kind_obs =
  ko_present :: bool
  ko_level :: int
  ko_sig :: "string list"
  ko_complete :: bool
  ko_held :: bool
  ko_talking :: bool
  ko_fresh :: bool
  ko_epoch :: bool
  ko_quiet :: "string list \<Rightarrow> bool"
  ko_fixed :: bool

datatype message = News "string list" int | AllClear | FixedClear | QuietClose

record tick_out =
  to_st :: dict
  to_send :: "(message \<times> (string \<times> py) list) option"

definition again_of :: "dict \<Rightarrow> string \<Rightarrow> int \<Rightarrow> string list \<Rightarrow> time \<Rightarrow> dict option res" where
  "again_of st key lvl sig now =
     (case dget st (key @ ''_was'') of
        PDict was \<Rightarrow>
          (case (mark_of (dget was ''ts''), mark_of (dget was ''first'')) of
             (Some ts, Some first) \<Rightarrow>
               if now - ts > sec AGAIN_S \<or> now - first > sec AGAIN_MAX then Inr None
               else rbind (int_or0 (dget was ''lvl'')) (\<lambda>l.
                 if lvl > l then Inr None
                 else rbind (members_of (dget was ''sig'')) (\<lambda>ms.
                   Inr (if set sig \<subseteq> set ms then Some was else None)))
           | _ \<Rightarrow> Inr None)
      | _ \<Rightarrow> Inr None)"

definition was_after :: "dict \<Rightarrow> string \<Rightarrow> int \<Rightarrow> time \<Rightarrow> dict res" where
  "was_after st key prev now =
     (let old = dict_or_empty (dget st (key @ ''_was''));
          first = (case (dt_mark (dget old ''first''), mark_of (dget old ''ts'')) of
                     (Some f, Some ts) \<Rightarrow> if now - ts > sec AGAIN_S then utc now else f
                   | _ \<Rightarrow> utc now);
          again = (dt_utc first \<noteq> now)
      in rbind (members_of (dget st (key @ ''_told''))) (\<lambda>told.
         rbind (members_of (dget st (key @ ''_sig''))) (\<lambda>sig.
         rbind (members_of (dget st (key @ ''_who''))) (\<lambda>who.
         rbind (int_or0 (dget st (key @ ''_told_lvl''))) (\<lambda>tl.
         rbind (if again then int_or0 (dget old ''lvl'') else Inr 0) (\<lambda>ol.
         rbind (if again then members_of (dget old ''sig'') else Inr []) (\<lambda>os.
           Inr [(''ts'', PStr (iso now)), (''first'', PStr (isoformat first)), (''lvl'', PInt (max (max tl prev) ol)),
                (''sig'', stored (told @ sig @ who @ os))])))))))"

definition closed_tail :: "string \<Rightarrow> dict \<Rightarrow> (string \<times> py) list" where
  "closed_tail key st =
     (key, PInt 0)
     # filter (\<lambda>(k, _). truthy (dget st k))
         [(key @ ''_sig'', PList []), (key @ ''_told'', PList []), (key @ ''_told_lvl'', PNone),
          (key @ ''_calm'', PNone), (key @ ''_hush'', PNone), (key @ ''_who'', PNone)]"

text \<open>A person marked the trouble as repaired.\<close>

definition fixed_close :: "string \<Rightarrow> int \<Rightarrow> dict \<Rightarrow> tick_out" where
  "fixed_close key prev st =
     (let tail = closed_tail key st
            @ filter (\<lambda>(k, _). dget st k \<noteq> PNone) [(key @ ''_was'', PNone), (key @ ''_quiet'', PNone), (key @ ''_said'', PNone)]
      in if prev \<noteq> 0 \<and> \<not> truthy (dget st (key @ ''_quiet'')) \<and> \<not> truthy (dget st (key @ ''_hush''))
         then \<lparr>to_st = st, to_send = Some (FixedClear, tail)\<rparr>
         else if prev \<noteq> 0 \<or> length tail > 1 then \<lparr>to_st = put tail st, to_send = None\<rparr>
         else \<lparr>to_st = st, to_send = None\<rparr>)"

text \<open>The hold before the all-clear and the silent repeat; the second component is the level the rest of the body compares
  with, or \<open>None\<close> when the tick is done with the kind.\<close>

definition wave_block :: "string \<Rightarrow> kind_obs \<Rightarrow> int \<Rightarrow> time \<Rightarrow> dict \<Rightarrow> (dict \<times> int option) res" where
  "wave_block key ob prev now st =
     (let lvl = ko_level ob;
          calm = mark_of (dget st (key @ ''_calm''));
          hush = mark_of (dget st (key @ ''_hush''));
          st = (if lvl \<noteq> 0 \<and> calm \<noteq> None then dset (key @ ''_calm'') PNone st else st)
      in if prev \<noteq> 0 \<and> lvl = 0 then
           (case calm of
              None \<Rightarrow> Inr (dset (key @ ''_calm'') (PStr (iso now)) st, None)
            | Some c \<Rightarrow>
                if now - c < sec SETTLE_S then Inr (st, None)
                else if hush \<noteq> None then
                  (let st = put (closed_tail key st) st
                   in rbind (was_after st key prev now) (\<lambda>was. Inr (dset (key @ ''_was'') (PDict was) st, None)))
                else Inr (st, Some prev))
         else if lvl \<noteq> 0 \<and> prev = 0 then
           rbind (again_of st key lvl (ko_sig ob) now) (\<lambda>again.
             case again of
               None \<Rightarrow> Inr (st, Some prev)
             | Some was \<Rightarrow>
                 rbind (py_int (por (dget was ''lvl'') (PInt lvl))) (\<lambda>tl.
                 rbind (members_of (dget was ''sig'')) (\<lambda>ms.
                   Inr (put [(key, PInt lvl), (key @ ''_hush'', PStr (iso now)), (key @ ''_told_lvl'', PInt tl),
                             (key @ ''_sig'', stored (ko_sig ob)), (key @ ''_told'', stored (ms @ ko_sig ob))] st, None))))
         else if lvl \<noteq> 0 \<and> (case hush of None \<Rightarrow> False | Some h \<Rightarrow> now - h \<ge> sec AGAIN_TELL) \<and> \<not> ko_held ob
         then Inr (st, Some 0)
         else Inr (st, Some prev))"

text \<open>What the tick knows about the members: those of the last tick and of this one, those told while the alert is open, the
  highest level told.\<close>

record member_view =
  mv_old :: "string list"
  mv_new :: "string list"
  mv_told :: "string list"
  mv_lvl :: int

definition view_members :: "string \<Rightarrow> kind_obs \<Rightarrow> int \<Rightarrow> dict \<Rightarrow> member_view res" where
  "view_members key ob prev st =
     rbind (if prev \<noteq> 0 then rbind (int_or0 (dget st (key @ ''_told_lvl''))) (\<lambda>l. Inr (max prev l)) else Inr 0) (\<lambda>told_lvl.
     rbind (members_of (dget st (key @ ''_sig''))) (\<lambda>old_sig.
     rbind (if prev \<noteq> 0 then rbind (members_of (dget st (key @ ''_told''))) (\<lambda>t. Inr (t @ old_sig)) else Inr []) (\<lambda>told.
       Inr \<lparr>mv_old = old_sig, mv_new = (if ko_complete ob then ko_sig ob else ko_sig ob @ old_sig), mv_told = told, mv_lvl = told_lvl\<rparr>)))"

definition mv_fresh :: "member_view \<Rightarrow> string list" where
  "mv_fresh v = filter (\<lambda>x. x \<notin> set (mv_told v)) (sorted_set (mv_new v))"

definition unhush :: "string \<Rightarrow> dict \<Rightarrow> (string \<times> py) list" where
  "unhush key st = (if truthy (dget st (key @ ''_hush'')) then [(key @ ''_hush'', PNone)] else [])"

definition tell_writes :: "string \<Rightarrow> int \<Rightarrow> member_view \<Rightarrow> time \<Rightarrow> (string \<times> py) list" where
  "tell_writes key lvl v now =
     [(key @ ''_sig'', stored (mv_new v)), (key @ ''_told'', stored (mv_told v @ mv_new v)), (key @ ''_said'', PStr (iso now)),
      (key @ ''_told_lvl'', PInt (max (mv_lvl v) lvl))]"

text \<open>The level did not change.\<close>

definition same_level :: "string \<Rightarrow> int \<Rightarrow> member_view \<Rightarrow> time \<Rightarrow> dict \<Rightarrow> tick_out" where
  "same_level key lvl v now st =
     (if lvl \<noteq> 0 \<and> mv_fresh v \<noteq> [] then
        (if key \<in> set SIG_STORY \<and> (case mark_of (dget st (key @ ''_said'')) of None \<Rightarrow> False | Some t \<Rightarrow> now - t < sec SIG_STORY_S)
         then \<lparr>to_st = put [(key @ ''_sig'', stored (mv_new v)), (key @ ''_told'', stored (mv_told v @ mv_new v))] st, to_send = None\<rparr>
         else \<lparr>to_st = st, to_send = Some (News (mv_fresh v) lvl, unhush key st @ tell_writes key lvl v now)\<rparr>)
      else if set (mv_new v) \<noteq> set (mv_old v) then
        \<lparr>to_st = put ((key @ ''_sig'', stored (mv_new v))
             # (if lvl \<noteq> 0 \<and> \<not> truthy (dget st (key @ ''_told'')) then [(key @ ''_told'', stored (mv_told v))] else [])) st,
         to_send = None\<rparr>
      else \<lparr>to_st = st, to_send = None\<rparr>)"

definition member_block :: "string \<Rightarrow> kind_obs \<Rightarrow> int \<Rightarrow> time \<Rightarrow> dict \<Rightarrow> tick_out res" where
  "member_block key ob prev now st =
     rbind (view_members key ob prev st) (\<lambda>v.
       let lvl = ko_level ob;
           known = [(key @ ''_sig'', stored (mv_new v)), (key @ ''_told'', stored (mv_told v @ mv_new v))]
       in if prev \<noteq> 0 \<and> lvl = 0 \<and> mv_old v \<noteq> [] \<and> ko_quiet ob (mv_old v) then
            Inr \<lparr>to_st = st, to_send = Some (QuietClose,
              [(key @ ''_calm'', PNone), (key @ ''_hush'', PNone), (key @ ''_sig'', PList []), (key @ ''_told'', PList []),
               (key @ ''_told_lvl'', PNone), (key, PInt 0)])\<rparr>
          else if lvl = prev then Inr (same_level key lvl v now st)
          else if lvl > prev \<and> prev \<noteq> 0 \<and> lvl \<le> mv_lvl v \<and> mv_fresh v = [] then
            Inr \<lparr>to_st = put ((key, PInt lvl) # known) st, to_send = None\<rparr>
          else if lvl > prev then
            Inr \<lparr>to_st = st, to_send = Some (News (mv_fresh v) lvl, tell_writes key lvl v now @ (key, PInt lvl) # unhush key st)\<rparr>
          else if lvl \<noteq> 0 then
            Inr \<lparr>to_st = put (known @ (if ko_complete ob then [(key, PInt lvl)] else [])) st, to_send = None\<rparr>
          else rbind (was_after st key prev now) (\<lambda>was.
            Inr \<lparr>to_st = st, to_send = Some (AllClear,
              [(key @ ''_sig'', PList []), (key @ ''_told'', PList []), (key @ ''_told_lvl'', PNone), (key, PInt 0),
               (key @ ''_calm'', PNone), (key @ ''_was'', PDict was)]
              @ (if truthy (dget st (key @ ''_who'')) then [(key @ ''_who'', PNone)] else []))\<rparr>))"

definition kind_body :: "string \<Rightarrow> kind_obs \<Rightarrow> time \<Rightarrow> dict \<Rightarrow> tick_out res" where
  "kind_body key ob now st =
     rbind (py_int (dget_or st key (PInt 0))) (\<lambda>prev.
       if ko_fixed ob then Inr (fixed_close key prev st)
       else rbind (wave_block key ob prev now st) (\<lambda>(st, go).
         case go of
           None \<Rightarrow> Inr \<lparr>to_st = st, to_send = None\<rparr>
         | Some p \<Rightarrow> member_block key ob p now st))"

text \<open>The calm does not go on through a gap in the evidence.\<close>

definition break_calm :: "string \<Rightarrow> kind_obs \<Rightarrow> dict \<Rightarrow> dict" where
  "break_calm key ob st =
     (if truthy (dget st (key @ ''_calm''))
         \<and> (\<not> ko_talking ob \<or> \<not> ko_fresh ob \<or> ko_epoch ob \<or> \<not> ko_present ob \<or> \<not> ko_complete ob)
      then dset (key @ ''_calm'') PNone st else st)"

text \<open>The level told before the first fall is remembered.\<close>

definition note_level :: "string \<Rightarrow> kind_obs \<Rightarrow> dict \<Rightarrow> dict res" where
  "note_level key ob st =
     (if \<not> ko_talking ob \<or> \<not> ko_fresh ob \<or> (ko_level ob = 0 \<and> \<not> ko_complete ob) then Inr st
      else rbind (py_int (dget_or st key (PInt 0))) (\<lambda>prev.
        Inr (if 0 < ko_level ob \<and> ko_level ob < prev \<and> \<not> truthy (dget st (key @ ''_told_lvl''))
                \<and> \<not> truthy (dget st (key @ ''_hush'')) \<and> \<not> truthy (dget st (key @ ''_quiet''))
             then dset (key @ ''_told_lvl'') (PInt prev) st else st)))"

text \<open>What every tick does before it looks at the kind in earnest: the evidence is checked, the level noted, and only a
  confirmed observation goes on.\<close>

definition tick_with :: "(dict \<Rightarrow> tick_out res) \<Rightarrow> string \<Rightarrow> kind_obs \<Rightarrow> dict \<Rightarrow> tick_out res" where
  "tick_with body key ob st =
     (let st = break_calm key ob st
      in if \<not> ko_present ob then Inr \<lparr>to_st = st, to_send = None\<rparr>
         else rbind (note_level key ob st) (\<lambda>st.
           if \<not> ko_talking ob then Inr \<lparr>to_st = st, to_send = None\<rparr>
           else rbind (members_of (dget st (key @ ''_sig''))) (\<lambda>policy_sig.
             let policy_close = (ko_level ob = 0 \<and> policy_sig \<noteq> [] \<and> ko_quiet ob policy_sig)
             in if \<not> ko_fixed ob \<and> \<not> policy_close \<and> (\<not> ko_fresh ob \<or> ko_level ob = 0 \<and> \<not> ko_complete ob)
                then Inr \<lparr>to_st = st, to_send = None\<rparr>
                else body st)))"

definition kind_tick :: "string \<Rightarrow> kind_obs \<Rightarrow> time \<Rightarrow> dict \<Rightarrow> tick_out res" where
  "kind_tick key ob now st = tick_with (kind_body key ob now) key ob st"

text \<open>A kind that is passed over: its rule is off, the server is starting or being connected, the problem is a known one.\<close>

definition held_tick :: "string \<Rightarrow> kind_obs \<Rightarrow> dict \<Rightarrow> tick_out res" where
  "held_tick key ob st = tick_with (\<lambda>st. Inr \<lparr>to_st = st, to_send = None\<rparr>) key ob st"

text \<open>A muted kind: nothing is told, a level that fell is written down.  What was announced and is gone ends the usual way.\<close>

definition muted_held :: "string \<Rightarrow> int \<Rightarrow> dict \<Rightarrow> dict res" where
  "muted_held key lvl st =
     rbind (py_int (dget_or st key (PInt 0))) (\<lambda>prev.
       Inr (if lvl < prev then dset key (PInt lvl) st else st))"

definition muted_tick :: "string \<Rightarrow> kind_obs \<Rightarrow> time \<Rightarrow> dict \<Rightarrow> tick_out res" where
  "muted_tick key ob now st =
     tick_with (\<lambda>st. rbind (py_int (dget_or st key (PInt 0))) (\<lambda>prev.
       if ko_level ob \<noteq> 0 \<or> prev = 0
       then rbind (muted_held key (ko_level ob) st) (\<lambda>st. Inr \<lparr>to_st = st, to_send = None\<rparr>)
       else kind_body key ob now st)) key ob st"

text \<open>A server that is snoozed or serviced: a level that fell is written down, what was announced and is gone ends at once.\<close>

definition quiet_tick :: "string \<Rightarrow> kind_obs \<Rightarrow> dict \<Rightarrow> tick_out res" where
  "quiet_tick key ob st =
     (let st = break_calm key ob st
      in if \<not> ko_present ob then Inr \<lparr>to_st = st, to_send = None\<rparr>
         else rbind (note_level key ob st) (\<lambda>st.
           if \<not> ko_talking ob then Inr \<lparr>to_st = st, to_send = None\<rparr>
           else rbind (py_int (dget_or st key (PInt 0))) (\<lambda>prev.
             Inr (if ko_level ob \<ge> prev \<or> \<not> ko_fresh ob \<or> ko_epoch ob \<or> \<not> ko_complete ob
                  then \<lparr>to_st = st, to_send = None\<rparr>
                  else if ko_level ob \<noteq> 0 then \<lparr>to_st = dset key (PInt (ko_level ob)) st, to_send = None\<rparr>
                  else \<lparr>to_st = st, to_send = Some (if ko_fixed ob then FixedClear else AllClear, closed_tail key st)\<rparr>))))"

text \<open>The writes that wait for the message to be delivered.\<close>

definition settle_writes :: "bool \<Rightarrow> tick_out \<Rightarrow> dict" where
  "settle_writes ok r = (case to_send r of Some (_, ws) \<Rightarrow> if ok then put ws (to_st r) else to_st r | None \<Rightarrow> to_st r)"

section \<open>The state as the panel writes it\<close>

text \<open>\<open>fits key k v\<close>: what the panel may store under \<open>k\<close> for this kind.\<close>

definition names_ok :: "py \<Rightarrow> bool" where
  "names_ok v \<longleftrightarrow> v = PNone \<or> (\<exists>xs. v = PList (map PStr xs))"

definition was_ok :: "py \<Rightarrow> bool" where
  "was_ok v \<longleftrightarrow> v = PNone \<or> (\<exists>d ts f n xs. v = PDict d \<and> time_ok ts \<and> time_ok f \<and> dget d ''ts'' = PStr (iso ts)
     \<and> dget d ''first'' = PStr (iso f) \<and> dget d ''lvl'' = PInt n \<and> dget d ''sig'' = PList (map PStr xs))"

definition fits :: "string \<Rightarrow> string \<Rightarrow> py \<Rightarrow> bool" where
  "fits key k v \<longleftrightarrow>
     (k = key \<longrightarrow> (\<exists>n\<ge>0. v = PInt n))
     \<and> (k \<in> {key @ ''_sig'', key @ ''_told'', key @ ''_who''} \<longrightarrow> names_ok v)
     \<and> (k = key @ ''_told_lvl'' \<longrightarrow> v = PNone \<or> (\<exists>n. v = PInt n))
     \<and> (k \<in> {key @ ''_calm'', key @ ''_hush'', key @ ''_said''} \<longrightarrow> own_moment v)
     \<and> (k = key @ ''_quiet'' \<longrightarrow> v = PNone)
     \<and> (k = key @ ''_was'' \<longrightarrow> was_ok v)"

definition kind_ok :: "string \<Rightarrow> dict \<Rightarrow> bool" where
  "kind_ok key st \<longleftrightarrow> fits key key (dget_or st key (PInt 0)) \<and> (\<forall>k. k \<noteq> key \<longrightarrow> fits key k (dget st k))"

lemma kind_ok_dset: "kind_ok key st \<Longrightarrow> fits key k v \<Longrightarrow> kind_ok key (dset k v st)"
  by (auto simp: kind_ok_def)

lemma put_simps [simp]: "put [] st = st" "put ((k, v) # ws) st = put ws (dset k v st)" "put (us @ ws) st = put ws (put us st)"
  by (simp_all add: put_def)

lemma kind_ok_put: "kind_ok key st \<Longrightarrow> \<forall>(k, v)\<in>set ws. fits key k v \<Longrightarrow> kind_ok key (put ws st)"
proof (induction ws arbitrary: st)
  case (Cons w ws)
  then show ?case by (cases w) (simp add: kind_ok_dset)
qed simp

lemma members_of_simps [simp]:
  "members_of PNone = Inr []" "members_of (PList (map PStr xs)) = Inr xs" "members_of (PList []) = Inr []"
proof -
  have "rmap (\<lambda>x. case x of PStr s \<Rightarrow> Inr s | _ \<Rightarrow> Inl TypeError) (map PStr xs) = Inr xs"
    by (auto simp: rmap_Inr_iff list_all2_conv_all_nth)
  then show "members_of (PList (map PStr xs)) = Inr xs" by (cases xs) (simp_all add: members_of_def)
qed (simp_all add: members_of_def)

lemma members_of_stored [simp]: "members_of (stored xs) = Inr (sorted_set xs)"
  by (simp add: stored_def)

lemma truthy_stored [simp]: "truthy (stored xs) \<longleftrightarrow> xs \<noteq> []" "stored xs \<noteq> PNone"
  by (simp_all add: stored_def)

lemma mark_of_simps [simp]:
  "dt_mark PNone = None" "mark_of PNone = None" "time_ok t \<Longrightarrow> mark_of (PStr (iso t)) = Some t" "time_ok t \<Longrightarrow> dt_mark (PStr (iso t)) = Some (utc t)"
proof -
  have "fromisoformat [] = None" by (simp add: fromisoformat_def)
  then show "dt_mark PNone = None" "mark_of PNone = None" by (simp_all add: mark_of_def dt_mark_def por_def parse_iso_def)
qed (simp_all add: mark_of_def dt_mark_def por_def parse_iso_def)

lemma fits_simps [simp]:
  "fits key key (PInt n) \<longleftrightarrow> 0 \<le> n"
  "fits key (key @ ''_sig'') v \<longleftrightarrow> names_ok v" "fits key (key @ ''_told'') v \<longleftrightarrow> names_ok v" "fits key (key @ ''_who'') v \<longleftrightarrow> names_ok v"
  "fits key (key @ ''_told_lvl'') v \<longleftrightarrow> v = PNone \<or> (\<exists>n. v = PInt n)"
  "fits key (key @ ''_calm'') v \<longleftrightarrow> own_moment v" "fits key (key @ ''_hush'') v \<longleftrightarrow> own_moment v" "fits key (key @ ''_said'') v \<longleftrightarrow> own_moment v"
  "fits key (key @ ''_quiet'') v \<longleftrightarrow> v = PNone" "fits key (key @ ''_was'') v \<longleftrightarrow> was_ok v"
  by (auto simp: fits_def)

lemma ok_values [simp]:
  "names_ok PNone" "names_ok (PList [])" "names_ok (stored xs)" "was_ok PNone"
proof -
  show "names_ok (PList [])" unfolding names_ok_def by (metis list.map_disc_iff)
qed (auto simp: names_ok_def was_ok_def stored_def)

text \<open>The three values the promises are about: the announced level, the members told, whether the alert is a silent repeat.\<close>

definition lvl_v :: "string \<Rightarrow> dict \<Rightarrow> int" where
  "lvl_v key st = (case dget_or st key (PInt 0) of PInt n \<Rightarrow> n | _ \<Rightarrow> 0)"

definition told_v :: "string \<Rightarrow> dict \<Rightarrow> string list" where
  "told_v key st = (case members_of (dget st (key @ ''_told'')) of Inr xs \<Rightarrow> xs | _ \<Rightarrow> [])"

definition hush_v :: "string \<Rightarrow> dict \<Rightarrow> bool" where
  "hush_v key st \<longleftrightarrow> dget st (key @ ''_hush'') \<noteq> PNone"

lemma kind_ok_fits: "kind_ok key st \<Longrightarrow> k \<noteq> key \<Longrightarrow> fits key k (dget st k)"
  by (simp add: kind_ok_def)

lemma kind_ok_level:
  assumes "kind_ok key st"
  shows "dget_or st key (PInt 0) = PInt (lvl_v key st)" "0 \<le> lvl_v key st" "py_int (dget_or st key (PInt 0)) = Inr (lvl_v key st)"
proof -
  have "fits key key (dget_or st key (PInt 0))" using assms by (simp add: kind_ok_def)
  then obtain n where n: "0 \<le> n" "dget_or st key (PInt 0) = PInt n" unfolding fits_def by blast
  from n show "dget_or st key (PInt 0) = PInt (lvl_v key st)" "0 \<le> lvl_v key st" "py_int (dget_or st key (PInt 0)) = Inr (lvl_v key st)"
    by (simp_all add: lvl_v_def)
qed

lemma kind_ok_names:
  assumes "kind_ok key st" "k \<in> {''_sig'', ''_told'', ''_who''}"
  obtains xs where "members_of (dget st (key @ k)) = Inr xs"
  using assms kind_ok_fits [of key st "key @ k"] by (auto simp: names_ok_def)

lemma own_moment_cases: "own_moment v \<Longrightarrow> (truthy v \<longleftrightarrow> v \<noteq> PNone) \<and> (mark_of v = None \<longleftrightarrow> v = PNone)"
  by (auto simp: own_moment_def)

lemma kind_ok_moments:
  assumes "kind_ok key st"
  shows "truthy (dget st (key @ ''_hush'')) \<longleftrightarrow> hush_v key st" "mark_of (dget st (key @ ''_hush'')) = None \<longleftrightarrow> \<not> hush_v key st"
    "truthy (dget st (key @ ''_calm'')) \<longleftrightarrow> dget st (key @ ''_calm'') \<noteq> PNone"
    "mark_of (dget st (key @ ''_calm'')) = None \<longleftrightarrow> dget st (key @ ''_calm'') = PNone"
    "dget st (key @ ''_quiet'') = PNone"
  using kind_ok_fits [OF assms, of "key @ ''_hush''"] kind_ok_fits [OF assms, of "key @ ''_calm''"] kind_ok_fits [OF assms, of "key @ ''_quiet''"]
  by (auto simp: own_moment_cases hush_v_def)

section \<open>The effect of a tick\<close>

lemma lvl_v_dset [member_simps]: "lvl_v key (dset k v st) = (if k = key then (case v of PInt n \<Rightarrow> n | _ \<Rightarrow> 0) else lvl_v key st)"
  by (simp add: lvl_v_def)

lemma told_v_dset [member_simps]:
  "told_v key (dset k v st) = (if k = key @ ''_told'' then (case members_of v of Inr xs \<Rightarrow> xs | _ \<Rightarrow> []) else told_v key st)"
  by (simp add: told_v_def)

lemma hush_v_dset [member_simps]: "hush_v key (dset k v st) \<longleftrightarrow> (if k = key @ ''_hush'' then v \<noteq> PNone else hush_v key st)"
  by (simp add: hush_v_def)

definition sent :: "bool \<Rightarrow> tick_out \<Rightarrow> message option" where
  "sent ok r = (if ok then map_option fst (to_send r) else None)"

definition same_v :: "string \<Rightarrow> dict \<Rightarrow> dict \<Rightarrow> bool" where
  "same_v key st st' \<longleftrightarrow> lvl_v key st' = lvl_v key st \<and> told_v key st' = told_v key st \<and> hush_v key st' = hush_v key st"

definition effect :: "string \<Rightarrow> dict \<Rightarrow> message option \<Rightarrow> dict \<Rightarrow> bool" where
  "effect key st msg st' \<longleftrightarrow>
     (case msg of
        None \<Rightarrow>
          (if lvl_v key st \<noteq> 0 then
             (if lvl_v key st' \<noteq> 0 then hush_v key st' = hush_v key st \<and> set (told_v key st) \<subseteq> set (told_v key st')
              else \<not> hush_v key st')
           else (if lvl_v key st' \<noteq> 0 then hush_v key st' else hush_v key st' \<longrightarrow> hush_v key st))
      | Some (News ns l) \<Rightarrow>
          lvl_v key st' \<noteq> 0 \<and> \<not> hush_v key st' \<and> distinct ns \<and> set ns \<subseteq> set (told_v key st')
          \<and> (lvl_v key st \<noteq> 0 \<and> \<not> hush_v key st \<longrightarrow> set (told_v key st) \<subseteq> set (told_v key st') \<and> set ns \<inter> set (told_v key st) = {})
      | Some QuietClose \<Rightarrow> lvl_v key st \<noteq> 0 \<and> lvl_v key st' = 0 \<and> \<not> hush_v key st'
      | Some _ \<Rightarrow> lvl_v key st \<noteq> 0 \<and> \<not> hush_v key st \<and> lvl_v key st' = 0 \<and> \<not> hush_v key st')"

definition good :: "string \<Rightarrow> dict \<Rightarrow> tick_out \<Rightarrow> bool" where
  "good key st r \<longleftrightarrow> (\<forall>ok. kind_ok key (settle_writes ok r) \<and> effect key st (sent ok r) (settle_writes ok r))"

lemma effect_same: "same_v key st st' \<Longrightarrow> effect key st None st'"
  by (auto simp: effect_def same_v_def)

lemma effect_after_same: "same_v key st st1 \<Longrightarrow> effect key st1 msg st' \<Longrightarrow> effect key st msg st'"
  by (simp only: effect_def same_v_def)

lemma good_after_same: "same_v key st st1 \<Longrightarrow> good key st1 r \<Longrightarrow> good key st r"
  unfolding good_def using effect_after_same by blast

lemma same_v_refl [simp]: "same_v key st st"
  by (simp add: same_v_def)

lemma good_silent: "kind_ok key st' \<Longrightarrow> effect key st None st' \<Longrightarrow> good key st \<lparr>to_st = st', to_send = None\<rparr>"
  by (simp add: good_def settle_writes_def sent_def)

lemma good_silentD: "good key st \<lparr>to_st = s, to_send = None\<rparr> \<Longrightarrow> kind_ok key s \<and> effect key st None s"
  unfolding good_def by (drule spec [of _ False]) (simp add: settle_writes_def sent_def)

lemma good_send:
  assumes "kind_ok key st" "kind_ok key (put ws st)" "effect key st (Some n) (put ws st)"
  shows "good key st \<lparr>to_st = st, to_send = Some (n, ws)\<rparr>"
  using assms by (simp add: good_def settle_writes_def sent_def effect_same)

text \<open>Writes under different keys.\<close>

lemma dget_or_put:
  "distinct (map fst ws) \<Longrightarrow> dget_or (put ws st) k w = (case map_of ws k of Some v \<Rightarrow> v | None \<Rightarrow> dget_or st k w)"
proof (induction ws arbitrary: st)
  case (Cons x ws)
  obtain a v where x: "x = (a, v)" by (cases x)
  with Cons.prems have "map_of ws a = None" by (simp add: map_of_eq_None_iff)
  with Cons x show ?case by (auto split: option.split)
qed simp

lemma map_of_filter_key: "map_of (filter (\<lambda>(k, _). P k) ws) k = (if P k then map_of ws k else None)"
  by (induction ws) auto

lemma dget_dget_or: "dget d k = dget_or d k PNone"
  by (simp add: dget_def dget_or_def)

lemma closed_tail_closes:
  assumes "kind_ok key st"
  shows "kind_ok key (put (closed_tail key st) st)" "lvl_v key (put (closed_tail key st) st) = 0" "\<not> hush_v key (put (closed_tail key st) st)"
proof -
  have d: "distinct (map fst (closed_tail key st))"
    by (auto simp: closed_tail_def intro!: distinct_map_filter)
  show "kind_ok key (put (closed_tail key st) st)"
    using assms by (rule kind_ok_put) (auto simp: closed_tail_def)
  show "lvl_v key (put (closed_tail key st) st) = 0"
    by (simp only: lvl_v_def dget_or_put [OF d]) (simp add: closed_tail_def)
  have "map_of (closed_tail key st) (key @ ''_hush'') = (if hush_v key st then Some PNone else None)"
    by (simp add: closed_tail_def map_of_filter_key kind_ok_moments [OF assms])
  then show "\<not> hush_v key (put (closed_tail key st) st)"
    by (simp add: hush_v_def dget_dget_or dget_or_put [OF d])
qed

lemma fixed_close_good:
  assumes "kind_ok key st"
  shows "good key st (fixed_close key (lvl_v key st) st)"
proof -
  define ws where "ws = filter (\<lambda>(k, _). dget st k \<noteq> PNone) [(key @ ''_was'', PNone), (key @ ''_quiet'', PNone), (key @ ''_said'', PNone)]"
  let ?st = "put ws (put (closed_tail key st) st)"
  have ws: "\<forall>(k, v)\<in>set ws. fits key k v \<and> k \<noteq> key \<and> k \<noteq> key @ ''_hush'' \<and> k \<noteq> key @ ''_told''"
    by (auto simp: ws_def)
  have frame: "same_v key d (put us d)" if "\<forall>(k, v)\<in>set us. fits key k v \<and> k \<noteq> key \<and> k \<noteq> key @ ''_hush'' \<and> k \<noteq> key @ ''_told''" for us d
    using that by (induction us arbitrary: d) (auto simp: same_v_def member_simps)
  have ok: "kind_ok key ?st" using closed_tail_closes(1) [OF assms] ws by (auto intro: kind_ok_put)
  have v: "lvl_v key ?st = 0" "\<not> hush_v key ?st"
    using frame [OF ws, of "put (closed_tail key st) st"] closed_tail_closes [OF assms] by (simp_all add: same_v_def)
  have "fixed_close key (lvl_v key st) st =
      (if lvl_v key st \<noteq> 0 \<and> \<not> hush_v key st then \<lparr>to_st = st, to_send = Some (FixedClear, closed_tail key st @ ws)\<rparr>
       else if lvl_v key st \<noteq> 0 \<or> length (closed_tail key st @ ws) > 1 then \<lparr>to_st = ?st, to_send = None\<rparr>
       else \<lparr>to_st = st, to_send = None\<rparr>)"
    unfolding fixed_close_def Let_def ws_def [symmetric] by (simp add: kind_ok_moments [OF assms])
  then show ?thesis
    using assms ok v kind_ok_moments [OF assms]
    by (auto simp: effect_def intro!: good_send good_silent)
qed

lemma was_ok_cases:
  assumes "was_ok v"
  obtains "v = PNone"
  | d ts f n xs where "v = PDict d" "time_ok ts" "time_ok f" "dget d ''ts'' = PStr (iso ts)" "dget d ''first'' = PStr (iso f)"
      "dget d ''lvl'' = PInt n" "dget d ''sig'' = PList (map PStr xs)"
  using assms unfolding was_ok_def by blast

lemma int_or0_simps [simp]: "int_or0 PNone = Inr 0" "int_or0 (PInt n) = Inr n"
  by (simp_all add: int_or0_def por_def)

lemma again_of_total:
  assumes "kind_ok key st"
  shows "again_of st key lvl sig now = Inr None
     \<or> (\<exists>was n xs. again_of st key lvl sig now = Inr (Some was) \<and> dget was ''lvl'' = PInt n \<and> dget was ''sig'' = PList (map PStr xs))"
proof -
  have "was_ok (dget st (key @ ''_was''))" using kind_ok_fits [OF assms, of "key @ ''_was''"] by simp
  then show ?thesis by (cases rule: was_ok_cases) (auto simp: again_of_def)
qed

lemma was_after_total:
  assumes "kind_ok key st" "time_ok now"
  shows "\<exists>was. was_after st key prev now = Inr was \<and> was_ok (PDict was)"
proof -
  obtain a b c where names: "members_of (dget st (key @ ''_told'')) = Inr a" "members_of (dget st (key @ ''_sig'')) = Inr b"
      "members_of (dget st (key @ ''_who'')) = Inr c"
    using kind_ok_names [OF assms(1)] by (metis insertI1 insertI2)
  obtain tl where tl: "int_or0 (dget st (key @ ''_told_lvl'')) = Inr tl"
    using kind_ok_fits [OF assms(1), of "key @ ''_told_lvl''"] by auto
  have was: "was_ok (PDict [(''ts'', PStr (iso now)), (''first'', PStr (iso f)), (''lvl'', PInt n), (''sig'', stored xs)])" if "time_ok f" for f n xs
  proof -
    let ?d = "[(''ts'', PStr (iso now)), (''first'', PStr (iso f)), (''lvl'', PInt n), (''sig'', stored xs)]"
    have "dget ?d ''ts'' = PStr (iso now)" "dget ?d ''first'' = PStr (iso f)" "dget ?d ''lvl'' = PInt n"
         "dget ?d ''sig'' = PList (map PStr (sorted_set xs))"
      by (simp_all add: stored_def)
    then show ?thesis using assms(2) that unfolding was_ok_def by blast
  qed
  have "was_ok (dget st (key @ ''_was''))" using kind_ok_fits [OF assms(1), of "key @ ''_was''"] by simp
  then show ?thesis
  proof (cases rule: was_ok_cases)
    case 1
    then show ?thesis by (simp add: was_after_def names tl was [OF assms(2)])
  next
    case (2 d ts f n xs)
    then show ?thesis
      by (cases "now - ts > sec AGAIN_S"; cases "f = now")
         (simp_all add: was_after_def names tl was [OF assms(2)] was [OF 2(3)])
  qed
qed

text \<open>The block of the waves: either it ends the tick, or the rest of the body goes on with the announced level, or with zero for
  a silent repeat that lasts.\<close>

lemma wave_block_total:
  assumes "kind_ok key st" "0 \<le> ko_level ob" "time_ok now"
  shows "\<exists>st' go. wave_block key ob (lvl_v key st) now st = Inr (st', go) \<and> kind_ok key st' \<and>
     (case go of
        None \<Rightarrow> effect key st None st'
      | Some p \<Rightarrow> same_v key st st' \<and> (p = lvl_v key st \<or> p = 0 \<and> ko_level ob \<noteq> 0 \<and> hush_v key st)
          \<and> (p \<noteq> 0 \<and> ko_level ob = 0 \<longrightarrow> \<not> hush_v key st))"
proof -
  let ?prev = "lvl_v key st" and ?lvl = "ko_level ob"
  define st1 where "st1 = (if ?lvl \<noteq> 0 \<and> mark_of (dget st (key @ ''_calm'')) \<noteq> None then dset (key @ ''_calm'') PNone st else st)"
  have st1: "kind_ok key st1" "same_v key st st1" "dget st1 (key @ ''_was'') = dget st (key @ ''_was'')"
    using assms(1) by (auto simp: st1_def same_v_def member_simps intro: kind_ok_dset)
  consider (close) "?prev \<noteq> 0" "?lvl = 0" | (rise) "?prev = 0" "?lvl \<noteq> 0" | (stay) "(?prev = 0) = (?lvl = 0)" by blast
  then show ?thesis
  proof cases
    case close
    have shut: "kind_ok key (put (closed_tail key st) st)" "lvl_v key (put (closed_tail key st) st) = 0" "\<not> hush_v key (put (closed_tail key st) st)"
      using closed_tail_closes [OF assms(1)] by auto
    obtain was where "was_after (put (closed_tail key st) st) key ?prev now = Inr was" "was_ok (PDict was)"
      using was_after_total [OF shut(1) assms(3)] by blast
    then show ?thesis
      using close assms shut kind_ok_moments [OF assms(1)]
      by (auto simp: wave_block_def Let_def effect_def same_v_def member_simps split: option.split intro: kind_ok_dset)
  next
    case rise
    from again_of_total [OF st1(1), of ?lvl "ko_sig ob" now] show ?thesis
    proof (elim disjE exE conjE)
      assume "again_of st1 key ?lvl (ko_sig ob) now = Inr None"
      then show ?thesis
        using rise st1 unfolding wave_block_def Let_def st1_def [symmetric] by simp
    next
      fix was n xs assume a: "again_of st1 key ?lvl (ko_sig ob) now = Inr (Some was)" "dget was ''lvl'' = PInt n" "dget was ''sig'' = PList (map PStr xs)"
      obtain tl where tl: "py_int (por (PInt n) (PInt ?lvl)) = Inr tl" by (cases "n = 0") (auto simp: por_def)
      show ?thesis
        using rise st1 assms(2,3) unfolding wave_block_def Let_def st1_def [symmetric]
        by (simp add: a tl effect_def same_v_def member_simps kind_ok_dset)
    qed
  next
    case stay
    then show ?thesis
      using st1 kind_ok_moments(2) [OF assms(1)] unfolding wave_block_def Let_def st1_def [symmetric]
      by (auto split: option.split)
  qed
qed

lemma view_members_total:
  assumes "kind_ok key st"
  shows "\<exists>v. view_members key ob p st = Inr v \<and> (p \<noteq> 0 \<longrightarrow> set (told_v key st) \<subseteq> set (mv_told v)) \<and> (p = 0 \<longrightarrow> mv_told v = [])"
proof -
  obtain a b where names: "members_of (dget st (key @ ''_told'')) = Inr a" "members_of (dget st (key @ ''_sig'')) = Inr b"
    using kind_ok_names [OF assms] by (metis insertI1 insertI2)
  obtain tl where tl: "int_or0 (dget st (key @ ''_told_lvl'')) = Inr tl"
    using kind_ok_fits [OF assms, of "key @ ''_told_lvl''"] by auto
  show ?thesis by (simp add: view_members_def names tl told_v_def)
qed

lemma mv_fresh_facts [simp]: "distinct (mv_fresh v)" "set (mv_fresh v) = set (mv_new v) - set (mv_told v)"
  by (auto simp: mv_fresh_def)

lemma kind_ok_unhush: "kind_ok key st \<Longrightarrow> kind_ok key (put (unhush key st) st) \<and> \<not> hush_v key (put (unhush key st) st)"
  by (auto simp: unhush_def kind_ok_moments member_simps intro: kind_ok_dset)

lemma unhush_frame:
  "lvl_v key (put (unhush key st) d) = lvl_v key d" "told_v key (put (unhush key st) d) = told_v key d"
  "kind_ok key d \<Longrightarrow> kind_ok key (put (unhush key st) d)"
  "hush_v key (put (unhush key st) d) = (hush_v key d \<and> \<not> truthy (dget st (key @ ''_hush'')))"
  by (auto simp: unhush_def member_simps intro: kind_ok_dset)

lemma tell_frame:
  assumes "time_ok now"
  shows "lvl_v key (put (tell_writes key lvl v now) d) = lvl_v key d"
    "set (told_v key (put (tell_writes key lvl v now) d)) = set (mv_told v) \<union> set (mv_new v)"
    "kind_ok key d \<Longrightarrow> kind_ok key (put (tell_writes key lvl v now) d)"
    "hush_v key (put (tell_writes key lvl v now) d) = hush_v key d"
  using assms by (auto simp: tell_writes_def member_simps intro!: kind_ok_dset)

lemma same_level_good:
  assumes "kind_ok key st" "time_ok now" "lvl = lvl_v key st" "lvl \<noteq> 0 \<longrightarrow> set (told_v key st) \<subseteq> set (mv_told v)"
  shows "good key st (same_level key lvl v now st)"
proof -
  have hush: "truthy (dget st (key @ ''_hush'')) \<longleftrightarrow> hush_v key st" using kind_ok_moments(1) [OF assms(1)] .
  have told: "told_v key st = []" if "\<not> truthy (dget st (key @ ''_told''))"
    using that by (simp add: told_v_def members_of_def)
  have news: "good key st \<lparr>to_st = st, to_send = Some (News (mv_fresh v) lvl, unhush key st @ tell_writes key lvl v now)\<rparr>" if "lvl \<noteq> 0"
    using assms that hush by (intro good_send) (auto simp: effect_def unhush_frame tell_frame)
  show ?thesis
    unfolding same_level_def using news assms told
    by (auto simp: effect_def member_simps intro!: good_silent kind_ok_dset)
qed

lemma member_block_good:
  assumes "kind_ok key st" "0 \<le> ko_level ob" "time_ok now"
    and p: "p = lvl_v key st \<or> p = 0 \<and> ko_level ob \<noteq> 0 \<and> hush_v key st" "p \<noteq> 0 \<and> ko_level ob = 0 \<longrightarrow> \<not> hush_v key st"
  shows "\<exists>r. member_block key ob p now st = Inr r \<and> good key st r"
proof -
  obtain v where v: "view_members key ob p st = Inr v" "p \<noteq> 0 \<longrightarrow> set (told_v key st) \<subseteq> set (mv_told v)" "p = 0 \<longrightarrow> mv_told v = []"
    using view_members_total [OF assms(1)] by blast
  have hush: "truthy (dget st (key @ ''_hush'')) \<longleftrightarrow> hush_v key st" using kind_ok_moments(1) [OF assms(1)] .
  have p0: "0 \<le> p" using p(1) kind_ok_level(2) [OF assms(1)] by auto
  obtain was where was: "was_after st key p now = Inr was" "was_ok (PDict was)"
    using was_after_total [OF assms(1,3)] by blast
  let ?lvl = "ko_level ob"
  have news: "good key st \<lparr>to_st = st, to_send = Some (News (mv_fresh v) ?lvl, tell_writes key ?lvl v now @ (key, PInt ?lvl) # unhush key st)\<rparr>"
    if "?lvl > p"
    using assms v hush p p0 that by (intro good_send) (auto simp: effect_def unhush_frame tell_frame member_simps intro!: unhush_frame(3) tell_frame(3) kind_ok_dset)
  have same: "good key st (same_level key ?lvl v now st)" if "?lvl = p"
    using same_level_good [OF assms(1,3), of ?lvl v] v(2) p(1) that by auto
  show ?thesis
    unfolding member_block_def v(1) using news same was assms(1,2) v(2,3) p p0
    by (auto simp: Let_def effect_def member_simps intro!: good_send good_silent kind_ok_dset)
qed

text \<open>The whole tick.\<close>

lemma break_calm_same: "kind_ok key st \<Longrightarrow> kind_ok key (break_calm key ob st) \<and> same_v key st (break_calm key ob st)"
  by (auto simp: break_calm_def same_v_def member_simps intro: kind_ok_dset)

lemma note_level_same:
  "kind_ok key st \<Longrightarrow> \<exists>st'. note_level key ob st = Inr st' \<and> kind_ok key st' \<and> same_v key st st'"
  by (auto simp: note_level_def kind_ok_level same_v_def member_simps intro: kind_ok_dset)

lemma same_v_trans: "same_v key a b \<Longrightarrow> same_v key b c \<Longrightarrow> same_v key a c"
  by (simp add: same_v_def)

lemma kind_body_good:
  assumes "kind_ok key st" "0 \<le> ko_level ob" "time_ok now"
  shows "\<exists>r. kind_body key ob now st = Inr r \<and> good key st r"
proof (cases "ko_fixed ob")
  case True
  then show ?thesis using fixed_close_good [OF assms(1)] by (simp add: kind_body_def kind_ok_level [OF assms(1)])
next
  case False
  obtain st' go where w: "wave_block key ob (lvl_v key st) now st = Inr (st', go)" "kind_ok key st'"
      "case go of None \<Rightarrow> effect key st None st'
       | Some p \<Rightarrow> same_v key st st' \<and> (p = lvl_v key st \<or> p = 0 \<and> ko_level ob \<noteq> 0 \<and> hush_v key st)
          \<and> (p \<noteq> 0 \<and> ko_level ob = 0 \<longrightarrow> \<not> hush_v key st)"
    using wave_block_total [OF assms] by blast
  show ?thesis
  proof (cases go)
    case None
    then show ?thesis using False w by (simp add: kind_body_def kind_ok_level [OF assms(1)] good_silent)
  next
    case (Some p)
    with w have "\<exists>r. member_block key ob p now st' = Inr r \<and> good key st' r"
      by (intro member_block_good assms) (auto simp: same_v_def)
    then show ?thesis
      using False w Some by (auto simp: kind_body_def kind_ok_level [OF assms(1)] intro: good_after_same)
  qed
qed

lemma tick_with_good:
  assumes "kind_ok key st" "\<And>st'. kind_ok key st' \<Longrightarrow> \<exists>r. body st' = Inr r \<and> good key st' r"
  shows "\<exists>r. tick_with body key ob st = Inr r \<and> good key st r"
proof -
  let ?st1 = "break_calm key ob st"
  have st1: "kind_ok key ?st1" "same_v key st ?st1" using break_calm_same [OF assms(1)] by auto
  obtain st2 where st2: "note_level key ob ?st1 = Inr st2" "kind_ok key st2" "same_v key st st2"
    using note_level_same [OF st1(1)] st1(2) same_v_trans by blast
  obtain sig where sig: "members_of (dget st2 (key @ ''_sig'')) = Inr sig"
    using kind_ok_names [OF st2(2)] by (metis insertI1)
  obtain r where r: "body st2 = Inr r" "good key st2 r" using assms(2) [OF st2(2)] by blast
  have "good key st r" using good_after_same st2(3) r(2) by blast
  then show ?thesis
    using st1 st2 r by (auto simp: tick_with_def Let_def sig intro!: good_silent effect_same)
qed

lemma kind_tick_good:
  assumes "kind_ok key st" "0 \<le> ko_level ob" "time_ok now"
  shows "\<exists>r. kind_tick key ob now st = Inr r \<and> good key st r"
  unfolding kind_tick_def using assms by (intro tick_with_good kind_body_good)

lemma held_tick_good: "kind_ok key st \<Longrightarrow> \<exists>r. held_tick key ob st = Inr r \<and> good key st r"
  unfolding held_tick_def by (intro tick_with_good) (auto intro: good_silent [OF _ effect_same [OF same_v_refl]])

lemma muted_held_good:
  assumes "kind_ok key st" "0 \<le> lvl" "lvl \<noteq> 0 \<or> lvl_v key st = 0"
  shows "\<exists>st'. muted_held key lvl st = Inr st' \<and> good key st \<lparr>to_st = st', to_send = None\<rparr>"
  using assms kind_ok_level [OF assms(1)]
  by (auto simp: muted_held_def effect_def member_simps intro!: good_silent kind_ok_dset)

lemma muted_tick_good:
  assumes "kind_ok key st" "0 \<le> ko_level ob" "time_ok now"
  shows "\<exists>r. muted_tick key ob now st = Inr r \<and> good key st r"
  unfolding muted_tick_def
proof (intro tick_with_good assms(1))
  fix st' assume ok: "kind_ok key st'"
  show "\<exists>r. rbind (py_int (dget_or st' key (PInt 0))) (\<lambda>prev.
       if ko_level ob \<noteq> 0 \<or> prev = 0
       then rbind (muted_held key (ko_level ob) st') (\<lambda>st. Inr \<lparr>to_st = st, to_send = None\<rparr>)
       else kind_body key ob now st') = Inr r \<and> good key st' r"
    using muted_held_good [OF ok assms(2)] kind_body_good [OF ok assms(2,3)]
    by (cases "ko_level ob \<noteq> 0 \<or> lvl_v key st' = 0") (auto simp: kind_ok_level [OF ok])
qed

text \<open>What a tick must see for the calm to go on.\<close>

definition sound :: "kind_obs \<Rightarrow> bool" where
  "sound ob \<longleftrightarrow> ko_present ob \<and> ko_talking ob \<and> ko_fresh ob \<and> ko_complete ob \<and> \<not> ko_epoch ob"

definition calm_seen :: "kind_obs \<Rightarrow> bool" where
  "calm_seen ob \<longleftrightarrow> ko_level ob = 0 \<and> sound ob"

text \<open>A quiet tick either does what a silent one may do, or ends the alert.\<close>

definition quiet_end :: "string \<Rightarrow> dict \<Rightarrow> bool" where
  "quiet_end key st \<longleftrightarrow> kind_ok key st \<and> lvl_v key st = 0 \<and> \<not> hush_v key st"

lemma quiet_tick_good:
  assumes "kind_ok key st" "0 \<le> ko_level ob"
  shows "\<exists>r. quiet_tick key ob st = Inr r \<and>
    (good key st r \<and> to_send r = None \<or>
     (\<exists>m ws. to_send r = Some (m, ws) \<and> m \<in> {AllClear, FixedClear} \<and> calm_seen ob \<and> quiet_end key (settle_writes True r)
        \<and> good key st \<lparr>to_st = to_st r, to_send = None\<rparr>))"
proof -
  let ?st1 = "break_calm key ob st"
  have st1: "kind_ok key ?st1" "same_v key st ?st1" using break_calm_same [OF assms(1)] by auto
  obtain st2 where st2: "note_level key ob ?st1 = Inr st2" "kind_ok key st2" "same_v key st st2"
    using note_level_same [OF st1(1)] st1(2) same_v_trans by blast
  have still: "good key st \<lparr>to_st = ?st1, to_send = None\<rparr>" "good key st \<lparr>to_st = st2, to_send = None\<rparr>"
    using st1 st2 by (auto intro: good_silent effect_same)
  have fell: "good key st \<lparr>to_st = dset key (PInt (ko_level ob)) st2, to_send = None\<rparr>" if "ko_level ob \<noteq> 0" "ko_level ob < lvl_v key st2"
    using st2 assms(2) that by (intro good_silent) (auto simp: effect_def same_v_def member_simps intro: kind_ok_dset)
  show ?thesis
    using still fell closed_tail_closes [OF st2(2)] assms(2)
    by (auto simp: quiet_tick_def Let_def st2(1) kind_ok_level [OF st2(2)] calm_seen_def sound_def quiet_end_def settle_writes_def)
qed

section \<open>Runs of the loop\<close>

datatype tick_way = Plain | Held | Muted | Quiet

record loop_entry =
  le_time :: time
  le_way :: tick_way
  le_obs :: kind_obs
  le_sent :: "message option"
  le_level :: int

definition obs_ok :: "kind_obs \<Rightarrow> bool" where
  "obs_ok ob \<longleftrightarrow> 0 \<le> ko_level ob \<and> (ko_fixed ob \<longrightarrow> ko_level ob = 0)"

text \<open>One tick in each of its ways.\<close>

fun way_tick :: "tick_way \<Rightarrow> string \<Rightarrow> kind_obs \<Rightarrow> time \<Rightarrow> dict \<Rightarrow> tick_out res" where
  "way_tick Plain key ob t st = kind_tick key ob t st"
| "way_tick Held key ob t st = held_tick key ob st"
| "way_tick Muted key ob t st = muted_tick key ob t st"
| "way_tick Quiet key ob t st = quiet_tick key ob st"

text \<open>Ticks of one kind from a state in which nothing is announced: ordinary ones, those that pass the kind over, those in which
  it is muted, and those of a snoozed or serviced server, in any order.  Each message is delivered or not.\<close>

inductive loop_run :: "string \<Rightarrow> dict \<Rightarrow> loop_entry list \<Rightarrow> bool" for key where
  start: "key \<in> set MEMBER_KINDS \<Longrightarrow> kind_ok key st \<Longrightarrow> lvl_v key st = 0 \<Longrightarrow> \<not> hush_v key st \<Longrightarrow> dget st (key @ ''_calm'') = PNone \<Longrightarrow>
    loop_run key st []"
| tick: "loop_run key st h \<Longrightarrow> obs_ok ob \<Longrightarrow> time_ok t \<Longrightarrow> way_tick way key ob t st = Inr r \<Longrightarrow> st' = settle_writes ok r \<Longrightarrow>
    loop_run key st' (h @ [\<lparr>le_time = t, le_way = way, le_obs = ob, le_sent = sent ok r, le_level = lvl_v key st'\<rparr>])"

text \<open>The entries since the alert is open, newest first, and what a message told.\<close>

definition period :: "loop_entry list \<Rightarrow> loop_entry list" where
  "period h = takeWhile (\<lambda>e. le_level e \<noteq> 0) (rev h)"

definition news_of :: "loop_entry \<Rightarrow> string list" where
  "news_of e = (case le_sent e of Some (News ns _) \<Rightarrow> ns | _ \<Rightarrow> [])"

definition is_news :: "loop_entry \<Rightarrow> bool" where
  "is_news e \<longleftrightarrow> (\<exists>ns l. le_sent e = Some (News ns l))"

lemma period_snoc [simp]: "period (h @ [e]) = (if le_level e \<noteq> 0 then e # period h else [])" "period [] = []"
  by (simp_all add: period_def)

lemma is_news_entry [simp]: "is_news \<lparr>le_time = t, le_way = way, le_obs = ob, le_sent = m, le_level = l\<rparr> \<longleftrightarrow> (\<exists>ns k. m = Some (News ns k))"
  by (simp add: is_news_def)

lemma news_of_entry [simp]:
  "news_of \<lparr>le_time = t, le_way = way, le_obs = ob, le_sent = m, le_level = l\<rparr> = (case m of Some (News ns _) \<Rightarrow> ns | _ \<Rightarrow> [])"
  by (simp add: news_of_def)

definition run_inv :: "string \<Rightarrow> dict \<Rightarrow> loop_entry list \<Rightarrow> bool" where
  "run_inv key st h \<longleftrightarrow> kind_ok key st \<and> (lvl_v key st \<noteq> 0 \<longleftrightarrow> period h \<noteq> []) \<and> (lvl_v key st = 0 \<longrightarrow> \<not> hush_v key st)
     \<and> distinct (concat (map news_of (period h)))
     \<and> (lvl_v key st \<noteq> 0 \<longrightarrow> set (concat (map news_of (period h))) \<subseteq> set (told_v key st)
          \<and> (if hush_v key st then \<forall>e\<in>set (period h). \<not> is_news e else \<exists>e\<in>set (period h). is_news e))"

lemma no_news_no_names: "\<forall>e\<in>set es. \<not> is_news e \<Longrightarrow> concat (map news_of es) = []"
  by (auto simp: news_of_def is_news_def split: option.splits message.splits)

lemma run_inv_step:
  assumes inv: "run_inv key st h" and ok: "kind_ok key st'" and eff: "effect key st m st'"
  shows "run_inv key st' (h @ [\<lparr>le_time = t, le_way = way, le_obs = ob, le_sent = m, le_level = lvl_v key st'\<rparr>])"
proof -
  show ?thesis
  proof (cases "\<exists>ns k. m = Some (News ns k)")
    case True
    then obtain ns k where m: "m = Some (News ns k)" by blast
    have "concat (map news_of (period h)) = []" if "lvl_v key st = 0 \<or> hush_v key st"
      using inv that no_news_no_names [of "period h"] by (auto simp: run_inv_def)
    then show ?thesis
      using inv ok eff unfolding run_inv_def by (cases "lvl_v key st = 0 \<or> hush_v key st") (auto simp: m effect_def)
  next
    case False
    show ?thesis
    proof (cases "lvl_v key st' = 0")
      case True
      then show ?thesis using ok eff inv False
        by (auto simp: run_inv_def effect_def split: option.splits message.splits if_splits)
    next
      case opened: False
      with eff \<open>\<not> (\<exists>ns k. m = Some (News ns k))\<close> have "m = None" by (auto simp: effect_def split: option.splits message.splits)
      then show ?thesis using inv ok eff opened by (auto simp: run_inv_def effect_def) (blast+)
    qed
  qed
qed

lemma run_inv_end:
  "quiet_end key st' \<Longrightarrow> run_inv key st' (h @ [\<lparr>le_time = t, le_way = way, le_obs = ob, le_sent = m, le_level = lvl_v key st'\<rparr>])"
  by (simp add: run_inv_def quiet_end_def)

text \<open>A tick of any way keeps the promises; only a quiet one may end an alert that was not told.\<close>

definition way_good :: "tick_way \<Rightarrow> string \<Rightarrow> dict \<Rightarrow> message option \<Rightarrow> dict \<Rightarrow> bool" where
  "way_good way key st m st' \<longleftrightarrow> kind_ok key st' \<and> effect key st m st'
     \<or> way = Quiet \<and> m \<in> {Some AllClear, Some FixedClear} \<and> quiet_end key st'"

lemma way_tick_good:
  assumes "kind_ok key st" "obs_ok ob" "time_ok t" "way_tick way key ob t st = Inr r"
  shows "way_good way key st (sent ok r) (settle_writes ok r)"
proof (cases way)
  case Quiet
  have q: "good key st r \<and> to_send r = None \<or>
     (\<exists>m ws. to_send r = Some (m, ws) \<and> m \<in> {AllClear, FixedClear} \<and> calm_seen ob \<and> quiet_end key (settle_writes True r)
        \<and> good key st \<lparr>to_st = to_st r, to_send = None\<rparr>)"
    using quiet_tick_good [OF assms(1), of ob] assms(2,4) Quiet by (auto simp: obs_ok_def)
  show ?thesis
  proof (cases "to_send r")
    case None
    with q show ?thesis by (simp add: way_good_def good_def)
  next
    case (Some x)
    with q obtain m ws where x: "x = (m, ws)" "m \<in> {AllClear, FixedClear}" "quiet_end key (settle_writes True r)"
      "good key st \<lparr>to_st = to_st r, to_send = None\<rparr>" by auto
    then show ?thesis using Some Quiet good_silentD [OF x(4)] by (cases ok) (auto simp: way_good_def sent_def settle_writes_def)
  qed
next
  case Plain
  then show ?thesis using assms kind_tick_good [OF assms(1) _ assms(3), of ob] by (auto simp: way_good_def good_def obs_ok_def)
next
  case Held
  then show ?thesis using assms held_tick_good [OF assms(1), of ob] by (auto simp: way_good_def good_def)
next
  case Muted
  then show ?thesis using assms muted_tick_good [OF assms(1) _ assms(3), of ob] by (auto simp: way_good_def good_def obs_ok_def)
qed

lemma loop_run_inv: "loop_run key st h \<Longrightarrow> run_inv key st h"
proof (induction rule: loop_run.induct)
  case (start st)
  then show ?case by (simp add: run_inv_def)
next
  case (tick st h ob t way r st' ok)
  then have "way_good way key st (sent ok r) st'" using way_tick_good [of key st ob t way r ok] by (simp add: run_inv_def)
  then show ?case using tick.IH by (auto simp: way_good_def intro: run_inv_step run_inv_end)
qed

text \<open>The calm: what a tick does to its mark.\<close>

definition calm_v :: "string \<Rightarrow> dict \<Rightarrow> py" where
  "calm_v key st = dget st (key @ ''_calm'')"

lemma calm_v_dset [member_simps]: "calm_v key (dset k v st) = (if k = key @ ''_calm'' then v else calm_v key st)"
  by (simp add: calm_v_def)

lemma calm_v_put: "\<forall>(k, v)\<in>set ws. k = key @ ''_calm'' \<longrightarrow> v = PNone \<Longrightarrow> calm_v key (put ws st) \<in> {PNone, calm_v key st}"
proof (induction ws arbitrary: st)
  case (Cons w ws)
  obtain k v where w: "w = (k, v)" by (cases w)
  have "calm_v key (put ws (dset k v st)) \<in> {PNone, calm_v key (dset k v st)}" using Cons by (auto simp: w)
  then show ?case using Cons.prems by (auto simp: w calm_v_dset split: if_splits)
qed simp

lemma unhush_calm: "(k, v) \<in> set (unhush key st) \<Longrightarrow> k \<noteq> key @ ''_calm''"
  by (simp add: unhush_def split: if_splits)

lemma settle_calm:
  assumes "calm_v key (to_st r) \<in> {PNone, calm_v key st}"
    and "\<forall>n ws. to_send r = Some (n, ws) \<longrightarrow> (\<forall>(k, v)\<in>set ws. k = key @ ''_calm'' \<longrightarrow> v = PNone)"
  shows "calm_v key (settle_writes ok r) \<in> {PNone, calm_v key st}"
proof (cases "to_send r")
  case (Some x)
  obtain n ws where "x = (n, ws)" by (cases x)
  then show ?thesis using Some assms calm_v_put [of ws key "to_st r"] by (auto simp: settle_writes_def)
qed (use assms(1) in \<open>simp add: settle_writes_def\<close>)

lemma closed_tail_calm: "\<forall>(k, v)\<in>set (closed_tail key st). k = key @ ''_calm'' \<longrightarrow> v = PNone"
  by (auto simp: closed_tail_def)

lemma fixed_close_calm:
  "calm_v key (settle_writes ok (fixed_close key p st)) \<in> {PNone, calm_v key st}" "to_send (fixed_close key p st) \<noteq> Some (AllClear, ws)"
proof -
  define us where "us = closed_tail key st
      @ filter (\<lambda>(k, _). dget st k \<noteq> PNone) [(key @ ''_was'', PNone), (key @ ''_quiet'', PNone), (key @ ''_said'', PNone)]"
  have us: "\<forall>(k, v)\<in>set us. k = key @ ''_calm'' \<longrightarrow> v = PNone" using closed_tail_calm [of key st] by (auto simp: us_def)
  show "calm_v key (settle_writes ok (fixed_close key p st)) \<in> {PNone, calm_v key st}"
    unfolding fixed_close_def us_def [symmetric] Let_def using us calm_v_put [OF us, of st] by (intro settle_calm) auto
  show "to_send (fixed_close key p st) \<noteq> Some (AllClear, ws)"
    unfolding fixed_close_def us_def [symmetric] Let_def by simp
qed

lemma member_block_calm:
  assumes "member_block key ob p now st = Inr r"
  shows "calm_v key (settle_writes ok r) \<in> {PNone, calm_v key st}"
    "to_send r = Some (AllClear, ws) \<Longrightarrow> ko_level ob = 0 \<and> p > 0"
proof -
  have same: "calm_v key (to_st (same_level key l v now st)) = calm_v key st
      \<and> (\<forall>n ws. to_send (same_level key l v now st) = Some (n, ws) \<longrightarrow> n \<noteq> AllClear \<and> (\<forall>(k, v)\<in>set ws. k = key @ ''_calm'' \<longrightarrow> v = PNone))" for l v
    by (auto simp: same_level_def tell_writes_def member_simps dest: unhush_calm)
  obtain v where v: "view_members key ob p st = Inr v" using assms by (auto simp: member_block_def rbind_Inr_iff)
  have "r = same_level key (ko_level ob) v now st \<or> (calm_v key (to_st r) = calm_v key st
      \<and> (\<forall>n ws. to_send r = Some (n, ws) \<longrightarrow> (n = AllClear \<longrightarrow> ko_level ob = 0 \<and> p > 0) \<and> (\<forall>(k, v)\<in>set ws. k = key @ ''_calm'' \<longrightarrow> v = PNone)))"
    using assms unfolding member_block_def v Let_def
    by (auto simp: rbind_Inr_iff tell_writes_def member_simps dest: unhush_calm split: if_splits)
  then have r: "calm_v key (to_st r) = calm_v key st" "\<forall>n ws. to_send r = Some (n, ws) \<longrightarrow>
      (n = AllClear \<longrightarrow> ko_level ob = 0 \<and> p > 0) \<and> (\<forall>(k, v)\<in>set ws. k = key @ ''_calm'' \<longrightarrow> v = PNone)"
    using same [of "ko_level ob" v] by auto
  show "calm_v key (settle_writes ok r) \<in> {PNone, calm_v key st}" using r by (intro settle_calm) auto
  show "to_send r = Some (AllClear, ws) \<Longrightarrow> ko_level ob = 0 \<and> p > 0" using r(2) by blast
qed

lemma kind_ok_calm: "kind_ok key st \<Longrightarrow> calm_v key st = PNone \<or> (\<exists>c. time_ok c \<and> calm_v key st = PStr (iso c))"
  using kind_ok_fits [of key st "key @ ''_calm''"] by (simp add: calm_v_def own_moment_def)

lemma wave_block_calm:
  assumes "kind_ok key st" "wave_block key ob (lvl_v key st) now st = Inr (st', go)"
  shows "ko_level ob \<noteq> 0 \<Longrightarrow> calm_v key st' = PNone"
    "ko_level ob = 0 \<Longrightarrow> calm_v key st' \<in> {PNone, calm_v key st, PStr (iso now)}"
    "ko_level ob = 0 \<Longrightarrow> go = Some p \<Longrightarrow> 0 < p \<Longrightarrow> \<exists>c. calm_v key st = PStr (iso c) \<and> time_ok c \<and> sec SETTLE_S \<le> now - c"
proof -
  have mark: "mark_of (dget st (key @ ''_calm'')) = None \<longleftrightarrow> calm_v key st = PNone"
    using kind_ok_moments(4) [OF assms(1)] by (simp add: calm_v_def)
  show "calm_v key st' = PNone" if "ko_level ob \<noteq> 0"
    using assms(2) that mark
    by (auto simp: wave_block_def Let_def rbind_Inr_iff member_simps split: if_splits option.splits)
  show "calm_v key st' \<in> {PNone, calm_v key st, PStr (iso now)}" if "ko_level ob = 0"
    using assms(2) that calm_v_put [OF closed_tail_calm, of key st st]
    by (auto simp: wave_block_def Let_def rbind_Inr_iff member_simps split: if_splits option.splits)
  show "\<exists>c. calm_v key st = PStr (iso c) \<and> time_ok c \<and> sec SETTLE_S \<le> now - c" if "ko_level ob = 0" "go = Some p" "0 < p"
    using assms(2) that kind_ok_calm [OF assms(1)]
    by (auto simp: wave_block_def calm_v_def Let_def rbind_Inr_iff split: if_splits option.splits)
qed

definition calm_kept :: "string \<Rightarrow> kind_obs \<Rightarrow> time \<Rightarrow> dict \<Rightarrow> dict \<Rightarrow> bool" where
  "calm_kept key ob now st st' \<longleftrightarrow> calm_v key st' = PNone \<or> calm_v key st' = calm_v key st \<and> calm_seen ob
     \<or> calm_v key st' = PStr (iso now) \<and> ko_level ob = 0"

definition calm_due :: "string \<Rightarrow> kind_obs \<Rightarrow> time \<Rightarrow> dict \<Rightarrow> bool" where
  "calm_due key ob now st \<longleftrightarrow> calm_seen ob \<and> (\<exists>c. calm_v key st = PStr (iso c) \<and> time_ok c \<and> sec SETTLE_S \<le> now - c)"

lemma kind_body_calm:
  assumes "kind_ok key st" "obs_ok ob" "kind_body key ob now st = Inr r" "calm_v key st \<noteq> PNone \<and> ko_level ob = 0 \<longrightarrow> calm_seen ob"
  shows "calm_kept key ob now st (settle_writes ok r)" "to_send r = Some (AllClear, ws) \<Longrightarrow> calm_due key ob now st"
proof -
  consider (fixed) "ko_fixed ob" "r = fixed_close key (lvl_v key st) st"
    | (wave) st' where "wave_block key ob (lvl_v key st) now st = Inr (st', None)" "r = \<lparr>to_st = st', to_send = None\<rparr>"
    | (members) st' p where "wave_block key ob (lvl_v key st) now st = Inr (st', Some p)" "member_block key ob p now st' = Inr r"
    using assms(3) unfolding kind_body_def kind_ok_level(3) [OF assms(1)] rbind.simps
    by (cases "ko_fixed ob"; cases "wave_block key ob (lvl_v key st) now st") (auto split: option.splits)
  then have "calm_kept key ob now st (settle_writes ok r) \<and> (to_send r = Some (AllClear, ws) \<longrightarrow> calm_due key ob now st)"
  proof cases
    case fixed
    then show ?thesis
      using fixed_close_calm [where p = "lvl_v key st"] assms(2,4) by (fastforce simp: calm_kept_def obs_ok_def)
  next
    case wave
    then show ?thesis
      using wave_block_calm [OF assms(1) wave(1)] assms(4) by (fastforce simp: calm_kept_def settle_writes_def)
  next
    case members
    note w = wave_block_calm [OF assms(1) members(1)] and m = member_block_calm [OF members(2)]
    have "calm_kept key ob now st (settle_writes ok r)"
      using w(1,2) m(1) [of ok] assms(4) by (cases "ko_level ob = 0") (auto simp: calm_kept_def)
    moreover have "calm_due key ob now st" if "to_send r = Some (AllClear, ws)"
      using m(2) [OF that] w(3) [of p] assms(4) by (auto simp: calm_due_def)
    ultimately show ?thesis by blast
  qed
  then show "calm_kept key ob now st (settle_writes ok r)" "to_send r = Some (AllClear, ws) \<Longrightarrow> calm_due key ob now st"
    by blast+
qed

text \<open>What a tick of any way does to the mark: it is taken off, or kept under sound evidence (and, in an ordinary tick, only
  when nothing is wrong), or set by a tick that saw nothing wrong.\<close>

definition calm_kept_in :: "tick_way \<Rightarrow> string \<Rightarrow> kind_obs \<Rightarrow> time \<Rightarrow> dict \<Rightarrow> dict \<Rightarrow> bool" where
  "calm_kept_in way key ob now st st' \<longleftrightarrow> calm_v key st' = PNone
     \<or> calm_v key st' = calm_v key st \<and> sound ob \<and> (way = Plain \<longrightarrow> ko_level ob = 0)
     \<or> calm_v key st' = PStr (iso now) \<and> ko_level ob = 0"

lemma break_calm_calm: "kind_ok key st \<Longrightarrow> calm_v key (break_calm key ob st) = (if sound ob then calm_v key st else PNone)"
  using kind_ok_moments(3) [of key st] by (auto simp: sound_def break_calm_def member_simps) (auto simp: calm_v_def)

lemma note_level_calm:
  assumes "kind_ok key st" "note_level key ob st = Inr st'"
  shows "kind_ok key st' \<and> calm_v key st' = calm_v key st"
  using assms by (auto simp: note_level_def kind_ok_level member_simps intro: kind_ok_dset split: if_splits)

lemma tick_with_cases:
  assumes "kind_ok key st" "tick_with body key ob st = Inr r"
  obtains (stop) st' where "r = \<lparr>to_st = st', to_send = None\<rparr>" "calm_v key st' = PNone"
  | (go) st' where "kind_ok key st'" "body st' = Inr r" "calm_v key st' = (if sound ob then calm_v key st else PNone)"
proof -
  let ?st1 = "break_calm key ob st"
  have st1: "kind_ok key ?st1" "calm_v key ?st1 = (if sound ob then calm_v key st else PNone)"
    using break_calm_same [OF assms(1)] break_calm_calm [OF assms(1)] by auto
  obtain st2 where st2: "note_level key ob ?st1 = Inr st2" "kind_ok key st2" "calm_v key st2 = calm_v key ?st1"
    using note_level_same [of key ?st1 ob] note_level_calm [OF st1(1)] st1(1) by blast
  have "(r = \<lparr>to_st = ?st1, to_send = None\<rparr> \<or> r = \<lparr>to_st = st2, to_send = None\<rparr>) \<and> \<not> sound ob \<or> body st2 = Inr r"
    using assms(2) by (auto simp: tick_with_def Let_def st2(1) rbind_Inr_iff sound_def split: if_splits)
  then show thesis using stop go st1 st2 by auto
qed

lemma kind_tick_calm:
  assumes "kind_ok key st" "obs_ok ob" "kind_tick key ob now st = Inr r"
  shows "calm_kept_in Plain key ob now st (settle_writes ok r)" "to_send r = Some (AllClear, ws) \<Longrightarrow> calm_due key ob now st"
proof -
  have "calm_kept_in Plain key ob now st (settle_writes ok r) \<and> (to_send r = Some (AllClear, ws) \<longrightarrow> calm_due key ob now st)"
    using assms(1,3) unfolding kind_tick_def
  proof (cases rule: tick_with_cases)
    case (stop st')
    then show ?thesis by (auto simp: calm_kept_in_def settle_writes_def)
  next
    case (go st')
    have "calm_v key st' \<noteq> PNone \<and> ko_level ob = 0 \<longrightarrow> calm_seen ob" using go(3) by (auto simp: calm_seen_def split: if_splits)
    then show ?thesis
      using kind_body_calm [OF go(1) assms(2) go(2)] go(3)
      by (auto simp: calm_kept_def calm_kept_in_def calm_due_def calm_seen_def split: if_splits)
  qed
  then show "calm_kept_in Plain key ob now st (settle_writes ok r)" "to_send r = Some (AllClear, ws) \<Longrightarrow> calm_due key ob now st"
    by blast+
qed

lemma held_tick_calm:
  assumes "kind_ok key st" "held_tick key ob st = Inr r"
  shows "calm_kept_in Held key ob now st (settle_writes ok r)" "to_send r = None"
proof -
  have "calm_kept_in Held key ob now st (settle_writes ok r) \<and> to_send r = None"
    using assms unfolding held_tick_def
  proof (cases rule: tick_with_cases)
    case (stop st')
    then show ?thesis by (simp add: calm_kept_in_def settle_writes_def)
  next
    case (go st')
    then have "r = \<lparr>to_st = st', to_send = None\<rparr>" by simp
    then show ?thesis using go(3) by (simp add: calm_kept_in_def settle_writes_def)
  qed
  then show "calm_kept_in Held key ob now st (settle_writes ok r)" "to_send r = None" by blast+
qed

lemma muted_tick_calm:
  assumes "kind_ok key st" "obs_ok ob" "muted_tick key ob now st = Inr r"
  shows "calm_kept_in Muted key ob now st (settle_writes ok r)" "to_send r = Some (AllClear, ws) \<Longrightarrow> calm_due key ob now st"
proof -
  have "calm_kept_in Muted key ob now st (settle_writes ok r) \<and> (to_send r = Some (AllClear, ws) \<longrightarrow> calm_due key ob now st)"
    using assms(1,3) unfolding muted_tick_def
  proof (cases rule: tick_with_cases)
    case (stop st')
    then show ?thesis by (auto simp: calm_kept_in_def settle_writes_def)
  next
    case (go st')
    have seen: "calm_v key st' \<noteq> PNone \<and> ko_level ob = 0 \<longrightarrow> calm_seen ob" using go(3) by (auto simp: calm_seen_def split: if_splits)
    show ?thesis
    proof (cases "ko_level ob \<noteq> 0 \<or> lvl_v key st' = 0")
      case True
      then obtain st'' where "muted_held key (ko_level ob) st' = Inr st''" "r = \<lparr>to_st = st'', to_send = None\<rparr>"
        using go(2) by (auto simp: kind_ok_level [OF go(1)] rbind_Inr_iff)
      moreover from this(1) have "calm_v key st'' = calm_v key st'"
        by (auto simp: muted_held_def kind_ok_level [OF go(1)] member_simps)
      ultimately show ?thesis using go(3) by (auto simp: calm_kept_in_def settle_writes_def)
    next
      case False
      then have "kind_body key ob now st' = Inr r" using go(2) by (simp add: kind_ok_level [OF go(1)])
      from kind_body_calm [OF go(1) assms(2) this seen] show ?thesis
        using go(3) by (auto simp: calm_kept_def calm_kept_in_def calm_due_def calm_seen_def split: if_splits)
    qed
  qed
  then show "calm_kept_in Muted key ob now st (settle_writes ok r)" "to_send r = Some (AllClear, ws) \<Longrightarrow> calm_due key ob now st"
    by blast+
qed

lemma quiet_tick_calm:
  assumes "kind_ok key st" "quiet_tick key ob st = Inr r"
  shows "calm_kept_in Quiet key ob now st (settle_writes ok r)" "to_send r = Some (AllClear, ws) \<Longrightarrow> calm_seen ob"
proof -
  let ?st1 = "break_calm key ob st"
  have st1: "kind_ok key ?st1" "calm_v key ?st1 = (if sound ob then calm_v key st else PNone)"
    using break_calm_same [OF assms(1)] break_calm_calm [OF assms(1)] by auto
  obtain st2 where st2: "note_level key ob ?st1 = Inr st2" "kind_ok key st2" "calm_v key st2 = calm_v key ?st1"
    using note_level_same [of key ?st1 ob] note_level_calm [OF st1(1)] st1(1) by blast
  have tail: "calm_v key (put (closed_tail key st2) st2) \<in> {PNone, calm_v key st2}"
    by (rule calm_v_put [OF closed_tail_calm])
  have "calm_v key (to_st r) = calm_v key st2 \<and> (\<forall>n ws. to_send r = Some (n, ws) \<longrightarrow> calm_seen ob \<and> to_st r = st2 \<and> ws = closed_tail key st2)"
    using assms(2) st2(3)
    by (auto simp: quiet_tick_def Let_def st2(1) kind_ok_level [OF st2(2)] calm_seen_def sound_def member_simps split: if_splits)
  then show "calm_kept_in Quiet key ob now st (settle_writes ok r)" "to_send r = Some (AllClear, ws) \<Longrightarrow> calm_seen ob"
    using st1(2) st2(3) tail by (auto simp: calm_kept_in_def settle_writes_def split: option.splits if_splits)
qed

lemma way_tick_calm:
  assumes "kind_ok key st" "obs_ok ob" "way_tick way key ob now st = Inr r"
  shows "calm_kept_in way key ob now st (settle_writes ok r)"
    "to_send r = Some (AllClear, ws) \<Longrightarrow> calm_seen ob \<and> (way \<noteq> Quiet \<longrightarrow> calm_due key ob now st)"
proof -
  have "calm_kept_in way key ob now st (settle_writes ok r)
      \<and> (to_send r = Some (AllClear, ws) \<longrightarrow> calm_seen ob \<and> (way \<noteq> Quiet \<longrightarrow> calm_due key ob now st))"
    using assms kind_tick_calm held_tick_calm muted_tick_calm quiet_tick_calm
    by (cases way) (auto simp: calm_due_def)
  then show "calm_kept_in way key ob now st (settle_writes ok r)"
    "to_send r = Some (AllClear, ws) \<Longrightarrow> calm_seen ob \<and> (way \<noteq> Quiet \<longrightarrow> calm_due key ob now st)" by blast+
qed

text \<open>A mark of the calm is the time of a tick of the run that saw nothing wrong, and every tick since found sound evidence; the
  ordinary ones saw nothing wrong.\<close>

definition calm_since :: "loop_entry \<Rightarrow> bool" where
  "calm_since e \<longleftrightarrow> sound (le_obs e) \<and> (le_way e = Plain \<longrightarrow> ko_level (le_obs e) = 0)"

definition calm_inv :: "string \<Rightarrow> dict \<Rightarrow> loop_entry list \<Rightarrow> bool" where
  "calm_inv key st h \<longleftrightarrow> (\<forall>c. calm_v key st = PStr (iso c) \<and> time_ok c \<longrightarrow>
     (\<exists>pre e suf. h = pre @ e # suf \<and> le_time e = c \<and> ko_level (le_obs e) = 0 \<and> (\<forall>x\<in>set suf. calm_since x)))"

lemma iso_inj: "time_ok a \<Longrightarrow> time_ok b \<Longrightarrow> iso a = iso b \<Longrightarrow> a = b"
  by (metis dt_utc_utc fromisoformat_iso option.inject)

lemma calm_inv_step:
  assumes "calm_inv key st h" "calm_kept_in way key ob t st st'" "time_ok t"
  shows "calm_inv key st' (h @ [\<lparr>le_time = t, le_way = way, le_obs = ob, le_sent = m, le_level = l\<rparr>])"
  unfolding calm_inv_def
proof (intro allI impI, elim conjE)
  let ?e = "\<lparr>le_time = t, le_way = way, le_obs = ob, le_sent = m, le_level = l\<rparr>"
  fix c assume c: "calm_v key st' = PStr (iso c)" "time_ok c"
  consider "calm_v key st = PStr (iso c)" "calm_since ?e" | "t = c" "ko_level ob = 0"
    using assms(2,3) c iso_inj [of t c] by (auto simp: calm_kept_in_def calm_since_def)
  then show "\<exists>pre e suf. h @ [?e] = pre @ e # suf \<and> le_time e = c \<and> ko_level (le_obs e) = 0 \<and> (\<forall>x\<in>set suf. calm_since x)"
  proof cases
    case 1
    with assms(1) c(2) obtain pre e suf where
      "h = pre @ e # suf" "le_time e = c" "ko_level (le_obs e) = 0" "\<forall>x\<in>set suf. calm_since x"
      unfolding calm_inv_def by blast
    with 1(2) have "h @ [?e] = pre @ e # (suf @ [?e])" "\<forall>x\<in>set (suf @ [?e]). calm_since x" by auto
    with \<open>le_time e = c\<close> \<open>ko_level (le_obs e) = 0\<close> show ?thesis by blast
  next
    case 2
    have "h @ [?e] = h @ ?e # []" "le_time ?e = c" "ko_level (le_obs ?e) = 0" "\<forall>x\<in>set []. calm_since x"
      using 2 by simp_all
    then show ?thesis by blast
  qed
qed

lemma loop_run_calm: "loop_run key st h \<Longrightarrow> calm_inv key st h"
proof (induction rule: loop_run.induct)
  case (start st)
  then show ?case by (simp add: calm_inv_def calm_v_def)
next
  case (tick st h ob t way r st' ok)
  have "kind_ok key st" using loop_run_inv [OF tick(1)] by (simp add: run_inv_def)
  from way_tick_calm(1) [OF this tick(2,4)] tick show ?case by (auto intro: calm_inv_step)
qed

section \<open>Properties\<close>

text \<open>C32. The bookkeeping of a kind never stops the loop: on every state the panel can have written for the kind, a tick returns a
  result, and whether or not its message is delivered the state written back is again one of these.\<close>

theorem kind_tick_keeps_type:
  assumes "kind_ok key st" "obs_ok ob" "time_ok now"
  shows "\<exists>r. kind_tick key ob now st = Inr r \<and> (\<forall>ok. kind_ok key (settle_writes ok r))"
  using kind_tick_good [OF assms(1) _ assms(3), of ob] assms(2) by (auto simp: good_def obs_ok_def)

text \<open>C9. While an alert is open, every member is told at most once: over any run of ticks, whatever messages fail, whenever the
  kind is passed over or muted and the server snoozed or serviced, the members announced by the delivered messages since the
  alert was opened are all different.  And outside snoozes and maintenance an all-clear goes out only for an alert that was
  told: between it and the end of the alert before there is a delivered message.\<close>

theorem member_told_once:
  assumes "loop_run key st h"
  shows "distinct (concat (map news_of (period h)))
     \<and> (\<forall>h' e. h = h' @ [e] \<and> le_sent e \<in> {Some AllClear, Some FixedClear} \<and> le_way e \<noteq> Quiet \<longrightarrow> (\<exists>x\<in>set (period h'). is_news x))"
proof
  show "distinct (concat (map news_of (period h)))"
    using loop_run_inv [OF assms] by (simp add: run_inv_def)
  show "\<forall>h' e. h = h' @ [e] \<and> le_sent e \<in> {Some AllClear, Some FixedClear} \<and> le_way e \<noteq> Quiet \<longrightarrow> (\<exists>x\<in>set (period h'). is_news x)"
    using assms
  proof (induction rule: loop_run.induct)
    case (tick st h ob t way r st' ok)
    have inv: "run_inv key st h" using loop_run_inv [OF tick(1)] .
    then have "way_good way key st (sent ok r) st'" using way_tick_good [of key st ob t way r ok] tick by (simp add: run_inv_def)
    then have "\<exists>x\<in>set (period h). is_news x" if "sent ok r \<in> {Some AllClear, Some FixedClear}" "way \<noteq> Quiet"
      using that inv by (auto simp: way_good_def effect_def run_inv_def)
    then show ?case by auto
  qed auto
qed

text \<open>C10. The all-clear is confirmed: when it is delivered, in any run of ticks, nothing is wrong in a fresh and complete report
  of a server that is there, without a break in the evidence.  Outside snoozes and maintenance there was moreover a tick at
  least fifteen minutes before that saw nothing wrong, every tick since then found such a report, and every ordinary one of
  them, in which the kind was not muted or passed over, saw nothing wrong in it.  The end of a trouble that a person marked as
  repaired is another message, and does not wait.\<close>

theorem all_clear_confirmed:
  assumes "loop_run key st (h @ [e])" "le_sent e = Some AllClear"
  shows "calm_seen (le_obs e)
     \<and> (le_way e \<noteq> Quiet \<longrightarrow> (\<exists>pre x suf. h = pre @ x # suf \<and> sec SETTLE_S \<le> le_time e - le_time x \<and> ko_level (le_obs x) = 0
          \<and> (\<forall>y\<in>set suf. sound (le_obs y) \<and> (le_way y = Plain \<longrightarrow> ko_level (le_obs y) = 0))))"
  using assms(1)
proof (cases rule: loop_run.cases)
  case (tick st0 h0 ob t way r ok)
  then have eq: "h = h0" "e = \<lparr>le_time = t, le_way = way, le_obs = ob, le_sent = sent ok r, le_level = lvl_v key st\<rparr>" by auto
  with assms(2) obtain ws where ws: "to_send r = Some (AllClear, ws)" by (auto simp: sent_def split: if_splits)
  have ok: "kind_ok key st0" using loop_run_inv [OF tick(2)] by (simp add: run_inv_def)
  note due = way_tick_calm(2) [OF ok tick(3,5) ws]
  have "\<exists>pre x suf. h = pre @ x # suf \<and> sec SETTLE_S \<le> le_time e - le_time x \<and> ko_level (le_obs x) = 0
          \<and> (\<forall>y\<in>set suf. sound (le_obs y) \<and> (le_way y = Plain \<longrightarrow> ko_level (le_obs y) = 0))" if "way \<noteq> Quiet"
  proof -
    from due that obtain c where "calm_v key st0 = PStr (iso c)" "time_ok c" "sec SETTLE_S \<le> t - c" by (auto simp: calm_due_def)
    with loop_run_calm [OF tick(2)] show ?thesis unfolding calm_inv_def calm_since_def eq by fastforce
  qed
  with due eq show ?thesis by simp
qed auto

section \<open>A run\<close>

text \<open>A disk breaks, a second one, and both are repaired; every message is delivered.\<close>

definition run_tick :: "string \<Rightarrow> time \<times> kind_obs \<Rightarrow> dict \<times> loop_entry list \<Rightarrow> dict \<times> loop_entry list" where
  "run_tick key tick s =
     (case kind_tick key (snd tick) (fst tick) (fst s) of
        Inl _ \<Rightarrow> s
      | Inr r \<Rightarrow> (settle_writes True r, snd s @ [\<lparr>le_time = fst tick, le_way = Plain, le_obs = snd tick, le_sent = sent True r,
                   le_level = lvl_v key (settle_writes True r)\<rparr>]))"

lemma run_tick_run:
  assumes "loop_run key (fst s) (snd s)" "obs_ok ob" "time_ok t"
  shows "loop_run key (fst (run_tick key (t, ob) s)) (snd (run_tick key (t, ob) s))"
proof -
  have "kind_ok key (fst s)" using loop_run_inv [OF assms(1)] by (simp add: run_inv_def)
  then obtain r where "kind_tick key ob t (fst s) = Inr r" using kind_tick_good assms(2,3) unfolding obs_ok_def by blast
  then show ?thesis using loop_run.tick [OF assms(1,2,3), of Plain r] by (simp add: run_tick_def)
qed

definition disk_obs :: "int \<Rightarrow> string list \<Rightarrow> kind_obs" where
  "disk_obs lvl sig = \<lparr>ko_present = True, ko_level = lvl, ko_sig = sig, ko_complete = True, ko_held = False, ko_talking = True,
     ko_fresh = True, ko_epoch = False, ko_quiet = (\<lambda>_. False), ko_fixed = False\<rparr>"

definition disk_run :: "nat \<Rightarrow> dict \<times> loop_entry list" where
  "disk_run n = fold (run_tick ''disk_health'') (take n
     [(sec 0, disk_obs 2 [''smart:A1'']), (sec 60, disk_obs 2 [''smart:A1'', ''smart:B2'']), (sec 120, disk_obs 0 []),
      (sec 1020, disk_obs 0 [])]) ([], [])"

lemma disk_run_run: "loop_run ''disk_health'' (fst (disk_run n)) (snd (disk_run n))"
proof -
  have "loop_run ''disk_health'' (fst (fold (run_tick ''disk_health'') ts s)) (snd (fold (run_tick ''disk_health'') ts s))"
    if "loop_run ''disk_health'' (fst s) (snd s)" "\<forall>(t, ob)\<in>set ts. obs_ok ob \<and> time_ok t" for ts s
    using that
  proof (induction ts arbitrary: s)
    case (Cons x ts)
    then have "loop_run ''disk_health'' (fst (run_tick ''disk_health'' x s)) (snd (run_tick ''disk_health'' x s))"
      by (cases x) (auto intro: run_tick_run)
    with Cons show ?case by simp
  qed simp
  moreover have "loop_run ''disk_health'' [] []"
    by (rule loop_run.start) (auto simp: MEMBER_KINDS_def kind_ok_def fits_def dget_or_def lvl_v_def hush_v_def)
  moreover have "\<forall>(t, ob)\<in>set (take n [(sec 0, disk_obs 2 [''smart:A1'']), (sec 60, disk_obs 2 [''smart:A1'', ''smart:B2'']),
      (sec 120, disk_obs 0 []), (sec 1020, disk_obs 0 [])]). obs_ok ob \<and> time_ok t"
    by (rule ballI, drule in_set_takeD) (auto simp: obs_ok_def disk_obs_def time_ok_def sec_def day_us_def epoch_ord_def)
  ultimately show ?thesis by (simp add: disk_run_def)
qed

lemma disk_run_sent:
  "map le_sent (snd (disk_run 4)) = [Some (News [''smart:A1''] 2), Some (News [''smart:B2''] 2), None, Some AllClear]"
  by code_simp

lemma disk_run_3: "length (snd (disk_run 3)) = 3"
  by code_simp

lemma disk_run_last: "\<exists>e. snd (disk_run 4) = snd (disk_run 3) @ [e] \<and> le_sent e = Some AllClear \<and> le_time e = sec 1020 \<and> le_way e = Plain"
proof -
  let ?x = "(sec 1020, disk_obs 0 [])"
  have "disk_run 4 = run_tick ''disk_health'' ?x (disk_run 3)" by (simp add: disk_run_def)
  then have "snd (disk_run 4) = snd (disk_run 3) \<or> (\<exists>e. snd (disk_run 4) = snd (disk_run 3) @ [e] \<and> le_time e = sec 1020 \<and> le_way e = Plain)"
    by (auto simp: run_tick_def split: sum.splits)
  moreover have "length (map le_sent (snd (disk_run 4))) = 4" by (simp only: disk_run_sent) simp
  ultimately obtain e where e: "snd (disk_run 4) = snd (disk_run 3) @ [e]" "le_time e = sec 1020" "le_way e = Plain"
    using disk_run_3 by auto
  then have "le_sent e = last (map le_sent (snd (disk_run 4)))" by simp
  also have "\<dots> = Some AllClear" unfolding disk_run_sent by simp
  finally show ?thesis using e by blast
qed

theorem member_told_once_witness:
  "map le_sent (snd (disk_run 4)) = [Some (News [''smart:A1''] 2), Some (News [''smart:B2''] 2), None, Some AllClear]
   \<and> distinct (concat (map news_of (period (snd (disk_run 3))))) \<and> (\<exists>x\<in>set (period (snd (disk_run 3))). is_news x)"
proof (intro conjI disk_run_sent)
  show "distinct (concat (map news_of (period (snd (disk_run 3)))))"
    using member_told_once [OF disk_run_run [of 3]] by blast
  show "\<exists>x\<in>set (period (snd (disk_run 3))). is_news x"
    using member_told_once [OF disk_run_run [of 4]] disk_run_last by fastforce
qed

theorem all_clear_confirmed_witness:
  "\<exists>e. snd (disk_run 4) = snd (disk_run 3) @ [e] \<and> le_sent e = Some AllClear \<and> le_time e = sec 1020 \<and> calm_seen (le_obs e)
     \<and> (\<exists>pre x suf. snd (disk_run 3) = pre @ x # suf \<and> sec SETTLE_S \<le> sec 1020 - le_time x \<and> ko_level (le_obs x) = 0
          \<and> (\<forall>y\<in>set suf. sound (le_obs y) \<and> (le_way y = Plain \<longrightarrow> ko_level (le_obs y) = 0)))"
proof -
  obtain e where e: "snd (disk_run 4) = snd (disk_run 3) @ [e]" "le_sent e = Some AllClear" "le_time e = sec 1020" "le_way e = Plain"
    using disk_run_last by blast
  from all_clear_confirmed [of "''disk_health''" "fst (disk_run 4)" "snd (disk_run 3)" e] disk_run_run [of 4] e
  have "calm_seen (le_obs e) \<and> (\<exists>pre x suf. snd (disk_run 3) = pre @ x # suf \<and> sec SETTLE_S \<le> sec 1020 - le_time x \<and> ko_level (le_obs x) = 0
          \<and> (\<forall>y\<in>set suf. sound (le_obs y) \<and> (le_way y = Plain \<longrightarrow> ko_level (le_obs y) = 0)))" by simp
  with e show ?thesis by blast
qed

theorem kind_tick_keeps_type_witness:
  "\<exists>r. kind_tick ''disk_health'' (disk_obs 2 [''smart:A1'']) 0 [] = Inr r \<and> (\<forall>ok. kind_ok ''disk_health'' (settle_writes ok r))"
  by (rule kind_tick_keeps_type)
     (simp_all add: kind_ok_def fits_def dget_or_def obs_ok_def disk_obs_def time_ok_def day_us_def epoch_ord_def)

end
