(* ===== verification/Report_Progress.thy ===== *)
theory Report_Progress
  imports Panel_Rows
begin

text \<open>
  Is the report the panel holds a new one?  \<open>report_progress.py\<close> keeps, per server, the agent's clock and uptime of the
  last report it took as an observation, and decides for the report of this tick whether it may be used and whether it
  begins a new stretch of evidence (\<open>epoch\<close>).  The loop over the servers stores what the step returns
  (\<open>progress_tick\<close>, from \<open>collector.evaluate_servers\<close>).

  The promise in the head of the file is proved: a report that is older both by the clock and by the uptime is believed
  only as the third of three strictly increasing ones, seen at most two minutes apart; a single old report, or two of
  them in turn, never pass.
\<close>

section \<open>Definitions\<close>

definition MAX_SAME_SECONDS :: int where "MAX_SAME_SECONDS = 120"
definition NEW_EPOCH_POINTS :: int where "NEW_EPOCH_POINTS = 3"

text \<open>The value of an int or a finite float (no bool) between 0 and the largest 64-bit integer.\<close>

definition rp_number :: "py \<Rightarrow> rat option" where
  "rp_number v =
     (case v of
        PInt i \<Rightarrow> if 0 \<le> i \<and> i \<le> 2 ^ 63 - 1 then Some (of_int i) else None
      | PFlt (Fin r) \<Rightarrow> if 0 \<le> r \<and> r \<le> 2 ^ 63 - 1 then Some r else None
      | _ \<Rightarrow> None)"

text \<open>\<open>_number(v) or 0\<close>\<close>

definition rp_or0 :: "py \<Rightarrow> rat" where
  "rp_or0 v = (case rp_number v of None \<Rightarrow> 0 | Some r \<Rightarrow> r)"

text \<open>The age of a stored moment in microseconds.\<close>

definition rp_age :: "py \<Rightarrow> time \<Rightarrow> int option" where
  "rp_age v now = map_option (\<lambda>d. now - dt_utc (aware d)) (fromisoformat (py_str (por v (PStr []))))"

definition in_time :: "int option \<Rightarrow> bool" where
  "in_time age = (case age of None \<Rightarrow> False | Some a \<Rightarrow> 0 \<le> a \<and> a \<le> sec MAX_SAME_SECONDS)"

definition rp_point :: "py \<Rightarrow> py \<Rightarrow> time \<Rightarrow> dict" where
  "rp_point clock up now = [(''clock'', clock), (''up'', up), (''at'', PStr (iso now))]"

definition rp_candidate :: "dict \<Rightarrow> py \<Rightarrow> py \<Rightarrow> time \<Rightarrow> dict option \<times> bool \<times> bool" where
  "rp_candidate old clock up now =
     (let previous = dict_or_empty (dget old ''candidate'');
          age = rp_age (dget previous ''at'') now;
          c = rp_or0 clock; u = rp_or0 up;
          old_clock = rp_or0 (dget previous ''clock''); old_up = rp_or0 (dget previous ''up'')
      in if in_time age \<and> c = old_clock \<and> u = old_up then (Some old, False, False)
         else
           (let ordered = (in_time age \<and> c > old_clock \<and> u > old_up);
                count = (if ordered then min (trunc (rp_or0 (dget previous ''n'')) + 1) NEW_EPOCH_POINTS else 1);
                point = rp_point clock up now
            in if count \<ge> NEW_EPOCH_POINTS then (Some point, True, True)
               else (Some (dset ''candidate'' (PDict (point @ [(''n'', PInt count)])) old), False, False)))"

definition rp_step :: "py \<Rightarrow> py \<Rightarrow> time \<Rightarrow> dict option \<times> bool \<times> bool" where
  "rp_step previous report now =
     (let old = dict_or_empty previous;
          keep = ((if old = [] then None else Some old), False, False)
      in case report of
           PDict rep \<Rightarrow>
             (let clock = dget_or rep ''clock_unix'' (PInt 0); up = dget_or rep ''uptime_seconds'' (PInt 0)
              in case rp_number clock of
                   None \<Rightarrow> keep
                 | Some c \<Rightarrow>
                     if c = 0 then (None, True, False)
                     else (case rp_number up of
                             None \<Rightarrow> keep
                           | Some u \<Rightarrow>
                               (let oc = rp_number (dget_or old ''clock'' (PInt 0));
                                    ou = rp_number (dget_or old ''up'' (PInt 0));
                                    old_clock = (case oc of None \<Rightarrow> 0 | Some r \<Rightarrow> r);
                                    old_up = (case ou of None \<Rightarrow> 0 | Some r \<Rightarrow> r);
                                    age = rp_age (dget old ''at'') now;
                                    epoch = (old_clock = 0 \<or> ou = None \<or> \<not> in_time age);
                                    point = rp_point clock up now;
                                    both = (u \<noteq> 0 \<and> old_up \<noteq> 0)
                                in if old_clock = 0 then (Some point, True, epoch)
                                   else if c < old_clock then
                                     (if both \<and> u < old_up then rp_candidate old clock up now
                                      else if \<not> (both \<and> u > old_up) then (Some old, False, False)
                                      else (Some point, True, True))
                                   else if both \<and> u < old_up then
                                     (if c \<le> old_clock then (Some old, False, False) else (Some point, True, True))
                                   else if c = old_clock \<and> u = old_up then
                                     (if age = None then (Some point, True, True)
                                      else (Some (filter (\<lambda>(k, _). k \<noteq> ''candidate'') old), in_time age, False))
                                   else (Some point, True, epoch))))
         | _ \<Rightarrow> keep)"

text \<open>One tick of the loop over the servers: the step on the last report, and its result stored under
  \<open>report_progress\<close> of the alert state unless there is none.\<close>

definition progress_tick :: "dict option \<Rightarrow> dict \<Rightarrow> time \<Rightarrow> dict \<times> bool \<times> bool" where
  "progress_tick last_rep st now =
     (let (progress, fresh, epoch) = rp_step (dget st ''report_progress'') (PDict (case last_rep of None \<Rightarrow> [] | Some r \<Rightarrow> r)) now
      in (case progress of None \<Rightarrow> st | Some p \<Rightarrow> dset ''report_progress'' (PDict p) st, fresh, epoch))"

section \<open>Lemmas\<close>

definition rep_clock :: "dict \<Rightarrow> rat" where
  "rep_clock r = rp_or0 (dget_or r ''clock_unix'' (PInt 0))"

definition rep_up :: "dict \<Rightarrow> rat" where
  "rep_up r = rp_or0 (dget_or r ''uptime_seconds'' (PInt 0))"

text \<open>A report with a clock and an uptime, both behind the given ones.\<close>

definition older :: "rat \<Rightarrow> rat \<Rightarrow> dict \<Rightarrow> bool" where
  "older c u r \<longleftrightarrow> 0 < rep_clock r \<and> rep_clock r < c \<and> 0 < rep_up r \<and> rep_up r < u"

text \<open>What the panel itself stores for an accepted report: clock and uptime, no candidate yet.\<close>

definition accepted_at :: "rat \<Rightarrow> rat \<Rightarrow> dict \<Rightarrow> bool" where
  "accepted_at c u p \<longleftrightarrow> rp_number (dget p ''clock'') = Some c \<and> rp_number (dget p ''up'') = Some u"

lemma rp_numberD: "rp_or0 v \<noteq> 0 \<Longrightarrow> rp_number v = Some (rp_or0 v)"
  by (auto simp: rp_or0_def split: option.splits)

lemma dget_or_dget: "dget d k \<noteq> PNone \<Longrightarrow> dget_or d k v = dget d k"
  by (auto simp: dget_def dget_or_def split: option.splits)

lemma rp_number_PNone [simp]: "rp_number PNone = None" "rp_or0 PNone = 0"
  by (simp_all add: rp_number_def rp_or0_def)

lemma rp_age_iso [simp]: "time_ok t \<Longrightarrow> rp_age (PStr (iso t)) now = Some (now - t)"
  by (simp add: rp_age_def por_def)

text \<open>A report older than the accepted one goes to the candidate.\<close>

lemma older_step:
  assumes "accepted_at c u p" "older c u r" "0 < c" "0 < u"
  shows "rp_step (PDict p) (PDict r) now
    = rp_candidate p (dget_or r ''clock_unix'' (PInt 0)) (dget_or r ''uptime_seconds'' (PInt 0)) now"
proof -
  have "dget p ''clock'' \<noteq> PNone" "dget p ''up'' \<noteq> PNone"
    using assms(1) by (auto simp: accepted_at_def)
  then have old: "rp_number (dget_or p ''clock'' (PInt 0)) = Some c" "rp_number (dget_or p ''up'' (PInt 0)) = Some u"
    using assms(1) by (simp_all add: accepted_at_def dget_or_dget)
  have new: "rp_number (dget_or r ''clock_unix'' (PInt 0)) = Some (rep_clock r)"
            "rp_number (dget_or r ''uptime_seconds'' (PInt 0)) = Some (rep_up r)"
    using assms(2) by (auto simp: older_def rep_clock_def rep_up_def intro: rp_numberD)
  show ?thesis
    using assms(2-) by (simp add: rp_step_def old new older_def Let_def)
qed

text \<open>Two reports in the order a working agent gives them.\<close>

definition ahead :: "time \<times> dict \<Rightarrow> time \<times> dict \<Rightarrow> bool" where
  "ahead x y \<longleftrightarrow> rep_clock (snd x) < rep_clock (snd y) \<and> rep_up (snd x) < rep_up (snd y)
     \<and> fst x \<le> fst y \<and> fst y - fst x \<le> sec MAX_SAME_SECONDS"

text \<open>A candidate counts a chain of observations of the history that ends in the one it holds.\<close>

definition chain_counted :: "int \<Rightarrow> time \<times> dict \<Rightarrow> (time \<times> dict) list \<Rightarrow> bool" where
  "chain_counted n x h \<longleftrightarrow>
     (if n = 1 then x \<in> set h
      else n = 2 \<and> (\<exists>h1 y h2 h3. h = h1 @ y # h2 @ x # h3 \<and> ahead y x))"

definition cand_of :: "int \<Rightarrow> time \<times> dict \<Rightarrow> py" where
  "cand_of n x = PDict (rp_point (dget_or (snd x) ''clock_unix'' (PInt 0)) (dget_or (snd x) ''uptime_seconds'' (PInt 0)) (fst x)
     @ [(''n'', PInt n)])"

definition cand_ok :: "rat \<Rightarrow> rat \<Rightarrow> dict \<Rightarrow> (time \<times> dict) list \<Rightarrow> bool" where
  "cand_ok c u p h \<longleftrightarrow> accepted_at c u p \<and>
     (dget p ''candidate'' = PNone
      \<or> (\<exists>n x. dget p ''candidate'' = cand_of n x \<and> chain_counted n x h \<and> time_ok (fst x)))"

lemma chain_counted_mono: "chain_counted n x h \<Longrightarrow> chain_counted n x (h @ [y])"
  unfolding chain_counted_def by (metis Un_iff append.assoc append_Cons set_append)

lemma chain_counted_next:
  assumes "chain_counted 1 x h" "ahead x y"
  shows "chain_counted 2 y (h @ [y])"
proof -
  from assms(1) obtain h1 h2 where "h = h1 @ x # h2"
    by (auto simp: chain_counted_def dest: split_list)
  then have "\<exists>h1 z h2 h3. h @ [y] = h1 @ z # h2 @ y # h3 \<and> ahead z y"
    using assms(2) by (metis append.assoc append_Cons)
  then show ?thesis by (simp add: chain_counted_def)
qed

lemma cand_of_fields [simp]:
  "dict_or_empty (cand_of n x) = rp_point (dget_or (snd x) ''clock_unix'' (PInt 0)) (dget_or (snd x) ''uptime_seconds'' (PInt 0)) (fst x) @ [(''n'', PInt n)]"
  "dget (rp_point k v t @ r) ''clock'' = k" "dget (rp_point k v t @ r) ''up'' = v"
  "dget (rp_point k v t @ r) ''at'' = PStr (iso t)" "dget (rp_point k v t @ [(''n'', w)]) ''n'' = w"
  by (simp_all add: cand_of_def rp_point_def)

lemma rp_or0_small [simp]: "rp_or0 (PInt 1) = 1" "rp_or0 (PInt 2) = 2"
  by (simp_all add: rp_or0_def rp_number_def)

text \<open>What one old report does to the candidate: nothing, a longer count, or a new start; and when it is believed.\<close>

lemma cand_of_fold:
  "PDict (rp_point (dget_or r ''clock_unix'' (PInt 0)) (dget_or r ''uptime_seconds'' (PInt 0)) t @ [(''n'', PInt n)]) = cand_of n (t, r)"
  by (simp add: cand_of_def)

lemma candidate_first:
  assumes "dget p ''candidate'' = PNone"
  shows "rp_candidate p (dget_or r ''clock_unix'' (PInt 0)) (dget_or r ''uptime_seconds'' (PInt 0)) t
    = (Some (dset ''candidate'' (cand_of 1 (t, r)) p), False, False)"
proof -
  have "rp_age PNone t = None" by (simp add: rp_age_def por_def fromisoformat_def)
  then show ?thesis by (simp add: rp_candidate_def assms in_time_def NEW_EPOCH_POINTS_def cand_of_fold)
qed

lemma candidate_again:
  assumes "dget p ''candidate'' = cand_of n x" "n = 1 \<or> n = 2" "time_ok (fst x)"
  shows "rp_candidate p (dget_or r ''clock_unix'' (PInt 0)) (dget_or r ''uptime_seconds'' (PInt 0)) t =
    (if in_time (Some (t - fst x)) \<and> rep_clock r = rep_clock (snd x) \<and> rep_up r = rep_up (snd x) then (Some p, False, False)
     else if ahead x (t, r) \<and> n = 2
     then (Some (rp_point (dget_or r ''clock_unix'' (PInt 0)) (dget_or r ''uptime_seconds'' (PInt 0)) t), True, True)
     else (Some (dset ''candidate'' (cand_of (if ahead x (t, r) then 2 else 1) (t, r)) p), False, False))"
proof -
  have ord: "in_time (Some (t - fst x)) \<and> rep_clock r > rep_clock (snd x) \<and> rep_up r > rep_up (snd x) \<longleftrightarrow> ahead x (t, r)"
    by (auto simp: in_time_def ahead_def)
  show ?thesis
    using assms(2) unfolding rp_candidate_def
    by (simp only: assms(1) cand_of_fields rp_age_iso [OF assms(3)] Let_def rep_clock_def [symmetric] rep_up_def [symmetric] ord)
       (auto simp: NEW_EPOCH_POINTS_def cand_of_fold trunc_def)
qed

lemma candidate_step:
  assumes "cand_ok c u p h" "older c u r" "time_ok t"
    and "rp_candidate p (dget_or r ''clock_unix'' (PInt 0)) (dget_or r ''uptime_seconds'' (PInt 0)) t = (q, usable, epoch)"
  shows "if usable then \<exists>x. chain_counted 2 x h \<and> ahead x (t, r) else \<exists>p'. q = Some p' \<and> cand_ok c u p' (h @ [(t, r)])"
proof -
  have keep: "cand_ok c u p (h @ [(t, r)])"
    using assms(1) unfolding cand_ok_def by (blast intro: chain_counted_mono)
  have put: "cand_ok c u (dset ''candidate'' (cand_of n (t, r)) p) (h @ [(t, r)])" if "chain_counted n (t, r) (h @ [(t, r)])" for n
    using assms(1,3) that by (auto simp: cand_ok_def accepted_at_def)
  have one: "chain_counted 1 (t, r) (h @ [(t, r)])" by (simp add: chain_counted_def)
  consider (none) "dget p ''candidate'' = PNone"
    | (some) n x where "dget p ''candidate'' = cand_of n x" "chain_counted n x h" "time_ok (fst x)"
    using assms(1) by (auto simp: cand_ok_def)
  then show ?thesis
  proof cases
    case none
    with assms(4) put [OF one] show ?thesis by (auto simp: candidate_first)
  next
    case some
    have n: "n = 1 \<or> n = 2" using some(2) by (auto simp: chain_counted_def split: if_splits)
    note step = assms(4) [unfolded candidate_again [OF some(1) n some(3)]]
    show ?thesis
    proof (cases usable)
      case True
      then have "n = 2 \<and> ahead x (t, r)" using step by (auto split: if_splits)
      with some(2) True show ?thesis by (metis (full_types))
    next
      case False
      then have "q = Some p \<or> q = Some (dset ''candidate'' (cand_of (if ahead x (t, r) then 2 else 1) (t, r)) p)
          \<and> (ahead x (t, r) \<longrightarrow> n = 1)"
        using step n by (auto split: if_splits)
      then show ?thesis
        using False keep put [OF one] put [of 2] chain_counted_next [of x h "(t, r)"] some(2) by auto
    qed
  qed
qed

text \<open>Ticks that all see older reports and refuse them.\<close>

inductive replay_run :: "rat \<Rightarrow> rat \<Rightarrow> dict \<Rightarrow> (time \<times> dict) list \<Rightarrow> bool" for c u where
  start: "dget st ''report_progress'' = PDict p \<Longrightarrow> accepted_at c u p \<Longrightarrow> dget p ''candidate'' = PNone \<Longrightarrow> replay_run c u st []"
| tick: "replay_run c u st h \<Longrightarrow> older c u r \<Longrightarrow> time_ok t \<Longrightarrow> progress_tick (Some r) st t = (st', False, epoch) \<Longrightarrow>
    replay_run c u st' (h @ [(t, r)])"

lemma progress_tick_older:
  assumes "dget st ''report_progress'' = PDict p" "cand_ok c u p h" "older c u r" "time_ok t"
    and "progress_tick (Some r) st t = (st', usable, epoch)"
  shows "if usable then \<exists>x. chain_counted 2 x h \<and> ahead x (t, r)
         else \<exists>p'. dget st' ''report_progress'' = PDict p' \<and> cand_ok c u p' (h @ [(t, r)])"
proof -
  obtain q where q: "rp_candidate p (dget_or r ''clock_unix'' (PInt 0)) (dget_or r ''uptime_seconds'' (PInt 0)) t = (q, usable, epoch)"
      "st' = (case q of None \<Rightarrow> st | Some p' \<Rightarrow> dset ''report_progress'' (PDict p') st)"
    using assms(5) older_step [of c u p r t] assms(2,3)
    by (auto simp: progress_tick_def assms(1) cand_ok_def older_def split: prod.splits)
  from candidate_step [OF assms(2,3,4) q(1)] show ?thesis
    by (auto simp: q(2) split: if_splits)
qed

lemma replay_run_cand:
  "replay_run c u st h \<Longrightarrow> \<exists>p. dget st ''report_progress'' = PDict p \<and> cand_ok c u p h"
proof (induction rule: replay_run.induct)
  case (start st p)
  then show ?case by (auto simp: cand_ok_def)
next
  case (tick st h r t st' epoch)
  then show ?case using progress_tick_older [of st _ c u h r t st' False epoch] by auto
qed

section \<open>Properties\<close>

text \<open>C11. A stale report is not taken for a new one.  The panel has accepted a report with some clock and uptime, and then sees
  only reports that are behind it in both (an old report replayed, or the agent's state restored).  One of them is believed only
  as the last of three observations with strictly growing clock and uptime, each at most two minutes after the one before; so
  one old report, or two of them in turn, however often they come, never count as news.\<close>

theorem old_report_needs_three_in_order:
  assumes "replay_run c u st h" "older c u r" "time_ok t" "progress_tick (Some r) st t = (st', True, epoch)"
  shows "\<exists>h1 x h2 y h3. h = h1 @ x # h2 @ y # h3 \<and> ahead x y \<and> ahead y (t, r)"
proof -
  from replay_run_cand [OF assms(1)] obtain p where "dget st ''report_progress'' = PDict p" "cand_ok c u p h"
    by blast
  from progress_tick_older [OF this assms(2-)] obtain y where "chain_counted 2 y h" "ahead y (t, r)"
    by auto
  then show ?thesis unfolding chain_counted_def by (metis one_eq_numeral_iff semiring_norm(85))
qed

text \<open>The state after a report of a server that had been up for 500 seconds; then its disk is rolled back, and the third of
  three reports with growing clocks is taken.\<close>

definition wit_report :: "int \<Rightarrow> int \<Rightarrow> dict" where
  "wit_report c u = [(''clock_unix'', PInt c), (''uptime_seconds'', PInt u)]"

definition wit_state0 :: dict where
  "wit_state0 = [(''report_progress'', PDict (rp_point (PInt 1000) (PInt 500) (sec 1000)))]"

primrec wit_state :: "nat \<Rightarrow> dict" where
  "wit_state 0 = wit_state0"
| "wit_state (Suc n) = fst (progress_tick (Some (wit_report (100 + 60 * int n) (10 + 60 * int n))) (wit_state n) (sec (2000 + 60 * int n)))"

lemma wit_flags:
  "snd (progress_tick (Some (wit_report 100 10)) (wit_state 0) (sec 2000)) = (False, False)
   \<and> snd (progress_tick (Some (wit_report 160 70)) (wit_state (Suc 0)) (sec 2060)) = (False, False)
   \<and> snd (progress_tick (Some (wit_report 220 130)) (wit_state (Suc (Suc 0))) (sec 2120)) = (True, True)"
  by code_simp

lemma wit_ticks:
  "progress_tick (Some (wit_report 100 10)) (wit_state 0) (sec 2000) = (wit_state 1, False, False)"
  "progress_tick (Some (wit_report 160 70)) (wit_state 1) (sec 2060) = (wit_state 2, False, False)"
  "progress_tick (Some (wit_report 220 130)) (wit_state 2) (sec 2120) = (wit_state 3, True, True)"
  using wit_flags by (auto intro!: prod_eqI simp: numeral_2_eq_2 numeral_3_eq_3)

lemma wit_run: "replay_run 1000 500 (wit_state 2) [(sec 2000, wit_report 100 10), (sec 2060, wit_report 160 70)]"
proof -
  have "replay_run 1000 500 (wit_state 0) []"
    by (rule replay_run.start [where p = "rp_point (PInt 1000) (PInt 500) (sec 1000)"]) code_simp+
  then have "replay_run 1000 500 (wit_state 1) ([] @ [(sec 2000, wit_report 100 10)])"
    by (rule replay_run.tick [OF _ _ _ wit_ticks(1)]) code_simp+
  then have "replay_run 1000 500 (wit_state 2) (([] @ [(sec 2000, wit_report 100 10)]) @ [(sec 2060, wit_report 160 70)])"
    by (rule replay_run.tick [OF _ _ _ wit_ticks(2)]) code_simp+
  then show ?thesis by simp
qed

theorem old_report_needs_three_in_order_witness:
  "snd (progress_tick (Some (wit_report 220 130)) (wit_state 2) (sec 2120)) = (True, True)
   \<and> (\<exists>h1 x h2 y h3. [(sec 2000, wit_report 100 10), (sec 2060, wit_report 160 70)] = h1 @ x # h2 @ y # h3
        \<and> ahead x y \<and> ahead y (sec 2120, wit_report 220 130))"
proof
  show "snd (progress_tick (Some (wit_report 220 130)) (wit_state 2) (sec 2120)) = (True, True)"
    by (simp add: wit_ticks)
  show "\<exists>h1 x h2 y h3. [(sec 2000, wit_report 100 10), (sec 2060, wit_report 160 70)] = h1 @ x # h2 @ y # h3
        \<and> ahead x y \<and> ahead y (sec 2120, wit_report 220 130)"
    by (rule old_report_needs_three_in_order [OF wit_run _ _ wit_ticks(3)]) code_simp+
qed

end
