(* ===== verification/Dispatch.thy ===== *)
theory Dispatch
  imports Py_Datetime
begin

text \<open>
  Delivery of alerts (\<open>alerts.py\<close>): one batch of messages goes to the common chat, the webhook, the chats of groups and to
  people, and the panel learns which messages need no repeat; only then does it write down what it told.

  The outside is the argument \<open>posts\<close>: the answer to the \<open>n\<close>-th HTTP request of the batch.  \<open>link\<close> is the connection of
  the batch (\<open>_Link\<close>): it counts the requests, remembers that Telegram or the webhook does not answer, and, in the model
  only, keeps a log of what was accepted, what was refused for good and what failed on the way after it may have arrived,
  by the numbers of the messages.  Texts are left out: of a message the model has its address, the flag that it starts with the highest level, and the text without the
  name of the server (\<open>am_norm\<close>, \<open>None\<close> when the name is not in it), by which a storm is recognised.  Buttons, the
  history and the notes about errors of chats are not modelled.
\<close>

section \<open>Messages and settings\<close>

record alert_msg =
  am_section :: string
  am_group :: string
  am_kind :: string
  am_target :: string
  am_ref :: string
  am_recovery :: bool
  am_alarm :: bool
  am_norm :: "string option"
  am_parts :: "(string \<times> string \<times> string) list"

record route =
  rt_chat :: string
  rt_server_groups :: "string list"
  rt_site_groups :: "string list"

record alert_cfg =
  telegram_token :: string
  telegram_chat :: string
  webhook :: string
  tg_buttons :: bool
  route_chats :: "route list"
  route_main :: "string option"
  main_by :: "(string \<times> bool) list"
  dup_on :: bool
  dup_until :: string
  main_passed :: "(string \<times> string) list"

record recipient =
  rc_chat :: string
  rc_token :: string
  rc_sections :: "string list"
  rc_server_groups :: "string list"
  rc_site_groups :: "string list"

definition SERVER_SECTIONS :: "string list" where
  "SERVER_SECTIONS = [''servers'', ''docker'', ''kuber'', ''services'', ''backups'']"

section \<open>Storms\<close>

definition STORM_MIN :: nat where "STORM_MIN = 3"
definition STORM_SKIP :: "string list" where "STORM_SKIP = [''access_change'']"

definition storm_key :: "alert_msg \<Rightarrow> (string \<times> string \<times> string \<times> bool \<times> string) option" where
  "storm_key m =
     (if am_target m = [] \<or> am_kind m \<in> set STORM_SKIP then None
      else if am_ref m \<noteq> [] \<and> \<not> startswith (am_ref m) ''srv:'' then None
      else if am_ref m = [] \<and> \<not> (am_recovery m \<and> am_section m \<in> set SERVER_SECTIONS) then None
      else map_option (\<lambda>norm. (am_kind m, am_section m, am_group m, am_recovery m, norm)) (am_norm m))"

text \<open>\<open>dict.fromkeys(xs)\<close>: the first occurrences, in order.\<close>

fun firsts :: "'a list \<Rightarrow> 'a list" where
  "firsts [] = []"
| "firsts (x # xs) = x # filter (\<lambda>y. y \<noteq> x) (firsts xs)"

definition ref_numbers :: "string \<Rightarrow> string list" where
  "ref_numbers ref = filter (\<lambda>x. strip x \<noteq> [] \<and> list_all is_dig (strip x)) (split_chr CHR '','' (snd (snd (partition_chr CHR '':'' ref))))"

definition ref_ids :: "string \<Rightarrow> string \<times> int list" where
  "ref_ids ref =
     (let kind = fst (partition_chr CHR '':'' ref); ids = List.map_filter (\<lambda>x. num (strip x)) (ref_numbers ref)
      in if kind \<in> {''srv'', ''chk''} \<and> ids \<noteq> [] then (kind, ids) else ([], []))"

text \<open>\<open>parts or [m]\<close>: the messages a message stands for, by kind, object and reference.\<close>

definition msg_parts :: "alert_msg \<Rightarrow> (string \<times> string \<times> string) list" where
  "msg_parts m = (if am_parts m = [] then [(am_kind m, am_target m, am_ref m)] else am_parts m)"

definition msg_pairs :: "alert_msg \<Rightarrow> (string \<times> string) list" where
  "msg_pairs m = map (\<lambda>(k, t, _). (k, t)) (msg_parts m)"

definition storm_msg :: "alert_msg list \<Rightarrow> alert_msg" where
  "storm_msg parts =
     (let first = hd parts; ids = firsts (concat (map (\<lambda>p. ref_numbers (am_ref p)) parts))
      in first\<lparr>am_target := join '', '' (firsts (map am_target parts)),
               am_ref := (if ids = [] then [] else ''srv:'' @ join '','' ids),
               am_parts := map (\<lambda>p. (am_kind p, am_target p, am_ref p)) parts\<rparr>)"

text \<open>\<open>d.setdefault(k, []).append(i)\<close>\<close>

definition bucket_add :: "'k \<times> nat \<Rightarrow> ('k \<times> nat list) list \<Rightarrow> ('k \<times> nat list) list" where
  "bucket_add x d = dset (fst x) ((case map_of d (fst x) of None \<Rightarrow> [] | Some is \<Rightarrow> is) @ [snd x]) d"

definition storm_groups :: "alert_msg list \<Rightarrow> ((string \<times> string \<times> string \<times> bool \<times> string) \<times> nat list) list" where
  "storm_groups msgs =
     fold (\<lambda>i g. case storm_key (msgs ! i) of None \<Rightarrow> g | Some k \<Rightarrow> bucket_add (k, i) g) [0..<length msgs] []"

definition storm_big :: "alert_msg list \<Rightarrow> (nat \<times> nat list) list" where
  "storm_big msgs =
     map (\<lambda>is. (hd is, is)) (filter (\<lambda>is. length (remdups (map (\<lambda>i. am_target (msgs ! i)) is)) \<ge> STORM_MIN) (map snd (storm_groups msgs)))"

text \<open>The messages to send, and for each the messages it stands for.\<close>

definition merge_storm :: "alert_msg list \<Rightarrow> alert_msg list \<times> nat list list" where
  "merge_storm msgs =
     (let big = storm_big msgs;
          dropped = concat (map (\<lambda>(_, is). tl is) big);
          kept = filter (\<lambda>i. i \<notin> set dropped) [0..<length msgs]
      in (map (\<lambda>i. case map_of big i of Some is \<Rightarrow> storm_msg (map (\<lambda>j. msgs ! j) is) | None \<Rightarrow> msgs ! i) kept,
          map (\<lambda>i. case map_of big i of Some is \<Rightarrow> is | None \<Rightarrow> [i]) kept))"

section \<open>Addresses\<close>

definition route_hits :: "alert_cfg \<Rightarrow> alert_msg \<Rightarrow> route list" where
  "route_hits cfg m =
     (if am_section m = [] \<or> am_group m = [] then []
      else filter (\<lambda>r. am_group m \<in> set (if am_section m \<in> set SERVER_SECTIONS then rt_server_groups r else rt_site_groups r)) (route_chats cfg))"

definition CRIT_KINDS :: "string list" where "CRIT_KINDS = [''offline'']"

definition critical :: "alert_msg \<Rightarrow> bool" where
  "critical m \<longleftrightarrow> \<not> am_recovery m \<and> (am_kind m \<in> set CRIT_KINDS \<or> am_alarm m)"

definition dup_paused :: "alert_cfg \<Rightarrow> time \<Rightarrow> bool" where
  "dup_paused cfg now \<longleftrightarrow> dup_on cfg \<and>
     (dup_until cfg = [] \<or> (case fromisoformat (dup_until cfg) of None \<Rightarrow> False | Some d \<Rightarrow> dt_utc (aware d) > now))"

definition buttons_on :: "alert_cfg \<Rightarrow> bool" where
  "buttons_on cfg \<longleftrightarrow> tg_buttons cfg \<and> telegram_token cfg \<noteq> []"

definition passed :: "alert_cfg \<Rightarrow> alert_msg \<Rightarrow> bool" where
  "passed cfg m \<longleftrightarrow> am_recovery m \<and> list_ex (\<lambda>p. p \<in> set (main_passed cfg)) (msg_pairs m)"

definition main_copy :: "alert_cfg \<Rightarrow> time \<Rightarrow> alert_msg \<Rightarrow> bool" where
  "main_copy cfg now m =
     (if passed cfg m then True
      else if dup_paused cfg now then critical m \<and> \<not> buttons_on cfg
      else case map_of (main_by cfg) ((if am_section m \<in> set SERVER_SECTIONS then ''srv:'' else ''site:'') @ am_group m) of
             Some b \<Rightarrow> b
           | None \<Rightarrow> route_main cfg \<noteq> Some ''rest'')"

definition main_chat :: "alert_cfg \<Rightarrow> string" where
  "main_chat cfg = (if telegram_token cfg \<noteq> [] then telegram_chat cfg else [])"

definition chats_for :: "alert_cfg \<Rightarrow> time \<Rightarrow> alert_msg \<Rightarrow> string list" where
  "chats_for cfg now m =
     (if telegram_token cfg = [] then []
      else (let hits = map rt_chat (route_hits cfg m)
            in firsts ((if main_chat cfg \<noteq> [] \<and> (hits = [] \<or> main_copy cfg now m) then [main_chat cfg] else []) @ hits)))"

definition wants :: "recipient \<Rightarrow> alert_msg \<Rightarrow> bool" where
  "wants u m \<longleftrightarrow>
     (if am_section m = [] then True
      else if rc_sections u \<noteq> [] \<and> am_section m \<notin> set (rc_sections u) then False
      else (let groups = (if am_section m \<in> set SERVER_SECTIONS then rc_server_groups u else rc_site_groups u)
            in groups = [] \<or> am_group m \<in> set groups))"

definition alerts_enabled :: "alert_cfg \<Rightarrow> bool" where
  "alerts_enabled cfg \<longleftrightarrow> (telegram_token cfg \<noteq> [] \<and> telegram_chat cfg \<noteq> []) \<or> webhook cfg \<noteq> []"

section \<open>The connection\<close>

text \<open>A request fails on the way (\<open>httpx.TransportError\<close>; the flag: after the request may have arrived) or is answered.\<close>

datatype post_result = Transport bool | Status int

datatype dest = Chat string | Hook | Personal string

record link =
  lk_n :: nat
  tg_down :: bool
  hook_down :: bool
  lk_ok :: "(dest \<times> nat list) list"
  lk_rej :: "(dest \<times> nat list) list"
  lk_unc :: "(dest \<times> nat list) list"

definition link0 :: link where
  "link0 = \<lparr>lk_n = 0, tg_down = False, hook_down = False, lk_ok = [], lk_rej = [], lk_unc = []\<rparr>"

type_synonym wire = "nat \<Rightarrow> post_result"

datatype tg_result = TgOk | TgRejected | TgFailed bool

definition post :: "wire \<Rightarrow> link \<Rightarrow> post_result \<times> link" where
  "post posts lk = (posts (lk_n lk), lk\<lparr>lk_n := lk_n lk + 1\<rparr>)"

text \<open>\<open>tg_send\<close>; its first component is \<open>Inl\<close> for a transport error.  \<open>pm\<close>: a parse mode is given.\<close>

definition tg_send :: "wire \<Rightarrow> bool \<Rightarrow> link \<Rightarrow> (bool + tg_result) \<times> link" where
  "tg_send posts pm lk =
     (let (r, lk) = post posts lk;
          (r, lk) = (if r = Status 400 \<and> pm then post posts lk else (r, lk))
      in (case r of
            Transport u \<Rightarrow> Inl u
          | Status code \<Rightarrow>
              Inr (if 400 \<le> code \<and> code < 500 \<and> code \<noteq> 429 then TgRejected
                   else if code \<ge> 400 \<or> \<not> (200 \<le> code \<and> code < 300) then TgFailed False else TgOk), lk))"

definition link_tg :: "wire \<Rightarrow> bool \<Rightarrow> dest \<Rightarrow> nat list \<Rightarrow> link \<Rightarrow> tg_result \<times> link" where
  "link_tg posts pm d ids lk =
     (if tg_down lk then (TgFailed False, lk)
      else (case tg_send posts pm lk of
              (Inl u, lk) \<Rightarrow> (TgFailed u, lk\<lparr>tg_down := True, lk_unc := lk_unc lk @ (if u then [(d, ids)] else [])\<rparr>)
            | (Inr TgOk, lk) \<Rightarrow> (TgOk, lk\<lparr>lk_ok := lk_ok lk @ [(d, ids)]\<rparr>)
            | (Inr TgRejected, lk) \<Rightarrow> (TgRejected, lk\<lparr>lk_rej := lk_rej lk @ [(d, ids)]\<rparr>)
            | (Inr r, lk) \<Rightarrow> (r, lk)))"

text \<open>Whether the webhook failed.\<close>

definition link_hook :: "wire \<Rightarrow> nat list \<Rightarrow> link \<Rightarrow> bool \<times> link" where
  "link_hook posts ids lk =
     (if hook_down lk then (True, lk)
      else (case post posts lk of
              (Transport _, lk) \<Rightarrow> (True, lk\<lparr>hook_down := True\<rparr>)
            | (Status code, lk) \<Rightarrow>
                if 200 \<le> code \<and> code < 300 then (False, lk\<lparr>lk_ok := lk_ok lk @ [(Hook, ids)]\<rparr>) else (True, lk)))"

section \<open>Sending\<close>

record send_errors =
  se_n :: nat
  se_rejected :: nat
  se_uncertain :: bool

definition send_alert :: "wire \<Rightarrow> bool \<Rightarrow> alert_cfg \<Rightarrow> nat list \<Rightarrow> link \<Rightarrow> send_errors \<times> link" where
  "send_alert posts pm cfg ids lk =
     (let (e, lk) =
            (if telegram_token cfg \<noteq> [] \<and> telegram_chat cfg \<noteq> [] then
               (case link_tg posts pm (Chat (telegram_chat cfg)) ids lk of
                  (TgOk, lk) \<Rightarrow> (\<lparr>se_n = 0, se_rejected = 0, se_uncertain = False\<rparr>, lk)
                | (TgRejected, lk) \<Rightarrow> (\<lparr>se_n = 1, se_rejected = 1, se_uncertain = False\<rparr>, lk)
                | (TgFailed u, lk) \<Rightarrow> (\<lparr>se_n = 1, se_rejected = 0, se_uncertain = u\<rparr>, lk))
             else (\<lparr>se_n = 0, se_rejected = 0, se_uncertain = False\<rparr>, lk))
      in if webhook cfg \<noteq> [] then
           (case link_hook posts ids lk of (err, lk) \<Rightarrow> (if err then e\<lparr>se_n := se_n e + 1\<rparr> else e, lk))
         else (e, lk))"

definition channel_count :: "alert_cfg \<Rightarrow> nat" where
  "channel_count cfg = (if telegram_token cfg \<noteq> [] \<and> telegram_chat cfg \<noteq> [] then 1 else 0) + (if webhook cfg \<noteq> [] then 1 else 0)"

text \<open>Whether it arrived somewhere, and whether to repeat it.\<close>

definition outcome_of :: "send_errors \<Rightarrow> nat \<Rightarrow> bool \<times> bool" where
  "outcome_of e channels = (let got = (se_n e < channels) in (got, \<not> got \<and> se_n e > se_rejected e))"

text \<open>The numbers that arrived, that are to be repeated, and whose fate is unknown.\<close>

record sent_sets =
  ss_got :: "nat list"
  ss_again :: "nat list"
  ss_unc :: "nat list"

definition ss_empty :: sent_sets where
  "ss_empty = \<lparr>ss_got = [], ss_again = [], ss_unc = []\<rparr>"

definition ss_add :: "nat list \<Rightarrow> send_errors \<Rightarrow> nat \<Rightarrow> sent_sets \<Rightarrow> sent_sets" where
  "ss_add is e channels s =
     (case outcome_of e channels of (got, again) \<Rightarrow>
        \<lparr>ss_got = ss_got s @ (if got then is else []), ss_again = ss_again s @ (if again then is else []),
         ss_unc = ss_unc s @ (if se_uncertain e then is else [])\<rparr>)"

fun send_each :: "wire \<Rightarrow> bool \<Rightarrow> alert_cfg \<Rightarrow> nat list \<Rightarrow> sent_sets \<Rightarrow> link \<Rightarrow> sent_sets \<times> link" where
  "send_each posts pm cfg [] s lk = (s, lk)"
| "send_each posts pm cfg (i # is) s lk =
     (case send_alert posts pm cfg [i] lk of (e, lk) \<Rightarrow> send_each posts pm cfg is (ss_add [i] e (channel_count cfg) s) lk)"

definition send_common :: "wire \<Rightarrow> bool \<Rightarrow> int \<Rightarrow> alert_cfg \<Rightarrow> nat list \<Rightarrow> link \<Rightarrow> sent_sets \<times> link" where
  "send_common posts pm threshold cfg idx lk =
     (if idx = [] \<or> channel_count cfg = 0 then (ss_empty, lk)
      else if threshold \<noteq> 0 \<and> int (length idx) \<ge> threshold then
        (case send_alert posts pm cfg idx lk of (e, lk) \<Rightarrow> (ss_add idx e (channel_count cfg) ss_empty, lk))
      else send_each posts pm cfg idx ss_empty lk)"

text \<open>A chat of a group: the numbers that did not arrive, and those of unknown fate.\<close>

fun batch_each :: "wire \<Rightarrow> bool \<Rightarrow> string \<Rightarrow> nat list \<Rightarrow> link \<Rightarrow> nat list \<times> nat list \<times> link" where
  "batch_each posts pm chat [] lk = ([], [], lk)"
| "batch_each posts pm chat (i # is) lk =
     (case link_tg posts pm (Chat chat) [i] lk of (r, lk) \<Rightarrow>
        (case batch_each posts pm chat is lk of (failed, unc, lk) \<Rightarrow>
           (if r = TgOk then failed else i # failed, if r = TgFailed True then i # unc else unc, lk)))"

definition send_batch :: "wire \<Rightarrow> bool \<Rightarrow> int \<Rightarrow> string \<Rightarrow> nat list \<Rightarrow> link \<Rightarrow> nat list \<times> nat list \<times> link" where
  "send_batch posts pm threshold chat items lk =
     (if threshold \<noteq> 0 \<and> int (length items) \<ge> threshold then
        (case link_tg posts pm (Chat chat) items lk of (r, lk) \<Rightarrow>
           (if r = TgOk then [] else items, if r = TgFailed True then items else [], lk))
      else batch_each posts pm chat items lk)"

text \<open>The chats of groups and the messages for each, in the order they come up.\<close>

definition route_plan :: "alert_cfg \<Rightarrow> time \<Rightarrow> alert_msg list \<Rightarrow> (string \<times> nat list) list" where
  "route_plan cfg now msgs =
     fold bucket_add (concat (map (\<lambda>i. map (\<lambda>c. (c, i)) (filter (\<lambda>c. c \<noteq> telegram_chat cfg) (chats_for cfg now (msgs ! i)))) [0..<length msgs])) []"

record route_state =
  rs_got :: "nat list"
  rs_back :: "nat list"
  rs_unc :: "nat list"

text \<open>What a chat refused goes to the common chat, once, unless that chat gets it anyway; an OOM message that may have arrived
  does not.  \<open>oom\<close>: the caller asks for the special treatment of OOM messages.\<close>

definition note_one :: "bool \<Rightarrow> alert_cfg \<Rightarrow> time \<Rightarrow> alert_msg list \<Rightarrow> nat list \<Rightarrow> nat \<Rightarrow> nat list \<Rightarrow> nat list" where
  "note_one oom cfg now msgs unc i bk =
     (if oom \<and> i \<in> set unc \<and> am_kind (msgs ! i) = ''oom'' then bk
      else if telegram_chat cfg \<noteq> [] \<and> telegram_chat cfg \<notin> set (chats_for cfg now (msgs ! i)) \<and> i \<notin> set bk then bk @ [i] else bk)"

definition note_failed :: "bool \<Rightarrow> alert_cfg \<Rightarrow> time \<Rightarrow> alert_msg list \<Rightarrow> nat list \<Rightarrow> nat list \<Rightarrow> nat list \<Rightarrow> nat list" where
  "note_failed oom cfg now msgs failed unc bk = fold (note_one oom cfg now msgs unc) failed bk"

fun route_chat_loop :: "wire \<Rightarrow> bool \<Rightarrow> int \<Rightarrow> bool \<Rightarrow> alert_cfg \<Rightarrow> time \<Rightarrow> alert_msg list \<Rightarrow> (string \<times> nat list) list
    \<Rightarrow> route_state \<Rightarrow> link \<Rightarrow> route_state \<times> link" where
  "route_chat_loop posts pm threshold oom cfg now msgs [] s lk = (s, lk)"
| "route_chat_loop posts pm threshold oom cfg now msgs ((chat, items) # plan) s lk =
     (case send_batch posts pm threshold chat items lk of (failed, unc, lk) \<Rightarrow>
        route_chat_loop posts pm threshold oom cfg now msgs plan
          \<lparr>rs_got = rs_got s @ filter (\<lambda>i. i \<notin> set failed) items,
           rs_back = note_failed oom cfg now msgs failed unc (rs_back s),
           rs_unc = rs_unc s @ (if oom then unc else [])\<rparr> lk)"

text \<open>What to repeat, what arrived, what may have arrived.\<close>

definition send_routes :: "wire \<Rightarrow> bool \<Rightarrow> int \<Rightarrow> bool \<Rightarrow> alert_cfg \<Rightarrow> time \<Rightarrow> alert_msg list \<Rightarrow> link \<Rightarrow> sent_sets \<times> link" where
  "send_routes posts pm threshold oom cfg now msgs lk =
     (case route_chat_loop posts pm threshold oom cfg now msgs (route_plan cfg now msgs) \<lparr>rs_got = [], rs_back = [], rs_unc = []\<rparr> lk of
        (s, lk) \<Rightarrow>
          if rs_back s = [] then (\<lparr>ss_got = rs_got s, ss_again = [], ss_unc = rs_unc s\<rparr>, lk)
          else (case send_common posts pm threshold (cfg\<lparr>webhook := []\<rparr>) (rs_back s) lk of
                  (f, lk) \<Rightarrow>
                    (\<lparr>ss_got = rs_got s @ ss_got f,
                      ss_again = (if oom then filter (\<lambda>i. \<not> (i \<in> set (ss_unc f) \<and> am_kind (msgs ! i) = ''oom'')) (ss_again f) else ss_again f),
                      ss_unc = rs_unc s @ (if oom then ss_unc f else [])\<rparr>, lk)))"

text \<open>People: each gets what concerns them, until a request fails.\<close>

fun personal_each :: "wire \<Rightarrow> bool \<Rightarrow> string \<Rightarrow> nat list list \<Rightarrow> link \<Rightarrow> link" where
  "personal_each posts pm chat [] lk = lk"
| "personal_each posts pm chat (ids # batch) lk =
     (case link_tg posts pm (Personal chat) ids lk of
        (TgOk, lk) \<Rightarrow> personal_each posts pm chat batch lk
      | (_, lk) \<Rightarrow> lk)"

definition send_personal :: "wire \<Rightarrow> bool \<Rightarrow> int \<Rightarrow> alert_cfg \<Rightarrow> recipient list \<Rightarrow> alert_msg list \<Rightarrow> link \<Rightarrow> link" where
  "send_personal posts pm threshold cfg users msgs lk =
     fold (\<lambda>u lk.
       (let mine = filter (\<lambda>i. wants u (msgs ! i)) [0..<length msgs]
        in if rc_token u = [] \<and> telegram_token cfg = [] \<or> mine = [] then lk
           else personal_each posts pm (rc_chat u)
                  (if threshold \<noteq> 0 \<and> int (length mine) \<ge> threshold then [mine] else map (\<lambda>i. [i]) mine) lk)) users lk"

text \<open>The batch after the storms are merged: the numbers to repeat, that arrived, that may have arrived.\<close>

definition diff :: "nat list \<Rightarrow> nat list \<Rightarrow> nat list" where
  "diff xs ys = filter (\<lambda>x. x \<notin> set ys) xs"

definition on_main :: "alert_cfg \<Rightarrow> time \<Rightarrow> alert_msg \<Rightarrow> bool" where
  "on_main cfg now m \<longleftrightarrow> main_chat cfg \<noteq> [] \<and> main_chat cfg \<in> set (chats_for cfg now m)"

text \<open>The common chat gets what is meant for it, the webhook gets everything.\<close>

definition send_main :: "wire \<Rightarrow> bool \<Rightarrow> int \<Rightarrow> alert_cfg \<Rightarrow> time \<Rightarrow> alert_msg list \<Rightarrow> link \<Rightarrow> sent_sets \<times> link" where
  "send_main posts pm threshold cfg now msgs lk =
     (let everything = [0..<length msgs]
      in if main_chat cfg = [] \<or> list_all (on_main cfg now) msgs then send_common posts pm threshold cfg everything lk
         else (case send_common posts pm threshold (cfg\<lparr>webhook := []\<rparr>) (filter (\<lambda>i. on_main cfg now (msgs ! i)) everything) lk of
                 (c1, lk) \<Rightarrow>
                   if webhook cfg \<noteq> [] then
                     (case send_common posts pm threshold (cfg\<lparr>telegram_chat := []\<rparr>) everything lk of
                        (c2, lk) \<Rightarrow> (\<lparr>ss_got = ss_got c1 @ ss_got c2, ss_again = ss_again c1 @ ss_again c2, ss_unc = ss_unc c1\<rparr>, lk))
                   else (c1, lk)))"

definition send_all :: "wire \<Rightarrow> bool \<Rightarrow> int \<Rightarrow> bool \<Rightarrow> alert_cfg \<Rightarrow> time \<Rightarrow> alert_msg list \<Rightarrow> link \<Rightarrow> sent_sets \<times> link" where
  "send_all posts pm threshold oom cfg now msgs lk =
     (let (c, lk) = send_main posts pm threshold cfg now msgs lk;
          again = diff (ss_again c) (ss_got c);
          (r, lk) = (if telegram_token cfg \<noteq> [] then send_routes posts pm threshold oom cfg now msgs lk else (ss_empty, lk));
          again = diff again (filter (\<lambda>i. \<not> on_main cfg now (msgs ! i)) (ss_got r));
          again = (if oom then diff again (filter (\<lambda>i. am_kind (msgs ! i) = ''oom'') (ss_unc c @ ss_unc r)) else again)
      in (\<lparr>ss_got = ss_got c @ ss_got r, ss_again = again @ ss_again r, ss_unc = ss_unc c @ ss_unc r\<rparr>, lk))"

text \<open>The servers whose out-of-memory alert is not to be repeated.\<close>

definition oom_servers :: "alert_msg list \<Rightarrow> nat list \<Rightarrow> int list" where
  "oom_servers msgs idx =
     concat (map (\<lambda>i. concat (map (\<lambda>(kind, _, ref). if kind = ''oom'' \<and> fst (ref_ids ref) = ''srv'' then snd (ref_ids ref) else [])
       (msg_parts (msgs ! i)))) idx)"

text \<open>The answer of \<open>dispatch\<close>: its value, and what it writes into \<open>finished\<close> and \<open>oom_finished\<close>; and the connection.\<close>

record delivery =
  dl_ok :: bool
  dl_finished :: "nat list"
  dl_oom :: "int list"
  dl_link :: link

definition dispatch :: "wire \<Rightarrow> bool \<Rightarrow> int \<Rightarrow> bool \<Rightarrow> alert_cfg \<Rightarrow> bool \<Rightarrow> recipient list \<Rightarrow> time \<Rightarrow> alert_msg list \<Rightarrow> delivery" where
  "dispatch posts pm threshold oom cfg can_send users now messages =
     (if messages = [] then \<lparr>dl_ok = True, dl_finished = [], dl_oom = [], dl_link = link0\<rparr>
      else if \<not> can_send then \<lparr>dl_ok = False, dl_finished = [], dl_oom = [], dl_link = link0\<rparr>
      else (let (msgs, origins) = merge_storm messages;
                lk = send_personal posts pm threshold cfg users msgs link0;
                (s, lk) = send_all posts pm threshold oom cfg now msgs lk
            in \<lparr>dl_ok = (ss_again s = []),
                dl_finished = concat (map (\<lambda>i. if i \<in> set (ss_again s) then [] else origins ! i) [0..<length msgs]),
                dl_oom = (if oom then oom_servers msgs (ss_got s @ ss_unc s) else []), dl_link = lk\<rparr>))"

section \<open>What the log shows\<close>

fun common :: "dest \<Rightarrow> bool" where
  "common (Personal _) = False"
| "common _ = True"

text \<open>A message reached a channel that is not a person's own; Telegram refused it for good there; a request for it failed on the
  way after it may have arrived.\<close>

definition reached :: "link \<Rightarrow> nat \<Rightarrow> bool" where
  "reached lk i \<longleftrightarrow> (\<exists>(d, ids)\<in>set (lk_ok lk). common d \<and> i \<in> set ids)"

definition refused :: "link \<Rightarrow> nat \<Rightarrow> bool" where
  "refused lk i \<longleftrightarrow> (\<exists>(d, ids)\<in>set (lk_rej lk). common d \<and> i \<in> set ids)"

definition doubtful :: "link \<Rightarrow> nat \<Rightarrow> bool" where
  "doubtful lk i \<longleftrightarrow> (\<exists>(d, ids)\<in>set (lk_unc lk). common d \<and> i \<in> set ids)"

definition grows :: "link \<Rightarrow> link \<Rightarrow> bool" where
  "grows lk lk' \<longleftrightarrow> set (lk_ok lk) \<subseteq> set (lk_ok lk') \<and> set (lk_rej lk) \<subseteq> set (lk_rej lk') \<and> set (lk_unc lk) \<subseteq> set (lk_unc lk')"

lemma grows_refl [simp]: "grows lk lk"
  by (simp add: grows_def)

lemma grows_trans [trans]: "grows a b \<Longrightarrow> grows b c \<Longrightarrow> grows a c"
  by (auto simp: grows_def)

lemma reached_mono: "grows a b \<Longrightarrow> reached a i \<Longrightarrow> reached b i"
  unfolding grows_def reached_def by blast

lemma refused_mono: "grows a b \<Longrightarrow> refused a i \<Longrightarrow> refused b i"
  unfolding grows_def refused_def by blast

lemma doubtful_mono: "grows a b \<Longrightarrow> doubtful a i \<Longrightarrow> doubtful b i"
  unfolding grows_def doubtful_def by blast

lemma tg_send_log: "tg_send posts pm lk = (r, lk') \<Longrightarrow> lk_ok lk' = lk_ok lk \<and> lk_rej lk' = lk_rej lk \<and> lk_unc lk' = lk_unc lk"
  by (auto simp: tg_send_def post_def Let_def split: if_splits)

lemma tg_send_sure: "tg_send posts pm lk \<noteq> (Inr (TgFailed True), lk')"
  by (auto simp: tg_send_def Let_def split: prod.splits post_result.splits if_splits)

lemma link_tg_log:
  assumes "link_tg posts pm d ids lk = (r, lk')"
  shows "grows lk lk'" "r = TgOk \<Longrightarrow> (d, ids) \<in> set (lk_ok lk')" "r = TgRejected \<Longrightarrow> (d, ids) \<in> set (lk_rej lk')"
    "r = TgFailed True \<Longrightarrow> (d, ids) \<in> set (lk_unc lk')"
  using assms tg_send_log [of posts pm lk] tg_send_sure [of posts pm lk]
  by (auto simp: link_tg_def grows_def split: if_splits prod.splits sum.splits tg_result.splits)

lemma link_hook_log:
  assumes "link_hook posts ids lk = (err, lk')"
  shows "grows lk lk'" "\<not> err \<Longrightarrow> (Hook, ids) \<in> set (lk_ok lk')"
  using assms by (auto simp: link_hook_def post_def grows_def split: if_splits post_result.splits)

lemma logged: "(d, ids) \<in> set (lk_ok lk) \<Longrightarrow> common d \<Longrightarrow> i \<in> set ids \<Longrightarrow> reached lk i"
  "(d, ids) \<in> set (lk_rej lk) \<Longrightarrow> common d \<Longrightarrow> i \<in> set ids \<Longrightarrow> refused lk i"
  "(d, ids) \<in> set (lk_unc lk) \<Longrightarrow> common d \<Longrightarrow> i \<in> set ids \<Longrightarrow> doubtful lk i"
  by (auto simp: reached_def refused_def doubtful_def)

lemma send_alert_log:
  assumes "send_alert posts pm cfg ids lk = (e, lk')"
  shows "grows lk lk'" "se_n e < channel_count cfg \<Longrightarrow> i \<in> set ids \<Longrightarrow> reached lk' i"
    "0 < se_rejected e \<Longrightarrow> i \<in> set ids \<Longrightarrow> refused lk' i" "se_rejected e \<le> se_n e"
    "se_uncertain e \<Longrightarrow> i \<in> set ids \<Longrightarrow> doubtful lk' i"
proof -
  define tg where "tg \<longleftrightarrow> telegram_token cfg \<noteq> [] \<and> telegram_chat cfg \<noteq> []"
  obtain e1 lk1 where 1: "(if tg then (case link_tg posts pm (Chat (telegram_chat cfg)) ids lk of
                  (TgOk, lk) \<Rightarrow> (\<lparr>se_n = 0, se_rejected = 0, se_uncertain = False\<rparr>, lk)
                | (TgRejected, lk) \<Rightarrow> (\<lparr>se_n = 1, se_rejected = 1, se_uncertain = False\<rparr>, lk)
                | (TgFailed u, lk) \<Rightarrow> (\<lparr>se_n = 1, se_rejected = 0, se_uncertain = u\<rparr>, lk))
             else (\<lparr>se_n = 0, se_rejected = 0, se_uncertain = False\<rparr>, lk)) = (e1, lk1)"
    by fastforce
  have f1: "grows lk lk1 \<and> se_rejected e1 \<le> se_n e1 \<and> (tg \<and> se_n e1 = 0 \<longrightarrow> (\<forall>i\<in>set ids. reached lk1 i))
      \<and> (0 < se_rejected e1 \<longrightarrow> (\<forall>i\<in>set ids. refused lk1 i)) \<and> (se_uncertain e1 \<longrightarrow> (\<forall>i\<in>set ids. doubtful lk1 i)) \<and> se_n e1 \<le> (if tg then 1 else 0)"
    using 1 link_tg_log [of posts pm "Chat (telegram_chat cfg)" ids lk]
    by (auto split: if_splits prod.splits tg_result.splits intro: logged)
  have f2: "if webhook cfg = [] then e = e1 \<and> lk' = lk1
      else grows lk1 lk' \<and> (se_n e = se_n e1 + 1 \<or> se_n e = se_n e1 \<and> (\<forall>i\<in>set ids. reached lk' i)) \<and> se_rejected e = se_rejected e1 \<and> se_uncertain e = se_uncertain e1"
  proof -
    obtain err lk2 where h: "link_hook posts ids lk1 = (err, lk2)" by fastforce
    have "\<not> err \<Longrightarrow> \<forall>i\<in>set ids. reached lk2 i" using link_hook_log(2) [OF h] logged(1) [of Hook ids lk2] by auto
    then show ?thesis
      using assms link_hook_log(1) [OF h] unfolding send_alert_def tg_def [symmetric] 1
      by (auto simp: h split: if_splits)
  qed
  have c: "channel_count cfg = (if tg then 1 else 0) + (if webhook cfg \<noteq> [] then 1 else 0)" by (simp add: channel_count_def tg_def)
  show "grows lk lk'" using f1 f2 grows_trans by (auto split: if_splits)
  show "se_rejected e \<le> se_n e" using f1 f2 by (auto split: if_splits)
  show "reached lk' i" if "se_n e < channel_count cfg" "i \<in> set ids"
    using that f1 f2 c by (auto split: if_splits intro: reached_mono)
  show "refused lk' i" if "0 < se_rejected e" "i \<in> set ids"
    using that f1 f2 by (auto split: if_splits intro: refused_mono)
  show "doubtful lk' i" if "se_uncertain e" "i \<in> set ids"
    using that f1 f2 by (auto split: if_splits intro: doubtful_mono)
qed

lemma outcome_sound:
  assumes "send_alert posts pm cfg ids lk = (e, lk')" "outcome_of e (channel_count cfg) = (got, again)" "0 < channel_count cfg" "i \<in> set ids"
  shows "got \<Longrightarrow> reached lk' i" "\<not> again \<Longrightarrow> reached lk' i \<or> refused lk' i"
proof -
  show "got \<Longrightarrow> reached lk' i" using assms send_alert_log(2) [OF assms(1)] by (auto simp: outcome_of_def Let_def)
  show "\<not> again \<Longrightarrow> reached lk' i \<or> refused lk' i"
    using assms send_alert_log(2,3) [OF assms(1) _ assms(4)] by (cases "se_n e < channel_count cfg") (auto simp: outcome_of_def Let_def)
qed

lemma send_each_log:
  assumes "send_each posts pm cfg is s lk = (s', lk')" "0 < channel_count cfg"
  shows "grows lk lk'" "set (ss_again s) \<subseteq> set (ss_again s')"
    "i \<in> set is \<Longrightarrow> i \<notin> set (ss_again s') \<Longrightarrow> reached lk' i \<or> refused lk' i"
    "i \<in> set (ss_got s') \<Longrightarrow> i \<in> set (ss_got s) \<or> reached lk' i"
    "i \<in> set (ss_unc s') \<Longrightarrow> i \<in> set (ss_unc s) \<or> doubtful lk' i"
proof -
  have "grows lk lk' \<and> set (ss_again s) \<subseteq> set (ss_again s') \<and> (\<forall>i\<in>set is. i \<notin> set (ss_again s') \<longrightarrow> reached lk' i \<or> refused lk' i)
      \<and> (\<forall>i\<in>set (ss_got s'). i \<in> set (ss_got s) \<or> reached lk' i)
      \<and> (\<forall>i\<in>set (ss_unc s'). i \<in> set (ss_unc s) \<or> doubtful lk' i)"
    using assms(1)
  proof (induction "is" arbitrary: s lk)
    case (Cons j js)
    obtain e lk1 where 1: "send_alert posts pm cfg [j] lk = (e, lk1)" by fastforce
    obtain got again where o: "outcome_of e (channel_count cfg) = (got, again)" by fastforce
    from Cons.prems 1 have rest: "send_each posts pm cfg js (ss_add [j] e (channel_count cfg) s) lk1 = (s', lk')" by simp
    note IH = Cons.IH [OF rest]
    have "reached lk' j" if got using outcome_sound(1) [OF 1 o assms(2)] IH that by (auto intro: reached_mono)
    moreover have "reached lk' j \<or> refused lk' j" if "\<not> again"
      using outcome_sound(2) [OF 1 o assms(2)] IH that by (auto intro: reached_mono refused_mono)
    moreover have "doubtful lk' j" if "se_uncertain e"
      using send_alert_log(5) [OF 1 that, of j] IH by (auto intro: doubtful_mono)
    moreover have "grows lk lk'" using send_alert_log(1) [OF 1] IH grows_trans by blast
    ultimately show ?case using IH by (auto simp: ss_add_def o split: if_splits)
  qed simp
  then show "grows lk lk'" "set (ss_again s) \<subseteq> set (ss_again s')"
    "i \<in> set is \<Longrightarrow> i \<notin> set (ss_again s') \<Longrightarrow> reached lk' i \<or> refused lk' i"
    "i \<in> set (ss_got s') \<Longrightarrow> i \<in> set (ss_got s) \<or> reached lk' i"
    "i \<in> set (ss_unc s') \<Longrightarrow> i \<in> set (ss_unc s) \<or> doubtful lk' i"
    by blast+
qed

lemma send_common_log:
  assumes "send_common posts pm threshold cfg idx lk = (s, lk')"
  shows "grows lk lk'" "i \<in> set idx \<Longrightarrow> 0 < channel_count cfg \<Longrightarrow> i \<notin> set (ss_again s) \<Longrightarrow> reached lk' i \<or> refused lk' i"
    "i \<in> set (ss_got s) \<Longrightarrow> reached lk' i" "i \<in> set (ss_unc s) \<Longrightarrow> doubtful lk' i"
proof -
  consider (none) "idx = [] \<or> channel_count cfg = 0" "s = ss_empty" "lk' = lk"
    | (digest) e where "0 < channel_count cfg" "send_alert posts pm cfg idx lk = (e, lk')" "s = ss_add idx e (channel_count cfg) ss_empty"
    | (each) "0 < channel_count cfg" "send_each posts pm cfg idx ss_empty lk = (s, lk')"
    using assms by (auto simp: send_common_def split: if_splits prod.splits)
  then have "grows lk lk' \<and> (\<forall>i. i \<in> set idx \<and> 0 < channel_count cfg \<and> i \<notin> set (ss_again s) \<longrightarrow> reached lk' i \<or> refused lk' i)
      \<and> (\<forall>i\<in>set (ss_got s). reached lk' i) \<and> (\<forall>i\<in>set (ss_unc s). doubtful lk' i)"
  proof cases
    case none
    then show ?thesis by (auto simp: ss_empty_def)
  next
    case digest
    obtain got again where o: "outcome_of e (channel_count cfg) = (got, again)" by fastforce
    show ?thesis
      using send_alert_log(1,5) [OF digest(2)] outcome_sound [OF digest(2) o digest(1)]
      by (auto simp: digest(3) ss_add_def ss_empty_def o split: if_splits)
  next
    case each
    show ?thesis using send_each_log [OF each(2,1)] by (auto simp: ss_empty_def)
  qed
  then show "grows lk lk'" "i \<in> set idx \<Longrightarrow> 0 < channel_count cfg \<Longrightarrow> i \<notin> set (ss_again s) \<Longrightarrow> reached lk' i \<or> refused lk' i"
    "i \<in> set (ss_got s) \<Longrightarrow> reached lk' i" "i \<in> set (ss_unc s) \<Longrightarrow> doubtful lk' i"
    by blast+
qed

lemma batch_each_log:
  "batch_each posts pm chat items lk = (failed, unc, lk') \<Longrightarrow> grows lk lk' \<and> (\<forall>i\<in>set items. i \<notin> set failed \<longrightarrow> reached lk' i) \<and> set failed \<subseteq> set items
    \<and> (\<forall>i\<in>set unc. doubtful lk' i)"
proof (induction items arbitrary: lk failed unc)
  case (Cons j js)
  obtain r lk1 where 1: "link_tg posts pm (Chat chat) [j] lk = (r, lk1)" by fastforce
  obtain f u where 2: "batch_each posts pm chat js lk1 = (f, u, lk')" using Cons.prems 1 by (auto split: prod.splits)
  have f: "failed = (if r = TgOk then f else j # f)" using Cons.prems by (simp add: 1 2)
  have "reached lk' j" if "r = TgOk"
    using link_tg_log(2) [OF 1 that] logged(1) [of "Chat chat" "[j]" lk1 j] Cons.IH [OF 2] by (auto intro: reached_mono)
  moreover have "unc = (if r = TgFailed True then j # u else u)" using Cons.prems by (simp add: 1 2)
  moreover have "doubtful lk' j" if "r = TgFailed True"
    using link_tg_log(4) [OF 1 that] logged(3) [of "Chat chat" "[j]" lk1 j] Cons.IH [OF 2] by (auto intro: doubtful_mono)
  ultimately show ?case using Cons.IH [OF 2] link_tg_log(1) [OF 1] grows_trans by (auto simp: f)
qed simp

lemma send_batch_log:
  assumes "send_batch posts pm threshold chat items lk = (failed, unc, lk')"
  shows "grows lk lk' \<and> (\<forall>i\<in>set items. i \<notin> set failed \<longrightarrow> reached lk' i) \<and> (\<forall>i\<in>set unc. doubtful lk' i)"
proof (cases "threshold \<noteq> 0 \<and> int (length items) \<ge> threshold")
  case True
  obtain r lk1 where 1: "link_tg posts pm (Chat chat) items lk = (r, lk1)" by fastforce
  with True assms have "lk' = lk1" "failed = (if r = TgOk then [] else items)" "unc = (if r = TgFailed True then items else [])" by (auto simp: send_batch_def)
  then show ?thesis
    using link_tg_log(1,2,4) [OF 1] logged(1,3) [of "Chat chat" items lk1] by auto
next
  case False
  then show ?thesis using assms batch_each_log by (auto simp: send_batch_def)
qed


text \<open>What a chat of a group did not take is left to the common chat, except where that chat gets the message anyway.\<close>

text \<open>The messages that are not repeated though nobody is known to have taken them: out-of-memory alerts whose request failed after
  it may have arrived, when the caller asks for it.\<close>

definition excused :: "bool \<Rightarrow> link \<Rightarrow> nat \<Rightarrow> alert_msg \<Rightarrow> bool" where
  "excused oom lk i m \<longleftrightarrow> oom \<and> am_kind m = ''oom'' \<and> doubtful lk i"

lemma excused_mono: "grows a b \<Longrightarrow> excused oom a i m \<Longrightarrow> excused oom b i m"
  using doubtful_mono by (auto simp: excused_def)

definition covered :: "alert_cfg \<Rightarrow> time \<Rightarrow> alert_msg \<Rightarrow> bool" where
  "covered cfg now m \<longleftrightarrow> telegram_chat cfg = [] \<or> telegram_chat cfg \<in> set (chats_for cfg now m)"

lemma note_one_mono: "set bk \<subseteq> set (note_one oom cfg now msgs unc i bk)"
  by (auto simp: note_one_def)

lemma note_fold_mono: "set bk \<subseteq> set (fold (note_one oom cfg now msgs unc) failed bk)"
proof (induction failed arbitrary: bk)
  case (Cons j js)
  show ?case using note_one_mono Cons.IH by (simp; blast)
qed simp

lemma note_failed_keeps:
  "set bk \<subseteq> set (note_failed oom cfg now msgs failed unc bk)"
  "i \<in> set failed \<Longrightarrow> \<not> covered cfg now (msgs ! i) \<Longrightarrow> \<not> (oom \<and> i \<in> set unc \<and> am_kind (msgs ! i) = ''oom'') \<Longrightarrow> i \<in> set (note_failed oom cfg now msgs failed unc bk)"
proof -
  show "set bk \<subseteq> set (note_failed oom cfg now msgs failed unc bk)" unfolding note_failed_def by (rule note_fold_mono)
  show "i \<in> set (note_failed oom cfg now msgs failed unc bk)"
    if "i \<in> set failed" "\<not> covered cfg now (msgs ! i)" "\<not> (oom \<and> i \<in> set unc \<and> am_kind (msgs ! i) = ''oom'')"
    using that(1) unfolding note_failed_def
  proof (induction failed arbitrary: bk)
    case (Cons j js)
    show ?case
    proof (cases "i = j")
      case True
      then have "i \<in> set (note_one oom cfg now msgs unc j bk)" using that by (auto simp: note_one_def covered_def)
      then show ?thesis using note_fold_mono by (simp; blast)
    next
      case False
      then show ?thesis using Cons by simp
    qed
  qed simp
qed

lemma route_chat_loop_log:
  assumes "route_chat_loop posts pm threshold oom cfg now msgs plan s lk = (s', lk')" "\<forall>i\<in>set (rs_got s). reached lk i"
  shows "grows lk lk' \<and> (\<forall>i\<in>set (rs_got s'). reached lk' i) \<and> set (rs_got s) \<subseteq> set (rs_got s') \<and> set (rs_back s) \<subseteq> set (rs_back s')
    \<and> (\<forall>chat items i. (chat, items) \<in> set plan \<longrightarrow> i \<in> set items \<longrightarrow> \<not> covered cfg now (msgs ! i)
         \<longrightarrow> i \<in> set (rs_got s') \<or> i \<in> set (rs_back s') \<or> excused oom lk' i (msgs ! i))
    \<and> (\<forall>i\<in>set (rs_unc s'). i \<in> set (rs_unc s) \<or> doubtful lk' i)"
  using assms
proof (induction plan arbitrary: s lk)
  case (Cons p plan)
  obtain chat items where p: "p = (chat, items)" by fastforce
  obtain failed unc lk1 where 1: "send_batch posts pm threshold chat items lk = (failed, unc, lk1)" by (metis prod_cases3)
  define s1 where "s1 = \<lparr>rs_got = rs_got s @ filter (\<lambda>i. i \<notin> set failed) items,
           rs_back = note_failed oom cfg now msgs failed unc (rs_back s), rs_unc = rs_unc s @ (if oom then unc else [])\<rparr>"
  have rest: "route_chat_loop posts pm threshold oom cfg now msgs plan s1 lk1 = (s', lk')"
    using Cons.prems(1) by (simp add: p 1 s1_def)
  have log: "grows lk lk1" "\<forall>i\<in>set items. i \<notin> set failed \<longrightarrow> reached lk1 i" "\<forall>i\<in>set unc. doubtful lk1 i"
    using send_batch_log [OF 1] by auto
  have "\<forall>i\<in>set (rs_got s1). reached lk1 i" using log Cons.prems(2) reached_mono by (auto simp: s1_def)
  note IH = Cons.IH [OF rest this]
  have g: "grows lk1 lk'" using IH by blast
  have "i \<in> set (rs_got s1) \<or> i \<in> set (rs_back s1) \<or> excused oom lk' i (msgs ! i)"
    if "i \<in> set items" "\<not> covered cfg now (msgs ! i)" for i
    using that note_failed_keeps(2) [of i failed cfg now msgs oom unc "rs_back s"] log(3) doubtful_mono [OF g, of i] by (auto simp: s1_def excused_def)
  moreover have "i \<in> set (rs_unc s) \<or> doubtful lk' i" if "i \<in> set (rs_unc s1)" for i
    using that log(3) doubtful_mono [OF g] by (auto simp: s1_def split: if_splits)
  moreover have "set (rs_got s) \<subseteq> set (rs_got s1)" "set (rs_back s) \<subseteq> set (rs_back s1)"
    using note_failed_keeps(1) by (auto simp: s1_def)
  ultimately show ?case using IH log(1) grows_trans unfolding p by (auto; blast)
qed simp


section \<open>Buckets and storms\<close>

definition keyed :: "('k \<times> nat) list \<Rightarrow> 'k \<Rightarrow> nat list" where
  "keyed xs k = map snd (filter (\<lambda>x. fst x = k) xs)"

lemma map_of_buckets: "map_of (fold bucket_add xs []) k = (if keyed xs k = [] then None else Some (keyed xs k))"
proof (induction xs arbitrary: k rule: rev_induct)
  case (snoc x xs)
  have "map_of (fold bucket_add (xs @ [x]) []) k = ((map_of (fold bucket_add xs [])) (fst x \<mapsto> keyed xs (fst x) @ [snd x])) k"
    by (simp add: bucket_add_def update_conv' snoc.IH)
  then show ?case using snoc.IH [of k] by (auto simp: keyed_def)
qed (simp add: keyed_def)

lemma bucket_keys: "distinct (map fst (fold bucket_add xs []))"
  by (induction xs rule: rev_induct) (simp_all add: bucket_add_def distinct_update)

lemma in_buckets: "(k, is) \<in> set (fold bucket_add xs []) \<longleftrightarrow> is = keyed xs k \<and> is \<noteq> []"
  using map_of_eq_Some_iff [OF bucket_keys, of xs k "is"] by (auto simp: map_of_buckets split: if_splits)

lemma storm_groups_buckets:
  "storm_groups msgs = fold bucket_add (List.map_filter (\<lambda>i. map_option (\<lambda>k. (k, i)) (storm_key (msgs ! i))) [0..<length msgs]) []"
proof -
  have "fold (\<lambda>i g. case storm_key (msgs ! i) of None \<Rightarrow> g | Some k \<Rightarrow> bucket_add (k, i) g) xs g
      = fold bucket_add (List.map_filter (\<lambda>i. map_option (\<lambda>k. (k, i)) (storm_key (msgs ! i))) xs) g" for xs g
    by (induction xs arbitrary: g) (auto simp: map_filter_simps split: option.splits)
  then show ?thesis by (simp add: storm_groups_def)
qed

lemma keyed_storm:
  "keyed (List.map_filter (\<lambda>i. map_option (\<lambda>k. (k, i)) (storm_key (msgs ! i))) xs) k = filter (\<lambda>i. storm_key (msgs ! i) = Some k) xs"
  by (induction xs) (auto simp: keyed_def map_filter_simps split: option.splits)

lemma in_storm_groups:
  "(k, is) \<in> set (storm_groups msgs) \<longleftrightarrow> is = filter (\<lambda>i. storm_key (msgs ! i) = Some k) [0..<length msgs] \<and> is \<noteq> []"
  unfolding storm_groups_buckets in_buckets keyed_storm ..


lemma in_storm_big:
  assumes "(h, is) \<in> set (storm_big msgs)"
  obtains k where "is = filter (\<lambda>i. storm_key (msgs ! i) = Some k) [0..<length msgs]" "is \<noteq> []" "h = hd is"
    "card ((\<lambda>i. am_target (msgs ! i)) ` set is) \<ge> STORM_MIN"
proof -
  from assms obtain k where "(k, is) \<in> set (storm_groups msgs)" "h = hd is"
      "length (remdups (map (\<lambda>i. am_target (msgs ! i)) is)) \<ge> STORM_MIN"
    by (auto simp: storm_big_def)
  then show ?thesis using that [of k] unfolding in_storm_groups length_remdups_card_conv by force
qed

lemma storm_big_one: "(h, is) \<in> set (storm_big msgs) \<Longrightarrow> (h', is') \<in> set (storm_big msgs) \<Longrightarrow> j \<in> set is \<Longrightarrow> j \<in> set is' \<Longrightarrow> is = is' \<and> h = h'"
  by (elim in_storm_big) auto

lemma storm_big_head:
  assumes "(h, is) \<in> set (storm_big msgs)"
  shows "is = h # tl is \<and> h \<notin> set (tl is) \<and> distinct is \<and> set is \<subseteq> {..<length msgs}"
proof -
  from assms obtain k where k: "is = filter (\<lambda>i. storm_key (msgs ! i) = Some k) [0..<length msgs]" "is \<noteq> []" "h = hd is"
    by (rule in_storm_big)
  have "distinct is" "set is \<subseteq> {..<length msgs}" by (auto simp: k(1))
  with k(2,3) show ?thesis by (cases "is") auto
qed

lemma storm_big_lookup: "map_of (storm_big msgs) h = Some is \<longleftrightarrow> (h, is) \<in> set (storm_big msgs)"
proof
  assume m: "(h, is) \<in> set (storm_big msgs)"
  then obtain is' where "map_of (storm_big msgs) h = Some is'" by (metis weak_map_of_SomeI)
  with m storm_big_one storm_big_head map_of_SomeD show "map_of (storm_big msgs) h = Some is" by (metis list.set_intros(1))
qed (rule map_of_SomeD)

definition storm_own :: "alert_msg list \<Rightarrow> nat \<Rightarrow> nat list" where
  "storm_own msgs i = (case map_of (storm_big msgs) i of Some is \<Rightarrow> is | None \<Rightarrow> [i])"

definition storm_kept :: "alert_msg list \<Rightarrow> nat list" where
  "storm_kept msgs = filter (\<lambda>i. i \<notin> set (concat (map (\<lambda>(_, is). tl is) (storm_big msgs)))) [0..<length msgs]"

lemma in_storm_kept: "i \<in> set (storm_kept msgs) \<longleftrightarrow> i < length msgs \<and> (\<forall>h is. (h, is) \<in> set (storm_big msgs) \<longrightarrow> i \<notin> set (tl is))"
  by (auto simp: storm_kept_def)

lemma origins_eq: "snd (merge_storm msgs) = map (storm_own msgs) (storm_kept msgs)"
  by (simp add: merge_storm_def Let_def storm_own_def storm_kept_def)

lemma storm_own_disjoint:
  assumes "i \<in> set (storm_kept msgs)" "i' \<in> set (storm_kept msgs)" "j \<in> set (storm_own msgs i)" "j \<in> set (storm_own msgs i')"
  shows "i = i'"
proof -
  have alone: False if "(h, is) \<in> set (storm_big msgs)" "k \<in> set is" "k \<in> set (storm_kept msgs)" "map_of (storm_big msgs) k = None" for h "is" k
  proof -
    have "k \<noteq> h" using that(1,4) storm_big_lookup [of msgs h "is"] by auto
    then have "k \<in> set (tl is)" using that(1,2) storm_big_head [of h "is" msgs] by (metis set_ConsD)
    then show False using that(1,3) by (auto simp: in_storm_kept)
  qed
  show ?thesis
    using assms alone storm_big_one by (auto simp: storm_own_def storm_big_lookup split: option.splits; metis)
qed

lemma storm_own_covers:
  assumes "j < length msgs"
  shows "\<exists>i\<in>set (storm_kept msgs). j \<in> set (storm_own msgs i)"
proof (cases "\<exists>h is. (h, is) \<in> set (storm_big msgs) \<and> j \<in> set is")
  case True
  then obtain h "is" where m: "(h, is) \<in> set (storm_big msgs)" "j \<in> set is" by blast
  have "h \<in> set is" "h < length msgs" using storm_big_head [OF m(1)] by (metis list.set_intros(1), metis lessThan_iff list.set_intros(1) subsetD)
  then have "h \<in> set (storm_kept msgs)"
    using m storm_big_one storm_big_head unfolding in_storm_kept by (metis list.set_sel(2) list.sel(2))
  with m show ?thesis by (intro bexI [of _ h]) (auto simp: storm_own_def storm_big_lookup [symmetric])
next
  case False
  then have "j \<in> set (storm_kept msgs)" using assms unfolding in_storm_kept by (metis list.set_sel(2) list.sel(2))
  moreover have "map_of (storm_big msgs) j = None"
    using False storm_big_lookup storm_big_head by (metis list.set_intros(1) not_None_eq)
  ultimately show ?thesis by (intro bexI [of _ j]) (auto simp: storm_own_def)
qed

lemma distinct_concat_map:
  "distinct xs \<Longrightarrow> (\<And>x. x \<in> set xs \<Longrightarrow> distinct (f x)) \<Longrightarrow>
   (\<And>x y j. x \<in> set xs \<Longrightarrow> y \<in> set xs \<Longrightarrow> j \<in> set (f x) \<Longrightarrow> j \<in> set (f y) \<Longrightarrow> x = y) \<Longrightarrow> distinct (concat (map f xs))"
  by (induction xs) (simp_all, blast)

lemma storm_key_fields:
  "storm_key m = Some k \<Longrightarrow> am_kind m = fst k \<and> am_section m = fst (snd k) \<and> am_group m = fst (snd (snd k)) \<and> am_recovery m = fst (snd (snd (snd k)))"
  by (auto simp: storm_key_def split: if_splits)

lemma storm_key_kind: "storm_key m = Some k \<Longrightarrow> am_kind m = fst k"
  by (simp add: storm_key_fields)

lemma storm_big_same:
  assumes "(h, is) \<in> set (storm_big msgs)" "j \<in> set is"
  shows "am_kind (msgs ! h) = am_kind (msgs ! j) \<and> am_section (msgs ! h) = am_section (msgs ! j)
    \<and> am_group (msgs ! h) = am_group (msgs ! j) \<and> am_recovery (msgs ! h) = am_recovery (msgs ! j)"
proof -
  from assms(1) obtain k where k: "is = filter (\<lambda>i. storm_key (msgs ! i) = Some k) [0..<length msgs]" by (rule in_storm_big)
  have "h \<in> set is" using storm_big_head [OF assms(1)] by (metis list.set_intros(1))
  with assms(2) have "storm_key (msgs ! h) = Some k" "storm_key (msgs ! j) = Some k" by (simp_all add: k)
  then show ?thesis using storm_key_fields by metis
qed

lemma storm_big_several:
  assumes "(h, is) \<in> set (storm_big msgs)"
  obtains a b cs where "is = a # b # cs" "a = h"
proof -
  from assms obtain k where k: "card ((\<lambda>i. am_target (msgs ! i)) ` set is) \<ge> STORM_MIN" "h = hd is" by (rule in_storm_big) auto
  have "card ((\<lambda>i. am_target (msgs ! i)) ` set is) \<le> length is" by (metis card_image_le card_length le_trans List.finite_set)
  with k(1) have "3 \<le> length is" by (simp add: STORM_MIN_def)
  then show ?thesis using that k(2) by (cases "is"; cases "tl is") auto
qed

text \<open>What a merged message says, and that a message on its own is not changed.\<close>

definition stands_for :: "alert_msg list \<Rightarrow> nat list \<Rightarrow> alert_msg \<Rightarrow> bool" where
  "stands_for msgs is m \<longleftrightarrow>
     (case is of
        [i] \<Rightarrow> m = msgs ! i
      | is \<Rightarrow> am_target m = join '', '' (firsts (map (\<lambda>i. am_target (msgs ! i)) is))
          \<and> am_parts m = map (\<lambda>i. (am_kind (msgs ! i), am_target (msgs ! i), am_ref (msgs ! i))) is
          \<and> (\<forall>i\<in>set is. am_kind m = am_kind (msgs ! i) \<and> am_section m = am_section (msgs ! i)
               \<and> am_group m = am_group (msgs ! i) \<and> am_recovery m = am_recovery (msgs ! i)))"

lemma merged_text:
  assumes "k < length (snd (merge_storm msgs))"
  shows "stands_for msgs (snd (merge_storm msgs) ! k) (fst (merge_storm msgs) ! k)"
proof -
  have k: "k < length (storm_kept msgs)" using assms by (simp add: origins_eq)
  have own: "snd (merge_storm msgs) ! k = storm_own msgs (storm_kept msgs ! k)" using k by (simp add: origins_eq)
  have out: "fst (merge_storm msgs) ! k = (case map_of (storm_big msgs) (storm_kept msgs ! k) of
      Some is \<Rightarrow> storm_msg (map (\<lambda>j. msgs ! j) is) | None \<Rightarrow> msgs ! (storm_kept msgs ! k))"
    using k unfolding merge_storm_def Let_def storm_kept_def [symmetric] by simp
  show ?thesis
  proof (cases "map_of (storm_big msgs) (storm_kept msgs ! k)")
    case None
    then show ?thesis by (simp add: stands_for_def out own storm_own_def)
  next
    case (Some "is")
    then have m: "(storm_kept msgs ! k, is) \<in> set (storm_big msgs)" by (rule map_of_SomeD)
    from m obtain a b cs where i: "is = a # b # cs" "a = storm_kept msgs ! k" by (rule storm_big_several)
    have own': "snd (merge_storm msgs) ! k = a # b # cs" using Some by (simp add: own storm_own_def i)
    have out': "fst (merge_storm msgs) ! k = storm_msg (map (\<lambda>j. msgs ! j) (a # b # cs))" using Some by (simp add: out i)
    have same: "\<forall>j\<in>set (a # b # cs). am_kind (msgs ! a) = am_kind (msgs ! j) \<and> am_section (msgs ! a) = am_section (msgs ! j)
        \<and> am_group (msgs ! a) = am_group (msgs ! j) \<and> am_recovery (msgs ! a) = am_recovery (msgs ! j)"
      using storm_big_same [OF m] i by blast
    show ?thesis
      unfolding stands_for_def own' out' list.case using same by (simp add: storm_msg_def Let_def comp_def del: firsts.simps join.simps) metis
  qed
qed

lemma storm_big_kind:
  assumes "(h, is) \<in> set (storm_big msgs)" "j \<in> set is"
  shows "am_kind (msgs ! j) = am_kind (msgs ! h)"
proof -
  from assms(1) obtain k where k: "is = filter (\<lambda>i. storm_key (msgs ! i) = Some k) [0..<length msgs]" by (rule in_storm_big)
  have "h \<in> set is" using storm_big_head [OF assms(1)] by (metis list.set_intros(1))
  with assms(2) show ?thesis using storm_key_kind unfolding k by auto
qed

text \<open>C13. Merging a storm loses and repeats nothing: the outgoing messages stand for the messages of the batch, each for its own ones and
  every message of the batch in exactly one of them.  A message that stands for one is that message.  One that stands for several
  has at least \<open>STORM_MIN\<close> servers, all with the same kind, section, group and state; it keeps these, names every one of the
  servers, and lists all its messages as its parts.\<close>

theorem merge_storm_partitions:
  assumes "merge_storm msgs = (out, origins)"
  shows "length out = length origins \<and> distinct (concat origins) \<and> set (concat origins) = {..<length msgs}
    \<and> (\<forall>is\<in>set origins. length is = 1 \<or>
         STORM_MIN \<le> card ((\<lambda>i. am_target (msgs ! i)) ` set is) \<and>
         (\<forall>i\<in>set is. \<forall>j\<in>set is. storm_key (msgs ! i) = storm_key (msgs ! j) \<and> storm_key (msgs ! i) \<noteq> None))
    \<and> (\<forall>k<length out. stands_for msgs (origins ! k) (out ! k))"
proof -
  have o: "origins = map (storm_own msgs) (storm_kept msgs)" using origins_eq [of msgs] assms by simp
  have "length out = length origins" using assms by (auto simp: merge_storm_def Let_def)
  moreover have "distinct (concat origins)" unfolding o
  proof (rule distinct_concat_map)
    show "distinct (storm_kept msgs)" by (simp add: storm_kept_def)
    show "distinct (storm_own msgs i)" for i using storm_big_head by (auto simp: storm_own_def storm_big_lookup split: option.splits)
  qed (rule storm_own_disjoint)
  moreover have "set (concat origins) = {..<length msgs}"
  proof
    have "set (storm_own msgs i) \<subseteq> {..<length msgs}" if "i \<in> set (storm_kept msgs)" for i
      using that storm_big_head by (auto simp: storm_own_def storm_big_lookup in_storm_kept split: option.splits)
    then show "set (concat origins) \<subseteq> {..<length msgs}" by (auto simp: o)
    show "{..<length msgs} \<subseteq> set (concat origins)" using storm_own_covers by (auto simp: o)
  qed
  moreover have "length is = 1 \<or> STORM_MIN \<le> card ((\<lambda>i. am_target (msgs ! i)) ` set is) \<and>
         (\<forall>i\<in>set is. \<forall>j\<in>set is. storm_key (msgs ! i) = storm_key (msgs ! j) \<and> storm_key (msgs ! i) \<noteq> None)" if m: "is \<in> set origins" for "is"
  proof -
    consider i where "is = [i]" | h where "(h, is) \<in> set (storm_big msgs)"
      using m by (auto simp: o storm_own_def split: option.splits dest!: map_of_SomeD)
    then show ?thesis
    proof cases
      case 2
      then obtain k where "is = filter (\<lambda>i. storm_key (msgs ! i) = Some k) [0..<length msgs]"
          "card ((\<lambda>i. am_target (msgs ! i)) ` set is) \<ge> STORM_MIN"
        by (rule in_storm_big)
      then show ?thesis by simp
    qed simp
  qed
  moreover have "stands_for msgs (origins ! k) (out ! k)" if "k < length out" for k
    using merged_text [of k msgs] that \<open>length out = length origins\<close> assms by simp
  ultimately show ?thesis by blast
qed


text \<open>An outgoing message has the kind of those it stands for.\<close>

lemma merged_kind:
  assumes "i < length (snd (merge_storm msgs))" "j \<in> set (snd (merge_storm msgs) ! i)"
  shows "am_kind (fst (merge_storm msgs) ! i) = am_kind (msgs ! j)"
proof -
  have i: "i < length (storm_kept msgs)" using assms(1) by (simp add: origins_eq)
  then have j: "j \<in> set (storm_own msgs (storm_kept msgs ! i))" using assms by (simp add: origins_eq)
  have out: "fst (merge_storm msgs) ! i = (case map_of (storm_big msgs) (storm_kept msgs ! i) of
      Some is \<Rightarrow> storm_msg (map (\<lambda>j. msgs ! j) is) | None \<Rightarrow> msgs ! (storm_kept msgs ! i))"
    using i unfolding merge_storm_def Let_def storm_kept_def [symmetric] by simp
  show ?thesis
  proof (cases "map_of (storm_big msgs) (storm_kept msgs ! i)")
    case None
    then show ?thesis using j by (simp add: out storm_own_def)
  next
    case (Some "is")
    then have m: "(storm_kept msgs ! i, is) \<in> set (storm_big msgs)" by (rule map_of_SomeD)
    have "is \<noteq> []" "hd is = storm_kept msgs ! i" using storm_big_head [OF m] by (metis list.distinct(1), metis list.sel(1))
    then have "am_kind (storm_msg (map (\<lambda>j. msgs ! j) is)) = am_kind (msgs ! (storm_kept msgs ! i))"
      by (simp add: storm_msg_def Let_def hd_map)
    then show ?thesis using storm_big_kind [OF m] j Some by (simp add: out storm_own_def)
  qed
qed

section \<open>No message is lost\<close>

lemma set_firsts [simp]: "set (firsts xs) = set xs"
  by (induction xs) auto

lemma in_route_plan:
  assumes "i < length msgs" "c \<in> set (chats_for cfg now (msgs ! i))" "c \<noteq> telegram_chat cfg"
  shows "\<exists>items. (c, items) \<in> set (route_plan cfg now msgs) \<and> i \<in> set items"
proof -
  let ?xs = "concat (map (\<lambda>i. map (\<lambda>c. (c, i)) (filter (\<lambda>c. c \<noteq> telegram_chat cfg) (chats_for cfg now (msgs ! i)))) [0..<length msgs])"
  have m: "i \<in> set (keyed ?xs c)" using assms unfolding keyed_def by force
  then have "(c, keyed ?xs c) \<in> set (route_plan cfg now msgs)" unfolding route_plan_def in_buckets by auto
  with m show ?thesis by blast
qed

text \<open>A message that the common chat does not get has a chat of its own.\<close>

lemma not_on_main:
  assumes "main_chat cfg \<noteq> []" "main_chat cfg \<notin> set (chats_for cfg now m)"
  shows "\<exists>c\<in>set (chats_for cfg now m). c \<noteq> telegram_chat cfg"
proof -
  have "main_chat cfg = telegram_chat cfg" "telegram_token cfg \<noteq> []" using assms(1) by (auto simp: main_chat_def split: if_splits)
  with assms show ?thesis by (cases "route_hits cfg m") (auto simp: chats_for_def Let_def split: if_splits)
qed

lemma send_routes_log:
  assumes "send_routes posts pm threshold oom cfg now msgs lk = (r, lk')"
  shows "grows lk lk'" "i \<in> set (ss_got r) \<Longrightarrow> reached lk' i"
    "i < length msgs \<Longrightarrow> main_chat cfg \<noteq> [] \<Longrightarrow> main_chat cfg \<notin> set (chats_for cfg now (msgs ! i)) \<Longrightarrow> i \<notin> set (ss_again r) \<Longrightarrow>
     reached lk' i \<or> refused lk' i \<or> excused oom lk' i (msgs ! i)"
    "i \<in> set (ss_unc r) \<Longrightarrow> doubtful lk' i"
proof -
  obtain s lk1 where 1: "route_chat_loop posts pm threshold oom cfg now msgs (route_plan cfg now msgs) \<lparr>rs_got = [], rs_back = [], rs_unc = []\<rparr> lk = (s, lk1)"
    by fastforce
  obtain f lk2 where 2: "send_common posts pm threshold (cfg\<lparr>webhook := []\<rparr>) (rs_back s) lk1 = (f, lk2)" by fastforce
  have loop: "grows lk lk1" "\<forall>i\<in>set (rs_got s). reached lk1 i"
    "\<And>chat items i. (chat, items) \<in> set (route_plan cfg now msgs) \<Longrightarrow> i \<in> set items \<Longrightarrow> \<not> covered cfg now (msgs ! i) \<Longrightarrow>
       i \<in> set (rs_got s) \<or> i \<in> set (rs_back s) \<or> excused oom lk1 i (msgs ! i)"
    "\<forall>i\<in>set (rs_unc s). doubtful lk1 i"
    using route_chat_loop_log [OF 1] by auto
  have lk': "lk' = (if rs_back s = [] then lk1 else lk2)" and r: "ss_got r = (if rs_back s = [] then rs_got s else rs_got s @ ss_got f)"
    "\<And>i. rs_back s \<noteq> [] \<Longrightarrow> i \<in> set (ss_again f) \<Longrightarrow> i \<in> set (ss_again r) \<or> oom \<and> i \<in> set (ss_unc f) \<and> am_kind (msgs ! i) = ''oom''"
    "set (ss_unc r) \<subseteq> set (rs_unc s) \<union> (if rs_back s = [] then {} else set (ss_unc f))"
    using assms unfolding send_routes_def 1 by (auto simp: 2 split: if_splits)
  have g: "grows lk1 lk'" using send_common_log(1) [OF 2] by (simp add: lk')
  with loop(1) show "grows lk lk'" by (rule grows_trans)
  have got: "i \<in> set (rs_got s) \<Longrightarrow> reached lk' i" for i using loop(2) reached_mono [OF g] by blast
  then show "i \<in> set (ss_got r) \<Longrightarrow> reached lk' i" using send_common_log(3) [OF 2] by (auto simp: r(1) lk' split: if_splits)
  show "i \<in> set (ss_unc r) \<Longrightarrow> doubtful lk' i"
    using r(3) loop(4) send_common_log(4) [OF 2] doubtful_mono [OF g] by (auto simp: lk' split: if_splits)
  assume i: "i < length msgs" "main_chat cfg \<noteq> []" "main_chat cfg \<notin> set (chats_for cfg now (msgs ! i))" "i \<notin> set (ss_again r)"
  have main: "main_chat cfg = telegram_chat cfg" "telegram_token cfg \<noteq> []" using i(2) by (auto simp: main_chat_def split: if_splits)
  have nc: "\<not> covered cfg now (msgs ! i)" using i(2,3) by (simp add: covered_def main)
  from not_on_main [OF i(2,3)] obtain c where "c \<in> set (chats_for cfg now (msgs ! i))" "c \<noteq> telegram_chat cfg" by blast
  from in_route_plan [OF i(1) this] obtain items where "(c, items) \<in> set (route_plan cfg now msgs)" "i \<in> set items" by blast
  from loop(3) [OF this nc] consider "excused oom lk1 i (msgs ! i)" | "oom" "i \<in> set (ss_unc f)" "am_kind (msgs ! i) = ''oom''" "rs_back s \<noteq> []" | "i \<in> set (rs_got s)" | "i \<in> set (rs_back s)" "i \<notin> set (ss_again f)"
    using r(2) [of i] i(4) by (cases "rs_back s = []") auto
  then show "reached lk' i \<or> refused lk' i \<or> excused oom lk' i (msgs ! i)"
  proof cases
    case 1
    then show ?thesis using excused_mono [OF g] by blast
  next
    case 2
    then show ?thesis using send_common_log(4) [OF \<open>send_common posts pm threshold (cfg\<lparr>webhook := []\<rparr>) (rs_back s) lk1 = (f, lk2)\<close>]
      by (auto simp: excused_def lk')
  next
    case 4
    moreover have "0 < channel_count (cfg\<lparr>webhook := []\<rparr>)" using i(2) main by (simp add: channel_count_def)
    ultimately show ?thesis using send_common_log(2) [OF \<open>send_common posts pm threshold (cfg\<lparr>webhook := []\<rparr>) (rs_back s) lk1 = (f, lk2)\<close>, of i] by (auto simp: lk')
  qed (use got in auto)
qed


lemma send_main_log:
  assumes "send_main posts pm threshold cfg now msgs lk = (c, lk')" "alerts_enabled cfg"
  shows "grows lk lk'" "i \<in> set (ss_got c) \<Longrightarrow> reached lk' i"
    "i < length msgs \<Longrightarrow> main_chat cfg = [] \<or> main_chat cfg \<in> set (chats_for cfg now (msgs ! i)) \<Longrightarrow> i \<notin> set (ss_again c) \<Longrightarrow>
     reached lk' i \<or> refused lk' i"
    "i \<in> set (ss_unc c) \<Longrightarrow> doubtful lk' i"
proof -
  have pos: "0 < channel_count cfg" using assms(2) by (auto simp: alerts_enabled_def channel_count_def)
  have "grows lk lk' \<and> (\<forall>i\<in>set (ss_got c). reached lk' i) \<and>
      (\<forall>i<length msgs. main_chat cfg = [] \<or> main_chat cfg \<in> set (chats_for cfg now (msgs ! i)) \<longrightarrow> i \<notin> set (ss_again c) \<longrightarrow>
         reached lk' i \<or> refused lk' i) \<and> (\<forall>i\<in>set (ss_unc c). doubtful lk' i)"
  proof (cases "main_chat cfg = [] \<or> list_all (on_main cfg now) msgs")
    case True
    with assms(1) have 1: "send_common posts pm threshold cfg [0..<length msgs] lk = (c, lk')" by (simp add: send_main_def Let_def)
    show ?thesis using send_common_log [OF 1] pos by auto
  next
    case False
    let ?on = "filter (\<lambda>i. on_main cfg now (msgs ! i)) [0..<length msgs]"
    obtain c1 lk1 where 1: "send_common posts pm threshold (cfg\<lparr>webhook := []\<rparr>) ?on lk = (c1, lk1)" by fastforce
    obtain c2 lk2 where 2: "send_common posts pm threshold (cfg\<lparr>telegram_chat := []\<rparr>) [0..<length msgs] lk1 = (c2, lk2)" by fastforce
    have lk': "lk' = (if webhook cfg = [] then lk1 else lk2)"
      and c: "set (ss_again c1) \<subseteq> set (ss_again c)" "set (ss_got c) = set (ss_got c1) \<union> (if webhook cfg = [] then {} else set (ss_got c2))" "ss_unc c = ss_unc c1"
      using assms(1) False by (auto simp: send_main_def Let_def 1 2 split: if_splits)
    have g: "grows lk lk1" "grows lk1 lk'" using send_common_log(1) [OF 1] send_common_log(1) [OF 2] by (simp_all add: lk')
    have "0 < channel_count (cfg\<lparr>webhook := []\<rparr>)" using False by (auto simp: channel_count_def main_chat_def split: if_splits)
    then have "reached lk' i \<or> refused lk' i" if "i < length msgs" "main_chat cfg \<in> set (chats_for cfg now (msgs ! i))" "i \<notin> set (ss_again c)" for i
      using send_common_log(2) [OF 1, of i] that False c(1) reached_mono [OF g(2)] refused_mono [OF g(2)] by (auto simp: on_main_def)
    moreover have "reached lk' i" if "i \<in> set (ss_got c)" for i
      using that send_common_log(3) [OF 1] send_common_log(3) [OF 2] reached_mono [OF g(2)] by (auto simp: c(2) lk' split: if_splits)
    moreover have "doubtful lk' i" if "i \<in> set (ss_unc c)" for i
      using that send_common_log(4) [OF 1] doubtful_mono [OF g(2)] by (auto simp: c(3))
    ultimately show ?thesis using False grows_trans [OF g] by blast
  qed
  then show "grows lk lk'" "i \<in> set (ss_got c) \<Longrightarrow> reached lk' i"
    "i < length msgs \<Longrightarrow> main_chat cfg = [] \<or> main_chat cfg \<in> set (chats_for cfg now (msgs ! i)) \<Longrightarrow> i \<notin> set (ss_again c) \<Longrightarrow>
     reached lk' i \<or> refused lk' i"
    "i \<in> set (ss_unc c) \<Longrightarrow> doubtful lk' i"
    by blast+
qed

lemma send_all_log:
  assumes "send_all posts pm threshold oom cfg now msgs lk = (s, lk')" "alerts_enabled cfg" "i < length msgs" "i \<notin> set (ss_again s)"
  shows "reached lk' i \<or> refused lk' i \<or> excused oom lk' i (msgs ! i)"
proof -
  obtain c lk1 where 1: "send_main posts pm threshold cfg now msgs lk = (c, lk1)" by fastforce
  obtain r lk2 where 2: "(if telegram_token cfg \<noteq> [] then send_routes posts pm threshold oom cfg now msgs lk1 else (ss_empty, lk1)) = (r, lk2)" by fastforce
  have lk': "lk' = lk2" using assms(1) by (simp add: send_all_def Let_def 1 2 split: if_splits)
  have g: "grows lk1 lk'" and got: "i \<in> set (ss_got r) \<Longrightarrow> reached lk' i"
    and unc: "i \<in> set (ss_unc r) \<Longrightarrow> doubtful lk' i"
    using 2 send_routes_log(1,2,4) by (auto simp: lk' ss_empty_def split: if_splits)
  consider (main) "main_chat cfg = [] \<or> main_chat cfg \<in> set (chats_for cfg now (msgs ! i))"
    | (route) "main_chat cfg \<noteq> []" "main_chat cfg \<notin> set (chats_for cfg now (msgs ! i))" by blast
  then show ?thesis
  proof cases
    case main
    have "i \<in> set (ss_unc c) \<Longrightarrow> doubtful lk' i" using send_main_log(4) [OF 1 assms(2)] doubtful_mono [OF g] by blast
    then have "i \<notin> set (ss_again c) \<or> i \<in> set (ss_got c) \<or> i \<in> set (ss_got r) \<or> excused oom lk' i (msgs ! i)"
      using assms(1,4) unc by (auto simp: send_all_def Let_def 1 2 diff_def excused_def split: if_splits)
    then show ?thesis
      using send_main_log(2,3) [OF 1 assms(2), of i] main assms(3) reached_mono [OF g, of i] refused_mono [OF g, of i] got by blast
  next
    case route
    have "telegram_token cfg \<noteq> []" using route(1) by (auto simp: main_chat_def split: if_splits)
    with 2 have 3: "send_routes posts pm threshold oom cfg now msgs lk1 = (r, lk')" by (simp add: lk')
    have "i \<notin> set (ss_again r)" using assms(1,4) by (auto simp: send_all_def Let_def 1 2)
    then show ?thesis using send_routes_log(3) [OF 3 assms(3) route] by blast
  qed
qed

text \<open>The outgoing message that stands for the message \<open>j\<close> was accepted or refused for good, or \<open>j\<close> is excused.\<close>

definition told :: "bool \<Rightarrow> alert_msg list \<Rightarrow> link \<Rightarrow> nat \<Rightarrow> bool" where
  "told oom messages lk j \<longleftrightarrow>
     (\<exists>i<length (snd (merge_storm messages)). j \<in> set (snd (merge_storm messages) ! i) \<and>
       (reached lk i \<or> refused lk i \<or> excused oom lk i (messages ! j)))"

lemma dispatch_told:
  fixes posts pm threshold oom cfg can_send users now messages
  defines "d \<equiv> dispatch posts pm threshold oom cfg can_send users now messages"
  assumes "alerts_enabled cfg" "j < length messages" "dl_ok d \<or> j \<in> set (dl_finished d)"
  shows "told oom messages (dl_link d) j"
proof -
  have ne: "messages \<noteq> []" using assms(3) by auto
  have cs: can_send using assms(4) ne by (auto simp: d_def dispatch_def split: if_splits)
  obtain msgs origins where m: "merge_storm messages = (msgs, origins)" by fastforce
  obtain s lk where a: "send_all posts pm threshold oom cfg now msgs (send_personal posts pm threshold cfg users msgs link0) = (s, lk)" by fastforce
  have d: "dl_ok d \<longleftrightarrow> ss_again s = []" "dl_link d = lk"
    "dl_finished d = concat (map (\<lambda>i. if i \<in> set (ss_again s) then [] else origins ! i) [0..<length msgs])"
    using ne cs by (simp_all add: d_def dispatch_def m a)
  have len: "length msgs = length origins" using m by (auto simp: merge_storm_def Let_def)
  have "\<exists>i<length origins. j \<in> set (origins ! i)"
  proof -
    have "origins = map (storm_own messages) (storm_kept messages)" using origins_eq [of messages] m by simp
    with storm_own_covers [OF assms(3)] show ?thesis by (metis in_set_conv_nth length_map nth_map)
  qed
  then have "\<exists>i<length origins. j \<in> set (origins ! i) \<and> i \<notin> set (ss_again s)"
    using assms(4) by (auto simp: d(1,3) len split: if_splits)
  then obtain i where i: "i < length origins" "j \<in> set (origins ! i)" "i \<notin> set (ss_again s)" by blast
  have "am_kind (msgs ! i) = am_kind (messages ! j)" using merged_kind [of i messages j] i by (simp add: m)
  then have "excused oom lk i (msgs ! i) = excused oom lk i (messages ! j)" by (simp add: excused_def)
  with send_all_log [OF a assms(2)] i show ?thesis by (auto simp: told_def m len d(2))
qed

text \<open>What the callers of \<open>dispatch\<close> rely on: a message it reports as done was told.\<close>

record shipping =
  sh_posts :: wire
  sh_mode :: bool
  sh_threshold :: int
  sh_oom :: bool
  sh_cfg :: alert_cfg
  sh_can_send :: bool
  sh_users :: "recipient list"
  sh_now :: time

definition ship :: "shipping \<Rightarrow> alert_msg list \<Rightarrow> delivery" where
  "ship s = dispatch (sh_posts s) (sh_mode s) (sh_threshold s) (sh_oom s) (sh_cfg s) (sh_can_send s) (sh_users s) (sh_now s)"

locale courier =
  fixes deliver :: "'s \<Rightarrow> alert_msg list \<Rightarrow> delivery"
    and ready :: "'s \<Rightarrow> bool"
    and told_by :: "'s \<Rightarrow> alert_msg list \<Rightarrow> nat \<Rightarrow> bool"
  assumes done_told: "ready s \<Longrightarrow> j < length msgs \<Longrightarrow> dl_ok (deliver s msgs) \<or> j \<in> set (dl_finished (deliver s msgs)) \<Longrightarrow> told_by s msgs j"

interpretation panel: courier ship "\<lambda>s. alerts_enabled (sh_cfg s)" "\<lambda>s msgs. told (sh_oom s) msgs (dl_link (ship s msgs))"
  by unfold_locales (simp add: ship_def dispatch_told)

text \<open>C12. No alert is lost: when delivery reports a message of the batch as done, alone (\<open>finished\<close>) or with the whole batch, the message
  that stands for it was accepted by a chat of the panel or the webhook, or Telegram refused it for good; the only exception is an
  out-of-memory alert that may have arrived, where the caller asks not to repeat such ones.  That a person's own chat took it never
  counts.\<close>

theorem dispatch_loses_nothing:
  fixes posts pm threshold oom cfg can_send users now messages
  defines "d \<equiv> dispatch posts pm threshold oom cfg can_send users now messages"
  assumes "alerts_enabled cfg" "j < length messages" "dl_ok d \<or> j \<in> set (dl_finished d)"
  shows "\<exists>i<length (snd (merge_storm messages)). j \<in> set (snd (merge_storm messages) ! i) \<and>
    (reached (dl_link d) i \<or> refused (dl_link d) i \<or> excused oom (dl_link d) i (messages ! j))"
  using dispatch_told [OF assms(2-4) [unfolded d_def]] by (simp add: told_def d_def)

section \<open>Telegram does not answer\<close>

lemma link_tg_down: "tg_down lk \<Longrightarrow> link_tg posts pm d ids lk = (TgFailed False, lk)"
  by (simp add: link_tg_def)

lemma send_alert_down:
  "tg_down lk \<Longrightarrow> main_chat cfg \<noteq> [] \<Longrightarrow> webhook cfg = [] \<Longrightarrow>
   send_alert posts pm cfg ids lk = (\<lparr>se_n = 1, se_rejected = 0, se_uncertain = False\<rparr>, lk)"
  by (auto simp: send_alert_def link_tg_down main_chat_def split: if_splits)

lemma channel_count_tg: "main_chat cfg \<noteq> [] \<Longrightarrow> webhook cfg = [] \<Longrightarrow> channel_count cfg = 1"
  by (auto simp: channel_count_def main_chat_def split: if_splits)

lemma send_each_down:
  assumes "tg_down lk" "main_chat cfg \<noteq> []" "webhook cfg = []"
  shows "send_each posts pm cfg is s lk = (\<lparr>ss_got = ss_got s, ss_again = ss_again s @ is, ss_unc = ss_unc s\<rparr>, lk)"
  by (induction "is" arbitrary: s) (simp_all add: send_alert_down [OF assms] channel_count_tg [OF assms(2,3)] ss_add_def outcome_of_def)

lemma send_common_down:
  assumes "tg_down lk" "main_chat cfg \<noteq> []" "webhook cfg = []"
  shows "send_common posts pm threshold cfg idx lk = (\<lparr>ss_got = [], ss_again = idx, ss_unc = []\<rparr>, lk)"
  by (simp add: send_common_def send_alert_down [OF assms] send_each_down [OF assms] channel_count_tg [OF assms(2,3)] ss_add_def
      outcome_of_def ss_empty_def)

lemma batch_each_down: "tg_down lk \<Longrightarrow> batch_each posts pm chat items lk = (items, [], lk)"
  by (induction items) (simp_all add: link_tg_down)

lemma send_batch_down: "tg_down lk \<Longrightarrow> send_batch posts pm threshold chat items lk = (items, [], lk)"
  by (simp add: send_batch_def link_tg_down batch_each_down)

lemma note_failed_sure: "note_failed oom cfg now msgs failed [] bk = note_failed False cfg now msgs failed [] bk"
proof -
  have "note_one oom cfg now msgs [] = note_one False cfg now msgs []" by (simp add: fun_eq_iff note_one_def)
  then show ?thesis by (simp add: note_failed_def)
qed

lemma route_chat_loop_down:
  assumes "tg_down lk"
  shows "\<exists>bk. route_chat_loop posts pm threshold oom cfg now msgs plan s lk = (\<lparr>rs_got = rs_got s, rs_back = bk, rs_unc = rs_unc s\<rparr>, lk)
    \<and> route_chat_loop posts pm threshold False cfg now msgs plan s lk = (\<lparr>rs_got = rs_got s, rs_back = bk, rs_unc = rs_unc s\<rparr>, lk)"
proof (induction plan arbitrary: s)
  case (Cons p plan)
  show ?case
    using Cons.IH [of "\<lparr>rs_got = rs_got s, rs_back = note_failed False cfg now msgs (snd p) [] (rs_back s), rs_unc = rs_unc s\<rparr>"]
    by (cases p) (simp add: send_batch_down [OF assms] note_failed_sure [of oom])
next
  case Nil
  show ?case by (intro exI [of _ "rs_back s"]) simp
qed

lemma send_all_down:
  assumes "tg_down lk" "main_chat cfg \<noteq> []" "webhook cfg = []"
  shows "\<exists>s. send_all posts pm threshold oom cfg now msgs lk = (s, lk) \<and> {..<length msgs} \<subseteq> set (ss_again s) \<and> ss_got s = [] \<and> ss_unc s = []"
proof -
  have upd: "cfg\<lparr>webhook := []\<rparr> = cfg" using assms(3) by simp
  have token: "telegram_token cfg \<noteq> []" using assms(2) by (auto simp: main_chat_def split: if_splits)
  obtain c where c: "send_main posts pm threshold cfg now msgs lk = (c, lk)" "ss_got c = []" "ss_unc c = []"
      "\<And>i. i < length msgs \<Longrightarrow> on_main cfg now (msgs ! i) \<Longrightarrow> i \<in> set (ss_again c)"
  proof -
    have "\<exists>c. send_main posts pm threshold cfg now msgs lk = (c, lk) \<and> ss_got c = [] \<and> ss_unc c = [] \<and>
        (\<forall>i<length msgs. on_main cfg now (msgs ! i) \<longrightarrow> i \<in> set (ss_again c))"
      unfolding send_main_def Let_def upd send_common_down [OF assms] by (simp add: assms(3))
    with that show ?thesis by blast
  qed
  obtain bk where b: "route_chat_loop posts pm threshold oom cfg now msgs (route_plan cfg now msgs) \<lparr>rs_got = [], rs_back = [], rs_unc = []\<rparr> lk
      = (\<lparr>rs_got = [], rs_back = bk, rs_unc = []\<rparr>, lk)"
    and b': "route_chat_loop posts pm threshold False cfg now msgs (route_plan cfg now msgs) \<lparr>rs_got = [], rs_back = [], rs_unc = []\<rparr> lk
      = (\<lparr>rs_got = [], rs_back = bk, rs_unc = []\<rparr>, lk)"
    using route_chat_loop_down [OF assms(1), of posts pm threshold oom cfg now msgs "route_plan cfg now msgs" "\<lparr>rs_got = [], rs_back = [], rs_unc = []\<rparr>"]
    by auto
  obtain r where r: "send_routes posts pm threshold oom cfg now msgs lk = (r, lk)" "ss_got r = []" "ss_unc r = []" "ss_again r = bk"
  proof -
    have "send_routes posts pm threshold oom cfg now msgs lk = (\<lparr>ss_got = [], ss_again = bk, ss_unc = []\<rparr>, lk)"
      by (simp add: send_routes_def b upd send_common_down [OF assms])
    then show ?thesis by (rule that) simp_all
  qed
  have all: "send_all posts pm threshold oom cfg now msgs lk = (\<lparr>ss_got = [], ss_again = ss_again c @ bk, ss_unc = []\<rparr>, lk)"
    by (simp add: send_all_def Let_def c r token diff_def)
  have "i \<in> set (ss_again c @ bk)" if "i < length msgs" for i
  proof (cases "on_main cfg now (msgs ! i)")
    case False
    then have out: "main_chat cfg \<notin> set (chats_for cfg now (msgs ! i))" "\<not> covered cfg now (msgs ! i)"
      using assms(2) token by (auto simp: on_main_def covered_def main_chat_def)
    from not_on_main [OF assms(2) out(1)] in_route_plan [OF that] obtain chat items
      where "(chat, items) \<in> set (route_plan cfg now msgs)" "i \<in> set items" by blast
    then have "i \<in> set bk" using route_chat_loop_log [OF b'] out(2) by (auto simp: excused_def)
    then show ?thesis by simp
  qed (use c(4) that in auto)
  with all show ?thesis by auto
qed

lemma personal_each_down: "tg_down lk \<Longrightarrow> personal_each posts pm chat batch lk = lk"
  by (cases batch) (simp_all add: link_tg_down)

lemma send_personal_down: "tg_down lk \<Longrightarrow> send_personal posts pm threshold cfg users msgs lk = lk"
  unfolding send_personal_def by (induction users) (simp_all add: personal_each_down Let_def)

lemma personal_each_fails:
  assumes "posts (lk_n lk) = Transport x" "\<not> tg_down lk" "batch \<noteq> []"
  shows "personal_each posts pm chat batch lk
    = lk\<lparr>lk_n := lk_n lk + 1, tg_down := True, lk_unc := lk_unc lk @ (if x then [(Personal chat, hd batch)] else [])\<rparr>"
  using assms by (cases batch) (simp_all add: link_tg_def tg_send_def post_def)

text \<open>C22. One person's chat can hold up the whole batch: when the very first request of the batch, for the first person and a message
  they want, fails on the way, the connection counts Telegram as down for the rest of the batch.  When no webhook is set, no other
  chat is asked any more, nothing of the batch is delivered and delivery reports that everything is to be repeated.\<close>

theorem personal_failure_holds_batch:
  assumes "posts 0 = Transport x" "telegram_token cfg \<noteq> []" "telegram_chat cfg \<noteq> []" "webhook cfg = []"
    "list_ex (wants u) (fst (merge_storm messages))"
  shows "\<exists>unc. dispatch posts pm threshold oom cfg True (u # users) now messages
    = \<lparr>dl_ok = False, dl_finished = [], dl_oom = [],
        dl_link = \<lparr>lk_n = 1, tg_down = True, hook_down = False, lk_ok = [], lk_rej = [], lk_unc = unc\<rparr>\<rparr>"
proof -
  obtain msgs origins where m: "merge_storm messages = (msgs, origins)" by fastforce
  have main: "main_chat cfg \<noteq> []" using assms(2,3) by (simp add: main_chat_def)
  have msgs: "msgs \<noteq> []" "messages \<noteq> []" using assms(5) m by (auto simp: merge_storm_def)
  define mine where "mine = filter (\<lambda>i. wants u (msgs ! i)) [0..<length msgs]"
  define batch where "batch = (if threshold \<noteq> 0 \<and> int (length mine) \<ge> threshold then [mine] else map (\<lambda>i. [i]) mine)"
  let ?down = "\<lparr>lk_n = 1, tg_down = True, hook_down = False, lk_ok = [], lk_rej = [],
    lk_unc = (if x then [(Personal (rc_chat u), hd batch)] else [])\<rparr>"
  have "mine \<noteq> []" using assms(5) m by (force simp: mine_def list_ex_iff filter_empty_conv in_set_conv_nth)
  then have first: "personal_each posts pm (rc_chat u) batch link0 = ?down"
    using assms(1) by (subst personal_each_fails) (auto simp: link0_def batch_def)
  have p: "send_personal posts pm threshold cfg (u # users) msgs link0 = ?down"
  proof -
    have "send_personal posts pm threshold cfg (u # users) msgs link0 = send_personal posts pm threshold cfg users msgs ?down"
      using first \<open>mine \<noteq> []\<close> assms(2) by (simp add: send_personal_def mine_def [symmetric] batch_def [symmetric])
    then show ?thesis by (simp add: send_personal_down)
  qed
  have "tg_down ?down" by simp
  from send_all_down [OF this main assms(4)] obtain s
    where a: "send_all posts pm threshold oom cfg now msgs ?down = (s, ?down)" "{..<length msgs} \<subseteq> set (ss_again s)" "ss_got s = []" "ss_unc s = []"
    by blast
  have "concat (map (\<lambda>i. if i \<in> set (ss_again s) then [] else origins ! i) [0..<length msgs]) = []" using a(2) by auto
  moreover have "ss_again s \<noteq> []" using a(2) msgs(1) by force
  ultimately have "dispatch posts pm threshold oom cfg True (u # users) now messages
      = \<lparr>dl_ok = False, dl_finished = [], dl_oom = [], dl_link = ?down\<rparr>"
    using msgs(2) unfolding dispatch_def m p prod.case Let_def a(1) by (simp add: a(3,4) oom_servers_def del: concat_eq_Nil_conv)
  then show ?thesis by blast
qed

section \<open>Concrete batches\<close>

definition wit_cfg :: alert_cfg where
  "wit_cfg = \<lparr>telegram_token = ''t'', telegram_chat = ''c'', webhook = [], tg_buttons = False, route_chats = [], route_main = None,
     main_by = [], dup_on = False, dup_until = [], main_passed = []\<rparr>"

definition wit_msg :: "string \<Rightarrow> string \<Rightarrow> alert_msg" where
  "wit_msg target short = \<lparr>am_section = ''servers'', am_group = ''prod'', am_kind = ''disk'', am_target = target, am_ref = ''srv:1'',
     am_recovery = False, am_alarm = False, am_norm = Some short, am_parts = []\<rparr>"

definition wit_batch :: "alert_msg list" where
  "wit_batch = [wit_msg ''a'' ''full'', wit_msg ''b'' ''full'', wit_msg ''d'' ''half'', wit_msg ''e'' ''full'']"

lemma wit_merge: "snd (merge_storm wit_batch) = [[0, 1, 3], [2]]"
  by code_simp

theorem merge_storm_partitions_witness:
  "merge_storm wit_batch = (fst (merge_storm wit_batch), [[0, 1, 3], [2]]) \<and> distinct (concat [[0, 1, 3], [2::nat]])
    \<and> set (concat [[0, 1, 3], [2]]) = {..<length wit_batch}"
proof -
  have m: "merge_storm wit_batch = (fst (merge_storm wit_batch), [[0, 1, 3], [2]])" using wit_merge by (metis prod.collapse)
  then show ?thesis using merge_storm_partitions [OF m] by blast
qed

text \<open>Telegram takes the first message and then answers no more.\<close>

definition wit_posts :: wire where
  "wit_posts n = (if n = 1 then Transport True else Status 200)"

lemma wit_dispatch: "dl_finished (dispatch wit_posts True 0 False wit_cfg True [] 0 wit_batch) = [0, 1, 3]"
  by code_simp

theorem dispatch_loses_nothing_witness:
  "alerts_enabled wit_cfg \<and> 3 \<in> set (dl_finished (dispatch wit_posts True 0 False wit_cfg True [] 0 wit_batch)) \<and>
   (\<exists>i<length (snd (merge_storm wit_batch)). 3 \<in> set (snd (merge_storm wit_batch) ! i) \<and>
     (let lk = dl_link (dispatch wit_posts True 0 False wit_cfg True [] 0 wit_batch)
      in reached lk i \<or> refused lk i \<or> excused False lk i (wit_batch ! 3)))"
proof -
  have e: "alerts_enabled wit_cfg" by code_simp
  have "3 < length wit_batch" by (simp add: wit_batch_def)
  then show ?thesis
    using dispatch_loses_nothing [OF e, of 3 wit_batch wit_posts True 0 False True "[]" 0] e by (simp add: wit_dispatch Let_def)
qed

definition wit_user :: recipient where
  "wit_user = \<lparr>rc_chat = ''p'', rc_token = ''own'', rc_sections = [], rc_server_groups = [], rc_site_groups = []\<rparr>"

theorem personal_failure_holds_batch_witness:
  "dispatch (\<lambda>n. if n = 0 then Transport False else Status 200) True 0 False wit_cfg True [wit_user] 0 wit_batch
     = \<lparr>dl_ok = False, dl_finished = [], dl_oom = [], dl_link = \<lparr>lk_n = 1, tg_down = True, hook_down = False, lk_ok = [], lk_rej = [], lk_unc = []\<rparr>\<rparr>
   \<and> dl_ok (dispatch (\<lambda>n. Status 200) True 0 False wit_cfg True [] 0 wit_batch)"
proof (intro conjI)
  let ?posts = "\<lambda>n :: nat. if n = 0 then Transport False else Status 200"
  have "list_ex (wants wit_user) (fst (merge_storm wit_batch))" by code_simp
  then have "\<exists>unc. dispatch ?posts True 0 False wit_cfg True [wit_user] 0 wit_batch
     = \<lparr>dl_ok = False, dl_finished = [], dl_oom = [], dl_link = \<lparr>lk_n = 1, tg_down = True, hook_down = False, lk_ok = [], lk_rej = [], lk_unc = unc\<rparr>\<rparr>"
    by (intro personal_failure_holds_batch [of _ False]) (simp_all add: wit_cfg_def)
  moreover have "lk_unc (dl_link (dispatch ?posts True 0 False wit_cfg True [wit_user] 0 wit_batch)) = []" by code_simp
  ultimately show "dispatch ?posts True 0 False wit_cfg True [wit_user] 0 wit_batch
     = \<lparr>dl_ok = False, dl_finished = [], dl_oom = [], dl_link = \<lparr>lk_n = 1, tg_down = True, hook_down = False, lk_ok = [], lk_rej = [], lk_unc = []\<rparr>\<rparr>"
    by auto
  show "dl_ok (dispatch (\<lambda>n. Status 200) True 0 False wit_cfg True [] 0 wit_batch)" by code_simp
qed

end
