(* ===== verification/Server_Delivery.thy ===== *)
theory Server_Delivery
  imports Presence Dispatch "HOL-Library.Multiset"
begin

text \<open>
  The end of \<open>collector.evaluate_servers\<close>: what happens to the messages and the pending writes of a tick after every server was
  looked at.  The message about a panel that gets no reports is added, the messages of servers that are being connected
  (\<open>onboard.py\<close>) or that are for development (\<open>dev_mode.py\<close>) are held back, the rest is delivered by \<open>Dispatch\<close> and the state of
  a server is written only as far as its messages arrived.

  A message is known by its place in the queue, where the code uses its identity; \<open>mark\<close> is where a server begins in the
  four queues (\<open>marks\<close>).  \<open>cur_by_id\<close> is a function from servers to states.
\<close>

section \<open>Queues\<close>

type_synonym queued_write = "int \<times> string \<times> py"
type_synonym owned = "alert_msg \<times> int option"

record mark =
  mk_srv :: int
  mk_fires :: nat
  mk_fire_apply :: nat
  mk_recs :: nat
  mk_rec_apply :: nat

record tick_queues =
  q_fires :: "alert_msg list"
  q_fire_apply :: "queued_write list"
  q_recs :: "alert_msg list"
  q_rec_apply :: "queued_write list"
  q_marks :: "mark list"

definition slice :: "nat \<Rightarrow> nat \<Rightarrow> 'a list \<Rightarrow> 'a list" where
  "slice a b xs = take (b - a) (drop a xs)"

text \<open>\<open>zip(marks, [*marks[1:], end])\<close>\<close>

definition end_mark :: "tick_queues \<Rightarrow> mark" where
  "end_mark q = \<lparr>mk_srv = 0, mk_fires = length (q_fires q), mk_fire_apply = length (q_fire_apply q), mk_recs = length (q_recs q),
     mk_rec_apply = length (q_rec_apply q)\<rparr>"

definition spans :: "tick_queues \<Rightarrow> (mark \<times> mark) list" where
  "spans q = zip (q_marks q) (tl (q_marks q) @ [end_mark q])"

section \<open>The panel gets no reports\<close>

definition GAP_MIN :: int where "GAP_MIN = 5"
definition GAP_SHARE :: rat where "GAP_SHARE = 3 / 5"

text \<open>How many servers fell silent and are not announced, and how many were there; the first is 0 when it is no mass silence.\<close>

fun gap_count :: "server list \<Rightarrow> time \<Rightarrow> int \<times> int \<Rightarrow> (int \<times> int) res" where
  "gap_count [] now (off, talking) = Inr (off, talking)"
| "gap_count (s # ss) now (off, talking) =
     (case last_seen s of
        None \<Rightarrow> gap_count ss now (off, talking)
      | Some seen \<Rightarrow>
          if seen_online s now then gap_count ss now (off, talking + 1)
          else rbind (alert_level (alert_state s) ''offline'') (\<lambda>lvl.
            gap_count ss now
              (if lvl = 0 \<and> now - dt_utc (aware seen) > sec (max (offline_after_seconds s) 30 + offline_extra s False) then off + 1 else off, talking)))"

definition ingest_gap :: "server list \<Rightarrow> time \<Rightarrow> (int \<times> int) res" where
  "ingest_gap servers now =
     rbind (gap_count servers now (0, 0)) (\<lambda>(off, talking).
       if off \<ge> GAP_MIN \<and> of_int off > of_int (off + talking) * GAP_SHARE then Inr (off, off + talking) else Inr (0, off + talking))"

definition gap_message :: "bool \<Rightarrow> alert_msg" where
  "gap_message recovery =
     \<lparr>am_section = ''servers'', am_group = [], am_kind = ''ingest_gap'', am_target = ''panel'', am_ref = [], am_recovery = recovery,
      am_alarm = False, am_norm = None, am_parts = []\<rparr>"

text \<open>\<open>_gap_said\<close> is in memory.\<close>

definition gap_step :: "int \<Rightarrow> time \<Rightarrow> time option \<times> tick_queues \<Rightarrow> time option \<times> tick_queues" where
  "gap_step gap_n now = (\<lambda>(said, q).
     if gap_n \<noteq> 0 \<and> said = None then (Some now, q\<lparr>q_fires := q_fires q @ [gap_message False]\<rparr>)
     else if gap_n = 0 \<and> said \<noteq> None then (None, q\<lparr>q_recs := q_recs q @ [gap_message True]\<rparr>)
     else (said, q))"

section \<open>Whose message it is\<close>

definition owner_of :: "(int \<times> nat \<times> nat) list \<Rightarrow> nat \<Rightarrow> int option" where
  "owner_of parts i = (case filter (\<lambda>(_, a, b). a \<le> i \<and> i < b) parts of (srv, _, _) # _ \<Rightarrow> Some srv | [] \<Rightarrow> None)"

definition tag :: "(int \<times> nat \<times> nat) list \<Rightarrow> alert_msg list \<Rightarrow> owned list" where
  "tag parts msgs = map (\<lambda>i. (msgs ! i, if am_kind (msgs ! i) = ''ingest_gap'' then None else owner_of parts i)) [0..<length msgs]"

definition fire_spans :: "tick_queues \<Rightarrow> (int \<times> nat \<times> nat) list" where
  "fire_spans q = map (\<lambda>(x, y). (mk_srv x, mk_fires x, mk_fires y)) (spans q)"

definition rec_spans :: "tick_queues \<Rightarrow> (int \<times> nat \<times> nat) list" where
  "rec_spans q = map (\<lambda>(x, y). (mk_srv x, mk_recs x, mk_recs y)) (spans q)"

section \<open>Messages held back\<close>

definition onboard_SEND :: "string list" where "onboard_SEND = [''offline'', ''disk'', ''inode'']"

definition onboard_SEND_STATE :: "string list" where
  "onboard_SEND_STATE =
     [''offline'', ''offline_said'', ''offline_probe'', ''offline_before'', ''disk'', ''disk_val'', ''inode'', ''inode_val'']
     @ map (\<lambda>kind. kind @ ''_told_lvl'') onboard_SEND"

definition msg_ok :: "string \<Rightarrow> bool" where "msg_ok kind \<longleftrightarrow> kind \<in> set onboard_SEND"
definition state_kept :: "string \<Rightarrow> bool" where "state_kept key \<longleftrightarrow> key \<in> set onboard_SEND_STATE"

text \<open>The messages to send, the writes that wait for them, the writes made at once.\<close>

definition onboard_split :: "owned list \<Rightarrow> queued_write list \<Rightarrow> owned list \<times> queued_write list \<times> queued_write list" where
  "onboard_split msgs states =
     (let keep = filter (\<lambda>(m, _). msg_ok (am_kind m)) msgs; stays = (\<lambda>(_, key, _). keep \<noteq> [] \<and> state_kept key)
      in (keep, filter stays states, filter (\<lambda>e. \<not> stays e) states))"

definition dev_APP :: "string list" where
  "dev_APP = [''docker_down'', ''docker_loop'', ''docker_restarts'', ''kube_pod'', ''kube_job'', ''kube_cron'', ''kube_restarts'',
     ''windows_service'', ''units'', ''unit_loop'', ''workers'', ''queue'', ''queue_stuck'', ''queue_failed'', ''cron_stuck'', ''log_errors'',
     ''fpm'', ''llm'', ''qdrant'', ''listen_gone'', ''db_conn'', ''db_health'', ''web_5xx'', ''web_config'', ''cpu_spin'', ''mem_leak'', ''mem_limit'']"

definition dev_quiet :: "string \<Rightarrow> bool" where "dev_quiet kind \<longleftrightarrow> kind \<in> set dev_APP"

definition dev_split :: "owned list \<Rightarrow> queued_write list \<Rightarrow> owned list \<times> queued_write list \<times> queued_write list" where
  "dev_split msgs states =
     (let keep = filter (\<lambda>(m, _). \<not> dev_quiet (am_kind m)) msgs
      in if keep \<noteq> [] then (keep, states, []) else ([], [], states))"

record held =
  h_fires :: "owned list"
  h_fire_apply :: "queued_write list"
  h_recs :: "owned list"
  h_rec_apply :: "queued_write list"
  h_now :: "queued_write list"

definition hold_server :: "bool \<Rightarrow> bool \<Rightarrow> owned list \<Rightarrow> queued_write list \<Rightarrow> owned list \<Rightarrow> queued_write list \<Rightarrow> held" where
  "hold_server onb dev f fa r ra =
     (let (f, fa, n1) = (if onb then onboard_split f fa else (f, fa, []));
          (r, ra, n2) = (if onb then onboard_split r ra else (r, ra, []));
          (f, fa, n3) = (if dev then dev_split f fa else (f, fa, []));
          (r, ra, n4) = (if dev then dev_split r ra else (r, ra, []))
      in \<lparr>h_fires = f, h_fire_apply = fa, h_recs = r, h_rec_apply = ra, h_now = n1 @ n2 @ n3 @ n4\<rparr>)"

definition hold_back :: "int list \<Rightarrow> int list \<Rightarrow> tick_queues \<Rightarrow> held" where
  "hold_back onboarding dev q =
     (let f = tag (fire_spans q) (q_fires q); r = tag (rec_spans q) (q_recs q)
      in if onboarding = [] \<and> dev = [] then
           \<lparr>h_fires = f, h_fire_apply = q_fire_apply q, h_recs = r, h_rec_apply = q_rec_apply q, h_now = []\<rparr>
         else
           (let hs = map (\<lambda>(x, y).
                       hold_server (mk_srv x \<in> set onboarding) (mk_srv x \<in> set dev)
                         (slice (mk_fires x) (mk_fires y) f) (slice (mk_fire_apply x) (mk_fire_apply y) (q_fire_apply q))
                         (slice (mk_recs x) (mk_recs y) r) (slice (mk_rec_apply x) (mk_rec_apply y) (q_rec_apply q))) (spans q)
            in \<lparr>h_fires = concat (map h_fires hs), h_fire_apply = concat (map h_fire_apply hs), h_recs = concat (map h_recs hs),
                h_rec_apply = concat (map h_rec_apply hs), h_now = concat (map h_now hs)\<rparr>))"

section \<open>Which message a write waits for\<close>

definition SERVER_ALERT_KINDS :: "string list" where
  "SERVER_ALERT_KINDS =
    [''offline'', ''cpu'', ''mem'', ''disk'', ''temp'', ''throttle'', ''conntrack'', ''db_conn'', ''disktemp'', ''disk_health'', ''inode'',
     ''disk_forecast'', ''windows_service'', ''units'', ''unit_loop'', ''kube_cron'', ''cpu_spin'', ''backup_growth'', ''docker_sock'',
     ''docker_risk'', ''access_risk'', ''exposed'', ''cf_realip'', ''port_new'', ''pressure'', ''net_health'', ''link'', ''traffic'',
     ''kube_node'', ''kube_job'', ''access_change'', ''backup_restore'', ''docker_restarts'', ''kube_restarts'', ''mem_leak'', ''mem_limit'',
     ''ssh_risk'', ''db_health'', ''web_config'', ''webfiles'', ''web_cert'', ''listen_gone'', ''disk_slow'', ''backup_transfer'', ''gpu'',
     ''gpu_heat'', ''llm'', ''qdrant'', ''reboot'', ''oom'', ''docker_down'', ''docker_loop'', ''backup_missing'', ''backup_failed'',
     ''backup_stale'', ''backup_repo'', ''backup_unmonitored'', ''backup_prune'', ''dns'', ''backup_check'', ''backup_mirror'',
     ''backup_lock'', ''backup_dump'', ''backup_dump_space'', ''backup_cron'', ''backup_custom'', ''backup_rotation'', ''queue'',
     ''queue_stuck'', ''queue_failed'', ''workers'', ''cron_stuck'', ''log_errors'', ''fpm'', ''vpn_torrent'', ''vpn_heavy'', ''gre_down'',
     ''gitlab'', ''autoban'', ''web_5xx'', ''kube_pod'', ''clock'', ''kube_expiry'', ''flux_down'', ''flux_stale'', ''uncovered'',
     ''bogus_requests'']"

definition state_kinds :: "(string \<times> string) list" where
  "state_kinds =
    [(''kube_jobs_seen'', ''kube_job''), (''rotation_stale'', ''backup_rotation''), (''backup_locks'', ''backup_lock''),
     (''backup_checks'', ''backup_check''), (''backup_prunes'', ''backup_prune''), (''bsrv_clients'', ''backup_unmonitored''),
     (''backup_repos'', ''backup_repo'')]"

definition state_suffixes :: "string list" where
  "state_suffixes = [''_told_lvl'', ''_sig'', ''_told'', ''_calm'', ''_hush'', ''_said'', ''_was'', ''_who'', ''_val'', ''_at'']"

text \<open>\<open>kinds\<close> are the kinds of the messages of the server (\<open>complete | unfinished\<close>).\<close>

definition mark_kind :: "string list \<Rightarrow> string \<Rightarrow> string" where
  "mark_kind kinds key =
     (let kind = (case map_of state_kinds key of Some k \<Rightarrow> k | None \<Rightarrow> key)
      in if startswith key ''offline_'' \<or> startswith key ''oom_'' then fst (partition_chr CHR ''_'' key)
         else if kind = key \<and> key \<notin> set SERVER_ALERT_KINDS \<and> key \<notin> set kinds then
           (case find (endswith key) state_suffixes of Some s \<Rightarrow> take (length key - length s) key | None \<Rightarrow> key)
         else kind)"

definition kinds_where :: "(nat \<Rightarrow> bool) \<Rightarrow> owned list \<Rightarrow> int \<Rightarrow> string list" where
  "kinds_where P msgs srv = map (\<lambda>i. am_kind (fst (msgs ! i))) (filter (\<lambda>i. P i \<and> snd (msgs ! i) = Some srv) [0..<length msgs])"

definition confirmed :: "bool \<Rightarrow> owned list \<Rightarrow> nat list \<Rightarrow> int \<Rightarrow> string \<Rightarrow> bool" where
  "confirmed can_send msgs finished srv key =
     (let unfinished = kinds_where (\<lambda>i. i \<notin> set finished) msgs srv; complete = kinds_where (\<lambda>i. i \<in> set finished) msgs srv
      in if \<not> can_send then False
         else if unfinished = [] then True
         else (let kind = mark_kind (complete @ unfinished) key in kind \<in> set complete \<and> kind \<notin> set unfinished))"

section \<open>Delivery and what is written\<close>

text \<open>\<open>apply\<close>\<close>

definition apply_write :: "queued_write \<Rightarrow> (int \<Rightarrow> dict) \<Rightarrow> int \<Rightarrow> dict" where
  "apply_write w cur = (case w of (srv, key, v) \<Rightarrow> cur(srv := dset key v (cur srv)))"

definition fire_oom :: "owned list \<Rightarrow> bool" where
  "fire_oom msgs = list_ex (\<lambda>(m, _). am_kind m = ''oom'') msgs"

definition fire_writes :: "bool \<Rightarrow> delivery \<Rightarrow> held \<Rightarrow> queued_write list" where
  "fire_writes can_send d h =
     filter (\<lambda>(srv, key, _). dl_ok d \<or> confirmed can_send (h_fires h) (dl_finished d) srv key \<or> srv \<in> set (dl_oom d) \<and> startswith key ''oom_'')
       (h_fire_apply h)"

definition rec_writes :: "bool \<Rightarrow> delivery \<Rightarrow> held \<Rightarrow> queued_write list" where
  "rec_writes can_send d h =
     filter (\<lambda>(srv, key, _). dl_ok d \<or> confirmed can_send (h_recs h) (dl_finished d) srv key) (h_rec_apply h)"

text \<open>The answers to the requests of the two batches are \<open>posts1\<close> and \<open>posts2\<close>.\<close>

definition deliver_tick :: "wire \<Rightarrow> wire \<Rightarrow> int \<Rightarrow> alert_cfg \<Rightarrow> bool \<Rightarrow> recipient list \<Rightarrow> time \<Rightarrow> held \<Rightarrow> (int \<Rightarrow> dict) \<Rightarrow> int \<Rightarrow> dict" where
  "deliver_tick posts1 posts2 threshold cfg can_send users now h cur =
     (let cur = fold apply_write (h_now h) cur;
          d1 = dispatch posts1 True threshold (fire_oom (h_fires h)) cfg can_send users now (map fst (h_fires h));
          cur = fold apply_write (fire_writes can_send d1 h) cur;
          d2 = dispatch posts2 True threshold False cfg can_send users now (map fst (h_recs h))
      in fold apply_write (rec_writes can_send d2 h) cur)"


section \<open>A write waits for the messages of its kind\<close>

lemma endswith_append: "endswith (k @ s) s' \<Longrightarrow> endswith s s' \<or> endswith s' s"
proof (cases "length s' \<le> length s")
  case False
  assume "endswith (k @ s) s'"
  then have "take (length s') (rev s @ rev k) = rev s'" by (simp add: endswith_def startswith_def)
  then have "take (length s) (rev s') = take (length s) (rev s @ rev k)" using False by (metis min.absorb1 nat_le_linear take_take)
  then show ?thesis by (simp add: endswith_def startswith_def)
qed (simp add: endswith_def startswith_def)

lemma find_only: "x \<in> set xs \<Longrightarrow> P x \<Longrightarrow> (\<And>y. y \<in> set xs \<Longrightarrow> P y \<Longrightarrow> y = x) \<Longrightarrow> find P xs = Some x"
proof (induction xs)
  case (Cons a xs)
  show ?case
  proof (cases "P a")
    case True
    have "a = x" by (rule Cons.prems(3)) (use True in simp_all)
    with True show ?thesis by simp
  next
    case False
    with Cons.prems(1,2) have "x \<in> set xs" by (metis set_ConsD)
    from Cons.IH [OF this Cons.prems(2)] Cons.prems(3) have "find P xs = Some x" by (meson list.set_intros(2))
    with False show ?thesis by simp
  qed
qed simp

lemma suffixes_apart: "list_all (\<lambda>s. list_all (\<lambda>s'. s = s' \<or> \<not> endswith s s') state_suffixes) state_suffixes"
  by (simp add: state_suffixes_def endswith_def startswith_def)

lemma suffix_found:
  assumes "s \<in> set state_suffixes"
  shows "find (endswith (k @ s)) state_suffixes = Some s"
proof (rule find_only [OF assms])
  show "endswith (k @ s) s" by (simp add: endswith_def startswith_def)
  show "s' = s" if "s' \<in> set state_suffixes" "endswith (k @ s) s'" for s'
  proof -
    have "a = b \<or> \<not> endswith a b" if "a \<in> set state_suffixes" "b \<in> set state_suffixes" for a b
      using suffixes_apart that by (simp only: list_all_iff)
    then show ?thesis using endswith_append [OF that(2)] assms that(1) by metis
  qed
qed

lemma mark_kind_suffix:
  assumes "s \<in> set state_suffixes" "k @ s \<notin> set SERVER_ALERT_KINDS \<union> set kinds" "map_of state_kinds (k @ s) = None"
    "\<not> startswith (k @ s) ''offline_''" "\<not> startswith (k @ s) ''oom_''"
  shows "mark_kind kinds (k @ s) = k"
  using assms(2-) by (simp add: mark_kind_def suffix_found [OF assms(1)])

lemma mark_kind_oom:
  assumes "startswith key ''oom_''"
  shows "mark_kind kinds key = ''oom''"
proof -
  obtain r where "key = ''oom_'' @ r" using assms unfolding startswith_def by (metis append_take_drop_id)
  then show ?thesis using assms by (simp add: mark_kind_def Let_def partition_chr_def)
qed


text \<open>Which entries of the state of a server tell of a kind of alert, \<open>kinds\<close> being those of its messages: the level of the kind;
  some old names; everything about silence that begins with its name; and the name of the kind with one of the endings, unless
  that is the name of another kind.\<close>

definition tells_of :: "string list \<Rightarrow> string \<Rightarrow> string \<Rightarrow> bool" where
  "tells_of kinds kind key \<longleftrightarrow>
     key = kind \<and> kind \<in> set SERVER_ALERT_KINDS
     \<or> (key, kind) \<in> set state_kinds
     \<or> kind = ''offline'' \<and> startswith key ''offline_''
     \<or> (\<exists>s\<in>set state_suffixes. key = kind @ s) \<and> key \<notin> set SERVER_ALERT_KINDS \<and> key \<notin> set kinds \<and> key \<notin> set (map fst state_kinds)
         \<and> \<not> startswith key ''offline_'' \<and> \<not> startswith key ''oom_''"

lemma kinds_apart:
  "list_all (\<lambda>k. map_of state_kinds k = None \<and> \<not> startswith k ''offline_'' \<and> \<not> startswith k ''oom_'') SERVER_ALERT_KINDS"
  "list_all (\<lambda>(k, k'). map_of state_kinds k = Some k' \<and> k \<noteq> k' \<and> \<not> startswith k ''offline_'' \<and> \<not> startswith k ''oom_'') state_kinds"
  by code_simp+

lemma tells_mark_kind:
  assumes "tells_of kinds kind key"
  shows "mark_kind kinds key = kind"
proof -
  consider (level) "key = kind" "kind \<in> set SERVER_ALERT_KINDS" | (old) "(key, kind) \<in> set state_kinds"
    | (offline) "kind = ''offline''" "startswith key ''offline_''"
    | (ending) s where "s \<in> set state_suffixes" "key = kind @ s" "key \<notin> set SERVER_ALERT_KINDS \<union> set kinds" "map_of state_kinds key = None"
        "\<not> startswith key ''offline_''" "\<not> startswith key ''oom_''"
    using assms by (auto simp: tells_of_def map_of_eq_None_iff)
  then show ?thesis
  proof cases
    case level
    then show ?thesis using kinds_apart(1) by (auto simp: mark_kind_def list_all_iff)
  next
    case old
    then show ?thesis using kinds_apart(2) by (auto simp: mark_kind_def list_all_iff)
  next
    case offline
    then obtain r where "key = ''offline_'' @ r" unfolding startswith_def by (metis append_take_drop_id)
    then show ?thesis using offline by (simp add: mark_kind_def Let_def partition_chr_def)
  next
    case ending
    then show ?thesis using mark_kind_suffix [of s kind kinds] by simp
  qed
qed

definition own_kinds :: "owned list \<Rightarrow> int \<Rightarrow> string list" where
  "own_kinds msgs srv = kinds_where (\<lambda>_. True) msgs srv"

lemma mark_kind_cong: "set a = set b \<Longrightarrow> mark_kind a key = mark_kind b key"
  by (simp add: mark_kind_def Let_def)

lemma own_kinds_split: "set (kinds_where P msgs srv @ kinds_where (\<lambda>i. \<not> P i) msgs srv) = set (own_kinds msgs srv)"
  by (auto simp: kinds_where_def own_kinds_def)

lemma confirmed_finished:
  assumes "confirmed can_send msgs finished srv key" "i < length msgs" "msgs ! i = (m, Some srv)" "am_kind m = mark_kind (own_kinds msgs srv) key"
  shows "i \<in> set finished"
proof (rule ccontr)
  assume i: "i \<notin> set finished"
  let ?un = "kinds_where (\<lambda>i. i \<notin> set finished) msgs srv" and ?co = "kinds_where (\<lambda>i. i \<in> set finished) msgs srv"
  have un: "am_kind m \<in> set ?un" using i assms(2,3) by (force simp: kinds_where_def)
  then have "?un \<noteq> []" by auto
  then have "mark_kind (?co @ ?un) key \<notin> set ?un" using assms(1) by (simp add: confirmed_def Let_def split: if_splits)
  then show False using un assms(4) mark_kind_cong [OF own_kinds_split, of "\<lambda>i. i \<in> set finished" msgs srv key] by simp
qed

lemma finished_if_written:
  "(srv, key, v) \<in> set (fire_writes can_send d h) \<Longrightarrow> \<not> startswith key ''oom_'' \<Longrightarrow>
    dl_ok d \<or> confirmed can_send (h_fires h) (dl_finished d) srv key"
  "(srv, key, v) \<in> set (rec_writes can_send d h) \<Longrightarrow> dl_ok d \<or> confirmed can_send (h_recs h) (dl_finished d) srv key"
  by (auto simp: fire_writes_def rec_writes_def)

text \<open>Any courier that tells what it reports as done makes the marks of a tick true.\<close>

context courier
begin

lemma written_told:
  assumes "ready s" "dl_ok (deliver s (map fst msgs)) \<or> confirmed can_send msgs (dl_finished (deliver s (map fst msgs))) srv key"
    "i < length msgs" "msgs ! i = (m, Some srv)" "am_kind m = mark_kind (own_kinds msgs srv) key"
  shows "told_by s (map fst msgs) i"
proof -
  have "dl_ok (deliver s (map fst msgs)) \<or> i \<in> set (dl_finished (deliver s (map fst msgs)))"
    using assms(2) confirmed_finished [OF _ assms(3,4,5)] by blast
  then show ?thesis using done_told [OF assms(1), of i "map fst msgs"] assms(3) by simp
qed

end

text \<open>C14. The state of a server says that a problem was told only when it was: an entry of the state that tells of a kind of alert
  and waits for the messages of the tick is written only when every message of that kind about this server was accepted by a chat
  or the webhook, or refused for good.  Out-of-memory alerts are left aside: those of unknown fate are deliberately taken as
  told.\<close>

theorem mark_waits_for_message:
  fixes posts threshold cfg can_send users now h
  defines "d \<equiv> dispatch posts True threshold (fire_oom (h_fires h)) cfg can_send users now (map fst (h_fires h))"
  assumes "alerts_enabled cfg" "(srv, key, v) \<in> set (fire_writes can_send d h)"
    "i < length (h_fires h)" "h_fires h ! i = (m, Some srv)" "tells_of (own_kinds (h_fires h) srv) (am_kind m) key" "am_kind m \<noteq> ''oom''"
  shows "\<exists>k<length (snd (merge_storm (map fst (h_fires h)))). i \<in> set (snd (merge_storm (map fst (h_fires h))) ! k) \<and>
    (reached (dl_link d) k \<or> refused (dl_link d) k)"
proof -
  define sh where "sh = \<lparr>sh_posts = posts, sh_mode = True, sh_threshold = threshold, sh_oom = fire_oom (h_fires h), sh_cfg = cfg,
    sh_can_send = can_send, sh_users = users, sh_now = now\<rparr>"
  have d: "d = ship sh (map fst (h_fires h))" by (simp add: d_def ship_def sh_def)
  note k = tells_mark_kind [OF assms(6), symmetric]
  have "\<not> startswith key ''oom_''" using k assms(7) mark_kind_oom by metis
  note w = finished_if_written(1) [OF assms(3) this]
  have "told (sh_oom sh) (map fst (h_fires h)) (dl_link d) i"
    unfolding d by (rule panel.written_told [OF _ w [unfolded d] assms(4,5) k]) (simp add: sh_def assms(2))
  moreover have "\<not> excused oom lk k (map fst (h_fires h) ! i)" for oom lk k using assms(4,5,7) by (simp add: excused_def)
  ultimately show ?thesis by (simp add: told_def)
qed

section \<open>Nothing is lost when messages are held back\<close>

lemma hold_server_fires: "h_fires (hold_server onb dev f fa r ra) = filter (\<lambda>(m, _). (onb \<longrightarrow> msg_ok (am_kind m)) \<and> (dev \<longrightarrow> \<not> dev_quiet (am_kind m))) f"
proof -
  have o: "fst (onboard_split f fa) = filter (\<lambda>(m, _). msg_ok (am_kind m)) f" for f fa by (simp add: onboard_split_def Let_def)
  have d: "fst (dev_split f fa) = filter (\<lambda>(m, _). \<not> dev_quiet (am_kind m)) f" for f fa by (simp add: dev_split_def Let_def)
  have "h_fires (hold_server onb dev f fa r ra)
      = fst ((if dev then dev_split else (\<lambda>f fa. (f, fa, []))) (fst (if onb then onboard_split f fa else (f, fa, []))) 
          (fst (snd (if onb then onboard_split f fa else (f, fa, [])))))"
    by (simp add: hold_server_def Let_def case_prod_unfold)
  then show ?thesis by (cases onb; cases dev) (simp_all add: o d case_prod_unfold)
qed

lemma onboard_split_writes: "onboard_split f fa = (f', kept, now) \<Longrightarrow> mset kept + mset now = mset fa"
  by (auto simp: onboard_split_def Let_def)

lemma dev_split_writes: "dev_split f fa = (f', kept, now) \<Longrightarrow> mset kept + mset now = mset fa"
  by (auto simp: dev_split_def Let_def split: if_splits)

lemma hold_server_writes:
  "mset (h_fire_apply (hold_server onb dev f fa r ra)) + mset (h_rec_apply (hold_server onb dev f fa r ra)) + mset (h_now (hold_server onb dev f fa r ra))
   = mset fa + mset ra"
proof -
  obtain f1 fa1 n1 where 1: "(if onb then onboard_split f fa else (f, fa, [])) = (f1, fa1, n1)" by (metis prod_cases3)
  obtain r1 ra1 n2 where 2: "(if onb then onboard_split r ra else (r, ra, [])) = (r1, ra1, n2)" by (metis prod_cases3)
  obtain f2 fa2 n3 where 3: "(if dev then dev_split f1 fa1 else (f1, fa1, [])) = (f2, fa2, n3)" by (metis prod_cases3)
  obtain r2 ra2 n4 where 4: "(if dev then dev_split r1 ra1 else (r1, ra1, [])) = (r2, ra2, n4)" by (metis prod_cases3)
  have "mset fa1 + mset n1 = mset fa" "mset ra1 + mset n2 = mset ra" "mset fa2 + mset n3 = mset fa1" "mset ra2 + mset n4 = mset ra1"
    using 1 2 3 4 by (auto dest: onboard_split_writes dev_split_writes split: if_splits)
  then have "mset fa = mset fa2 + mset n3 + mset n1" "mset ra = mset ra2 + mset n4 + mset n2" by simp_all
  moreover have "hold_server onb dev f fa r ra = \<lparr>h_fires = f2, h_fire_apply = fa2, h_recs = r2, h_rec_apply = ra2, h_now = n1 @ n2 @ n3 @ n4\<rparr>"
    unfolding hold_server_def 1 2 Let_def prod.case 3 4 ..
  ultimately show ?thesis by (simp add: ac_simps)
qed

lemma slice_split: "a \<le> b \<Longrightarrow> slice a b xs @ drop b xs = drop a xs"
  unfolding slice_def by (metis append_take_drop_id drop_drop le_add_diff_inverse2)

lemma slices_cover:
  "ps \<noteq> [] \<Longrightarrow> sorted (ps @ [length xs]) \<Longrightarrow> concat (map (\<lambda>(a, b). slice a b xs) (zip ps (tl ps @ [length xs]))) = drop (hd ps) xs"
proof (induction ps)
  case (Cons p ps)
  show ?case
  proof (cases ps)
    case Nil
    then show ?thesis using Cons.prems by (simp add: slice_def)
  next
    case (Cons q qs)
    then show ?thesis using Cons.IH Cons.prems slice_split [of p q xs] by simp
  qed
qed simp


text \<open>The marks of a tick begin at 0, never go back and stay within the queues.\<close>

definition in_step :: "(mark \<Rightarrow> nat) \<Rightarrow> tick_queues \<Rightarrow> bool" where
  "in_step f q \<longleftrightarrow> f (hd (q_marks q)) = 0 \<and> sorted (map f (q_marks q) @ [f (end_mark q)])"

definition marks_ok :: "tick_queues \<Rightarrow> bool" where
  "marks_ok q \<longleftrightarrow> q_marks q \<noteq> [] \<and> in_step mk_fires q \<and> in_step mk_fire_apply q \<and> in_step mk_recs q \<and> in_step mk_rec_apply q"

lemma spans_cover:
  assumes "q_marks q \<noteq> []" "in_step f q" "f (end_mark q) = length xs"
  shows "concat (map (\<lambda>(x, y). slice (f x) (f y) xs) (spans q)) = xs"
proof -
  let ?ps = "map f (q_marks q)"
  have "tl ?ps @ [length xs] = map f (tl (q_marks q) @ [end_mark q])" by (simp add: map_tl assms(3))
  then have "zip ?ps (tl ?ps @ [length xs]) = map (\<lambda>(x, y). (f x, f y)) (spans q)" by (simp only: zip_map_map spans_def)
  then have "map (\<lambda>(x, y). slice (f x) (f y) xs) (spans q) = map (\<lambda>(a, b). slice a b xs) (zip ?ps (tl ?ps @ [length xs]))"
    by (simp add: comp_def case_prod_unfold)
  then show ?thesis
    using slices_cover [of ?ps xs] assms by (simp add: in_step_def hd_map)
qed

lemma mset_concat_map: "mset (concat (map f xs)) = sum_list (map (\<lambda>x. mset (f x)) xs)"
  by (induction xs) simp_all

text \<open>C15. Holding messages back loses no write: each pending write of the tick either still waits for its message or is made at once,
  whichever servers are being connected or are for development.\<close>

theorem hold_back_keeps_writes:
  assumes "marks_ok q"
  shows "mset (h_fire_apply (hold_back onb dev q)) + mset (h_rec_apply (hold_back onb dev q)) + mset (h_now (hold_back onb dev q))
    = mset (q_fire_apply q) + mset (q_rec_apply q)"
proof (cases "onb = [] \<and> dev = []")
  case True
  then show ?thesis by (simp add: hold_back_def Let_def)
next
  case False
  define hs where "hs = map (\<lambda>(x, y).
                       hold_server (mk_srv x \<in> set onb) (mk_srv x \<in> set dev)
                         (slice (mk_fires x) (mk_fires y) (tag (fire_spans q) (q_fires q))) (slice (mk_fire_apply x) (mk_fire_apply y) (q_fire_apply q))
                         (slice (mk_recs x) (mk_recs y) (tag (rec_spans q) (q_recs q))) (slice (mk_rec_apply x) (mk_rec_apply y) (q_rec_apply q))) (spans q)"
  have h: "h_fire_apply (hold_back onb dev q) = concat (map h_fire_apply hs)" "h_rec_apply (hold_back onb dev q) = concat (map h_rec_apply hs)"
    "h_now (hold_back onb dev q) = concat (map h_now hs)"
    using False by (auto simp: hold_back_def Let_def hs_def)
  have c: "concat (map (\<lambda>(x, y). slice (mk_fire_apply x) (mk_fire_apply y) (q_fire_apply q)) (spans q)) = q_fire_apply q"
    "concat (map (\<lambda>(x, y). slice (mk_rec_apply x) (mk_rec_apply y) (q_rec_apply q)) (spans q)) = q_rec_apply q"
    using assms by (auto intro!: spans_cover simp: marks_ok_def end_mark_def)
  have "mset (concat (map h_fire_apply hs)) + mset (concat (map h_rec_apply hs)) + mset (concat (map h_now hs))
      = sum_list (map (\<lambda>h. mset (h_fire_apply h) + mset (h_rec_apply h) + mset (h_now h)) hs)"
    by (simp add: mset_concat_map sum_list_addf)
  also have "\<dots> = sum_list (map (\<lambda>(x, y). mset (slice (mk_fire_apply x) (mk_fire_apply y) (q_fire_apply q))
      + mset (slice (mk_rec_apply x) (mk_rec_apply y) (q_rec_apply q))) (spans q))"
    by (simp add: hs_def comp_def case_prod_unfold hold_server_writes)
  also have "\<dots> = mset (q_fire_apply q) + mset (q_rec_apply q)"
    using arg_cong [OF c(1), of mset] arg_cong [OF c(2), of mset] by (simp add: mset_concat_map case_prod_unfold sum_list_addf)
  finally show ?thesis by (simp only: h)
qed


section \<open>The message about the panel itself\<close>

lemma in_slice: "x \<in> set (slice a b xs) \<longleftrightarrow> (\<exists>i<length xs. a \<le> i \<and> i < b \<and> x = xs ! i)"
proof
  assume "x \<in> set (slice a b xs)"
  then obtain k where "k < length (slice a b xs)" "x = slice a b xs ! k" by (metis in_set_conv_nth)
  then show "\<exists>i<length xs. a \<le> i \<and> i < b \<and> x = xs ! i" by (intro exI [of _ "a + k"]) (auto simp: slice_def)
next
  assume "\<exists>i<length xs. a \<le> i \<and> i < b \<and> x = xs ! i"
  then obtain i where "i < length xs" "a \<le> i" "i < b" "x = xs ! i" by blast
  then show "x \<in> set (slice a b xs)" unfolding in_set_conv_nth slice_def by (intro exI [of _ "i - a"]) auto
qed

lemma in_spans:
  assumes "q_marks q \<noteq> []"
  shows "p \<in> set (spans q) \<longleftrightarrow> (\<exists>k. Suc k < length (q_marks q) \<and> p = (q_marks q ! k, q_marks q ! Suc k)) \<or> p = (last (q_marks q), end_mark q)"
proof -
  obtain ms m where q: "q_marks q = ms @ [m]" using assms by (metis rev_exhaust)
  have len: "length (tl (q_marks q) @ [end_mark q]) = Suc (length ms)" by (simp add: q)
  have nth: "(tl (q_marks q) @ [end_mark q]) ! k = (if k = length ms then end_mark q else q_marks q ! Suc k)" if "k \<le> length ms" for k
    using that by (cases "k = length ms") (simp_all add: q nth_append nth_tl)
  have "p \<in> set (spans q) \<longleftrightarrow> (\<exists>k\<le>length ms. p = (q_marks q ! k, (tl (q_marks q) @ [end_mark q]) ! k))"
    unfolding spans_def in_set_zip using len by (auto simp: q less_Suc_eq_le prod_eq_iff)
  also have "\<dots> \<longleftrightarrow> (\<exists>k<length ms. p = (q_marks q ! k, q_marks q ! Suc k)) \<or> p = (q_marks q ! length ms, end_mark q)"
    using nth by (auto simp: le_less)
  finally show ?thesis by (simp add: q nth_append)
qed


lemma gap_kind: "am_kind (gap_message r) = ''ingest_gap''" "\<not> msg_ok ''ingest_gap''" "\<not> dev_quiet ''ingest_gap''"
  by (simp_all add: gap_message_def msg_ok_def onboard_SEND_def dev_quiet_def dev_APP_def)

lemma some_kept:
  "(\<exists>m\<in>fst ` set (concat (map (\<lambda>(x, y). filter (\<lambda>(m, _). K x m) (S x y)) ps)). P m)
    \<longleftrightarrow> (\<exists>(x, y)\<in>set ps. \<exists>t\<in>set (S x y). P (fst t) \<and> K x (fst t))"
  by (induction ps) (auto simp: case_prod_unfold)

text \<open>C16. When most servers fall silent together the panel tells it once, instead of each server, and notes that it did.  The message
  belongs to no server, but it stands at the end of the queue, in the part of the last server: it is thrown away exactly when that
  server is being connected, and the panel still notes that it was told.\<close>

theorem gap_message_kept_iff:
  assumes "marks_ok q" "gap_n \<noteq> 0" "\<forall>m\<in>set (q_fires q). am_kind m \<noteq> ''ingest_gap''" "gap_step gap_n now (None, q) = (said, q')"
  shows "said = Some now \<and>
    ((\<exists>m\<in>fst ` set (h_fires (hold_back onb dev q')). am_kind m = ''ingest_gap'') \<longleftrightarrow> mk_srv (last (q_marks q)) \<notin> set onb)"
proof -
  have q': "q' = q\<lparr>q_fires := q_fires q @ [gap_message False]\<rparr>" and said: "said = Some now" using assms(2,4) by (auto simp: gap_step_def)
  let ?n = "length (q_fires q)"
  define T where "T = tag (fire_spans q') (q_fires q')"
  have T: "length T = Suc ?n" "am_kind (fst (T ! ?n)) = ''ingest_gap''" "\<And>i. i < ?n \<Longrightarrow> am_kind (fst (T ! i)) \<noteq> ''ingest_gap''"
    using assms(3) by (simp_all add: T_def tag_def q' gap_kind nth_append)
  have gap: "i = ?n" if "i < length T" "am_kind (fst (T ! i)) = ''ingest_gap''" for i using that T(1,3) by (metis less_SucE)
  have ne: "q_marks q \<noteq> []" using assms(1) by (simp add: marks_ok_def)
  have "sorted (map mk_fires (q_marks q) @ [?n])" using assms(1) by (simp add: marks_ok_def in_step_def end_mark_def)
  then have le: "mk_fires m \<le> ?n" if "m \<in> set (q_marks q)" for m using that by (auto simp: sorted_append)
  have sp: "p \<in> set (spans q') \<longleftrightarrow> (\<exists>k. Suc k < length (q_marks q) \<and> p = (q_marks q ! k, q_marks q ! Suc k)) \<or> p = (last (q_marks q), end_mark q')" for p
    using in_spans [of q' p] ne by (simp add: q')
  show ?thesis
  proof (cases "onb = [] \<and> dev = []")
    case True
    have "T ! ?n \<in> set T" using T(1) by simp
    then show ?thesis using True T(2) by (auto simp: said hold_back_def Let_def T_def [symmetric] intro!: bexI [of _ "T ! ?n"])
  next
    case False
    let ?keep = "\<lambda>x m. (mk_srv x \<in> set onb \<longrightarrow> msg_ok (am_kind m)) \<and> (mk_srv x \<in> set dev \<longrightarrow> \<not> dev_quiet (am_kind m))"
    have hf: "h_fires (hold_back onb dev q') = concat (map (\<lambda>(x, y). filter (\<lambda>(m, _). ?keep x m) (slice (mk_fires x) (mk_fires y) T)) (spans q'))"
      unfolding hold_back_def Let_def if_not_P [OF False] T_def [symmetric] by (simp add: comp_def case_prod_unfold hold_server_fires)
    have "(\<exists>m\<in>fst ` set (h_fires (hold_back onb dev q')). am_kind m = ''ingest_gap'')
        \<longleftrightarrow> (\<exists>(x, y)\<in>set (spans q'). \<exists>t\<in>set (slice (mk_fires x) (mk_fires y) T). am_kind (fst t) = ''ingest_gap'' \<and> ?keep x (fst t))"
      unfolding hf by (rule some_kept)
    also have "\<dots> \<longleftrightarrow> (\<exists>(x, y)\<in>set (spans q'). mk_fires x \<le> ?n \<and> ?n < mk_fires y \<and> mk_srv x \<notin> set onb)"
    proof -
      have "(\<exists>t\<in>set (slice a b T). am_kind (fst t) = ''ingest_gap'' \<and> ?keep x (fst t)) \<longleftrightarrow> a \<le> ?n \<and> ?n < b \<and> mk_srv x \<notin> set onb" for a b and x :: mark
      proof -
        have *: "(\<exists>t\<in>set (slice a b T). am_kind (fst t) = ''ingest_gap'' \<and> K t) \<longleftrightarrow> a \<le> ?n \<and> ?n < b \<and> K (T ! ?n)" for K
        proof -
          have "(\<exists>t\<in>set (slice a b T). am_kind (fst t) = ''ingest_gap'' \<and> K t)
              \<longleftrightarrow> (\<exists>i<length T. am_kind (fst (T ! i)) = ''ingest_gap'' \<and> a \<le> i \<and> i < b \<and> K (T ! i))"
            unfolding Bex_def in_slice by blast
          also have "\<dots> \<longleftrightarrow> a \<le> ?n \<and> ?n < b \<and> K (T ! ?n)" using gap T(1,2) by (metis lessI)
          finally show ?thesis .
        qed
        show ?thesis unfolding * using T(2) gap_kind by simp
      qed
      then show ?thesis by (simp add: case_prod_unfold)
    qed
    also have "\<dots> \<longleftrightarrow> mk_srv (last (q_marks q)) \<notin> set onb"
    proof -
      have "\<not> ?n < mk_fires (q_marks q ! Suc k)" if "Suc k < length (q_marks q)" for k using le that by (simp add: not_less)
      moreover have "mk_fires (last (q_marks q)) \<le> ?n" using le ne by simp
      moreover have "mk_fires (end_mark q') = Suc ?n" by (simp add: end_mark_def q')
      ultimately show ?thesis unfolding Bex_def sp by fastforce
    qed
    finally show ?thesis by (simp add: said)
  qed
qed


section \<open>Concrete ticks\<close>

definition wit_queues :: tick_queues where
  "wit_queues =
     \<lparr>q_fires = [wit_msg ''a'' ''full'', wit_msg ''b'' ''half''],
      q_fire_apply = [(1, ''disk'', PInt 2), (1, ''disk_told'', PList [PStr ''x'']), (2, ''disk'', PInt 2), (2, ''cpu_hush'', PNone)],
      q_recs = [], q_rec_apply = [],
      q_marks = [\<lparr>mk_srv = 1, mk_fires = 0, mk_fire_apply = 0, mk_recs = 0, mk_rec_apply = 0\<rparr>,
                 \<lparr>mk_srv = 2, mk_fires = 1, mk_fire_apply = 2, mk_recs = 0, mk_rec_apply = 0\<rparr>]\<rparr>"

lemma wit_marks: "marks_ok wit_queues"
  by (simp add: marks_ok_def in_step_def end_mark_def wit_queues_def)

theorem hold_back_keeps_writes_witness:
  "h_now (hold_back [2] [] wit_queues) = [(2, ''cpu_hush'', PNone)] \<and>
   mset (h_fire_apply (hold_back [2] [] wit_queues)) + mset (h_rec_apply (hold_back [2] [] wit_queues)) + mset (h_now (hold_back [2] [] wit_queues))
    = mset (q_fire_apply wit_queues) + mset (q_rec_apply wit_queues)"
  using hold_back_keeps_writes [OF wit_marks, of "[2]" "[]"] by (intro conjI) (code_simp, simp)

theorem gap_message_kept_iff_witness:
  "\<exists>said q'. gap_step 6 99 (None, wit_queues) = (said, q') \<and> said = Some 99 \<and>
    \<not> (\<exists>m\<in>fst ` set (h_fires (hold_back [2] [] q')). am_kind m = ''ingest_gap'') \<and>
    (\<exists>m\<in>fst ` set (h_fires (hold_back [1] [] q')). am_kind m = ''ingest_gap'')"
proof -
  obtain said q' where g: "gap_step 6 99 (None, wit_queues) = (said, q')" by fastforce
  have k: "\<forall>m\<in>set (q_fires wit_queues). am_kind m \<noteq> ''ingest_gap''" by (simp add: wit_queues_def wit_msg_def)
  have "mk_srv (last (q_marks wit_queues)) = 2" by (simp add: wit_queues_def)
  then show ?thesis
    using gap_message_kept_iff [OF wit_marks _ k g, of "[2]" "[]"] gap_message_kept_iff [OF wit_marks _ k g, of "[1]" "[]"] g by simp
qed

text \<open>The second message does not arrive: only the first server's writes are made.\<close>

definition wit_held :: held where
  "wit_held = hold_back [] [] wit_queues"

lemma wit_fire_writes:
  "(1, ''disk_told'', PList [PStr ''x'']) \<in> set (fire_writes True
     (dispatch wit_posts True 0 (fire_oom (h_fires wit_held)) wit_cfg True [] 0 (map fst (h_fires wit_held))) wit_held)"
  by code_simp

theorem mark_waits_for_message_witness:
  "(1, ''disk_told'', PList [PStr ''x'']) \<in> set (fire_writes True
     (dispatch wit_posts True 0 (fire_oom (h_fires wit_held)) wit_cfg True [] 0 (map fst (h_fires wit_held))) wit_held) \<and>
   (\<exists>k<length (snd (merge_storm (map fst (h_fires wit_held)))). 0 \<in> set (snd (merge_storm (map fst (h_fires wit_held))) ! k) \<and>
    (let lk = dl_link (dispatch wit_posts True 0 (fire_oom (h_fires wit_held)) wit_cfg True [] 0 (map fst (h_fires wit_held)))
     in reached lk k \<or> refused lk k))"
proof -
  have e: "alerts_enabled wit_cfg" by code_simp
  have q: "0 < length (h_fires wit_held)" "h_fires wit_held ! 0 = (wit_msg ''a'' ''full'', Some 1)" by code_simp+
  have k: "tells_of (own_kinds (h_fires wit_held) 1) (am_kind (wit_msg ''a'' ''full'')) ''disk_told''" by code_simp
  have o: "am_kind (wit_msg ''a'' ''full'') \<noteq> ''oom''" by code_simp
  show ?thesis using mark_waits_for_message [OF e wit_fire_writes q k o] wit_fire_writes by (simp add: Let_def)
qed

end
