(* ===== verification/Traffic.thy ===== *)
theory Traffic
  imports Py_Datetime
begin

text \<open>
  Traffic of a server against the limit of its tariff (\<open>traffic.py\<close>): the growth of the counters of its network cards
  goes into days, days into the current billing period, and the period into an alert level.

  The two JSON columns \<open>traffic_ctr\<close> and \<open>traffic_sum\<close> are written by this module only, so they are records here; what an
  agent sends (\<open>ifaces\<close>) is any \<open>py\<close> value.  A row of \<open>server_traffic\<close> is found by server and day.  Quotients of seconds
  and days are exact.
\<close>

section \<open>Columns\<close>

record traffic_ctr =
  tc_since :: string
  tc_c :: "(string \<times> (int \<times> int)) list"

record traffic_sum =
  ts_at :: string
  ts_day :: string
  ts_start :: int
  ts_end :: int
  ts_rx :: int
  ts_tx :: int
  ts_used :: int
  ts_both :: bool
  ts_limit :: int
  ts_forecast :: "int option"
  ts_days :: rat
  ts_left :: rat
  ts_full :: bool

record traffic_server =
  t_id :: int
  t_ctr :: "traffic_ctr option"
  t_sum :: "traffic_sum option"
  t_limit_gb :: int
  t_count :: string
  t_cycle_day :: int

record traffic_row =
  tr_server :: int
  tr_day :: int
  tr_rx :: int
  tr_tx :: int

definition SUM_EVERY :: int where "SUM_EVERY = sec 600"
definition WARN_PCT :: rat where "WARN_PCT = 90"
definition FORECAST_MIN_DAYS :: rat where "FORECAST_MIN_DAYS = 3"

text \<open>\<open>_iso\<close>\<close>

definition traffic_iso :: "string \<Rightarrow> time option" where
  "traffic_iso v = (if v = [] then None else map_option (\<lambda>d. dt_utc (aware d)) (fromisoformat v))"

section \<open>Billing periods\<close>

text \<open>\<open>date(y, m, d)\<close>\<close>

definition mk_date :: "int \<Rightarrow> int \<Rightarrow> int \<Rightarrow> int res" where
  "mk_date y m d = (if date_ok y m d then Inr (ymd2ord y m d) else Inl ValueError)"

definition traffic_period :: "time \<Rightarrow> int \<Rightarrow> (int \<times> int) res" where
  "traffic_period now cycle_day =
     (let cd = min (max (if cycle_day = 0 then 1 else cycle_day) 1) 28; (dy, dm, dd) = ord2ymd (date_of now);
          (y, m) = (if dd \<ge> cd then (dy, dm) else if dm = 1 then (dy - 1, 12) else (dy, dm - 1))
      in rbind (mk_date y m cd) (\<lambda>start.
         rbind (if m = 12 then mk_date (y + 1) 1 cd else mk_date y (m + 1) cd) (\<lambda>end. Inr (start, end))))"

section \<open>The summary of a period\<close>

definition date_moment :: "int \<Rightarrow> time" where
  "date_moment day = (day - epoch_ord) * day_us"

definition round2 :: "rat \<Rightarrow> rat" where
  "round2 r = of_int (round_half_even (r * 100)) / 100"

definition days_between :: "time \<Rightarrow> time \<Rightarrow> rat" where
  "days_between a b = max (of_int (b - a) / of_int day_us) 0"

definition summary :: "traffic_row list \<Rightarrow> traffic_server \<Rightarrow> time \<Rightarrow> traffic_sum res" where
  "summary rows s now =
     rbind (traffic_period now (t_cycle_day s)) (\<lambda>(start, end).
       (let own = filter (\<lambda>r. tr_server r = t_id s \<and> start \<le> tr_day r \<and> tr_day r < end) rows;
            rx = sum_list (map tr_rx own); tx = sum_list (map tr_tx own);
            out_only = ((if t_count s = [] then ''out'' else t_count s) \<noteq> ''both'');
            used = (if out_only then tx else rx + tx);
            p0 = date_moment start; p1 = date_moment end;
            since = (case t_ctr s of None \<Rightarrow> now | Some c \<Rightarrow> (case traffic_iso (tc_since c) of None \<Rightarrow> now | Some t \<Rightarrow> t));
            data_from = max p0 since;
            days = days_between data_from now; left = days_between now p1
        in Inr \<lparr>ts_at = iso now, ts_day = iso_date (date_of now), ts_start = start, ts_end = end, ts_rx = rx, ts_tx = tx, ts_used = used,
                ts_both = (\<not> out_only), ts_limit = t_limit_gb s * 10 ^ 9,
                ts_forecast = (if days \<ge> FORECAST_MIN_DAYS then Some (round_half_even (of_int used + of_int used / days * left)) else None),
                ts_days = round2 days, ts_left = round2 left, ts_full = (data_from \<le> p0)\<rparr>))"

section \<open>A report\<close>

fun json_int :: "py \<Rightarrow> int option" where
  "json_int (PInt n) = Some n"
| "json_int (PBool b) = Some (if b then 1 else 0)"
| "json_int _ = None"

text \<open>The counters of the real cards; a name that comes twice keeps the later ones.\<close>

definition add_iface :: "(string \<times> (int \<times> int)) list \<Rightarrow> py \<Rightarrow> (string \<times> (int \<times> int)) list" where
  "add_iface cur i =
     (case i of
        PDict d \<Rightarrow>
          if \<not> truthy (dget d ''phys'') then cur
          else (case (json_int (dget d ''rx_total''), json_int (dget d ''tx_total'')) of
                  (Some rx, Some tx) \<Rightarrow>
                    if rx \<ge> 0 \<and> tx \<ge> 0 then dset (py_str (por (dget d ''if'') (PStr ''?''))) (rx, tx) cur else cur
                | _ \<Rightarrow> cur)
      | _ \<Rightarrow> cur)"

text \<open>\<open>for i in ifaces or []\<close>: the keys of a dict and the characters of a string are no dicts.\<close>

definition read_ifaces :: "py \<Rightarrow> (string \<times> (int \<times> int)) list res" where
  "read_ifaces ifaces =
     (if \<not> truthy ifaces then Inr []
      else case ifaces of
             PList xs \<Rightarrow> Inr (fold (\<lambda>i cur. add_iface cur i) xs [])
           | PDict _ \<Rightarrow> Inr []
           | PStr _ \<Rightarrow> Inr []
           | _ \<Rightarrow> Inl TypeError)"

text \<open>A counter below the last one: the server was rebooted, all of it is new.\<close>

definition grown :: "int \<Rightarrow> int \<Rightarrow> int" where
  "grown old new = (if new \<ge> old then new - old else new)"

definition growth :: "(string \<times> (int \<times> int)) list \<Rightarrow> (string \<times> (int \<times> int)) list \<Rightarrow> int \<times> int" where
  "growth prev cur =
     fold (\<lambda>(name, rx, tx) (drx, dtx). case map_of prev name of
             None \<Rightarrow> (drx, dtx)
           | Some (p, q) \<Rightarrow> (drx + grown p rx, dtx + grown q tx)) cur (0, 0)"

fun add_day :: "int \<Rightarrow> int \<Rightarrow> int \<times> int \<Rightarrow> traffic_row list \<Rightarrow> traffic_row list" where
  "add_day srv day (rx, tx) [] = [\<lparr>tr_server = srv, tr_day = day, tr_rx = rx, tr_tx = tx\<rparr>]"
| "add_day srv day (rx, tx) (r # rows) =
     (if tr_server r = srv \<and> tr_day r = day then r\<lparr>tr_rx := tr_rx r + rx, tr_tx := tr_tx r + tx\<rparr> # rows
      else r # add_day srv day (rx, tx) rows)"

definition ingest :: "py \<Rightarrow> time \<Rightarrow> traffic_server \<times> traffic_row list \<Rightarrow> (traffic_server \<times> traffic_row list) res" where
  "ingest ifaces now = (\<lambda>(s, rows).
     rbind (read_ifaces ifaces) (\<lambda>cur.
       if cur = [] then Inr (s, rows)
       else
         (let prev = (case t_ctr s of None \<Rightarrow> [] | Some c \<Rightarrow> tc_c c);
              (drx, dtx) = growth prev cur;
              since = (case t_ctr s of None \<Rightarrow> iso now | Some c \<Rightarrow> if tc_since c = [] then iso now else tc_since c);
              s = s\<lparr>t_ctr := Some \<lparr>tc_since = since, tc_c = cur\<rparr>\<rparr>;
              rows = (if drx \<noteq> 0 \<or> dtx \<noteq> 0 then add_day (t_id s) (date_of now) (drx, dtx) rows else rows);
              stale = (case t_sum s of
                         None \<Rightarrow> True
                       | Some old \<Rightarrow> (case traffic_iso (ts_at old) of None \<Rightarrow> True | Some t \<Rightarrow> now - t \<ge> SUM_EVERY)
                                    \<or> ts_day old \<noteq> iso_date (date_of now))
          in if stale then rbind (summary rows s now) (\<lambda>su. Inr (s\<lparr>t_sum := Some su\<rparr>, rows)) else Inr (s, rows))))"

section \<open>The alert\<close>

datatype traffic_reason = Exhausted | Most_used rat | Will_exceed int

definition problem :: "traffic_sum option \<Rightarrow> time \<Rightarrow> (int \<times> traffic_reason option)" where
  "problem ts now =
     (case ts of
        None \<Rightarrow> (0, None)
      | Some t \<Rightarrow>
          if ts_limit t = 0 then (0, None)
          else (case traffic_iso (ts_at t) of
                  None \<Rightarrow> (0, None)
                | Some seen \<Rightarrow>
                    if now - seen > sec 7200 then (0, None)
                    else (let used = of_int (ts_used t); limit = of_int (ts_limit t)
                          in if ts_used t \<ge> ts_limit t then (2, Some Exhausted)
                             else if used / limit * 100 \<ge> WARN_PCT then (1, Some (Most_used (used / limit * 100)))
                             else (case ts_forecast t of
                                     Some fc \<Rightarrow> if fc > ts_limit t then (1, Some (Will_exceed fc)) else (0, None)
                                   | None \<Rightarrow> (0, None)))))"


section \<open>Periods cover the calendar\<close>

text \<open>The \<open>cd\<close>-th day of the month \<open>k\<close>, where months are counted from January of year 0.\<close>

definition month_day :: "int \<Rightarrow> int \<Rightarrow> int" where
  "month_day cd k = ymd2ord (k div 12) (k mod 12 + 1) cd"

lemma days_before_next: "1 \<le> m \<Longrightarrow> m < 12 \<Longrightarrow> days_before_month leap (m + 1) = days_before_month leap m + days_in_month leap m"
proof -
  assume "1 \<le> m" "m < 12"
  then have "m = 1 \<or> m = 2 \<or> m = 3 \<or> m = 4 \<or> m = 5 \<or> m = 6 \<or> m = 7 \<or> m = 8 \<or> m = 9 \<or> m = 10 \<or> m = 11" by presburger
  then show ?thesis by (auto simp: days_before_month_def days_in_month_def)
qed

lemma days_of_year: "days_before_year (y + 1) = days_before_year y + (if is_leap y then 366 else 365)"
proof -
  have d: "y div n = (y - 1) div n + (if y mod n = 0 then 1 else 0)" if "0 < n" for n :: int
  proof -
    have "(y - 1 + 1) div n = (y - 1) div n + (if (y - 1) mod n = n - 1 then 1 else 0)"
    proof -
      have eq: "y - 1 + 1 = n * ((y - 1) div n) + ((y - 1) mod n + 1)" by simp
      have r: "0 \<le> (y - 1) mod n" "(y - 1) mod n < n" using that by auto
      show ?thesis
      proof (cases "(y - 1) mod n = n - 1")
        case True
        then have "y - 1 + 1 = n * ((y - 1) div n + 1) + 0" using eq by (simp add: algebra_simps)
        then show ?thesis using int_div_pos_eq [of "y - 1 + 1" n "(y - 1) div n + 1" 0] that True by simp
      next
        case False
        then show ?thesis using int_div_pos_eq [OF eq] r by simp
      qed
    qed
    then show ?thesis using mod_pred [OF that, of y] by simp
  qed
  have m: "y mod 100 = 0 \<Longrightarrow> y mod 4 = 0" "y mod 400 = 0 \<Longrightarrow> y mod 100 = 0"
    using mod_mod_cancel [of 4 100 y] mod_mod_cancel [of 100 400 y] by simp_all
  define a b c where "a = (y - 1) div 4" "b = (y - 1) div 100" "c = (y - 1) div 400"
  define p q r where "p \<longleftrightarrow> y mod 4 = 0" "q \<longleftrightarrow> y mod 100 = 0" "r \<longleftrightarrow> y mod 400 = 0"
  have e: "y div 4 = a + (if p then 1 else 0)" "y div 100 = b + (if q then 1 else 0)" "y div 400 = c + (if r then 1 else 0)"
    unfolding a_b_c_def p_q_r_def by (rule d, simp)+
  have n: "days_before_year (y + 1) = y * 365 + (a + (if p then 1 else 0)) - (b + (if q then 1 else 0)) + (c + (if r then 1 else 0))"
    unfolding days_before_year_def Let_def add_diff_cancel_right' e ..
  have o: "days_before_year y = (y - 1) * 365 + a - b + c" unfolding days_before_year_def Let_def a_b_c_def ..
  have l: "is_leap y \<longleftrightarrow> p \<and> (\<not> q \<or> r)" by (simp add: is_leap_def p_q_r_def)
  have "q \<Longrightarrow> p" "r \<Longrightarrow> q" using m by (simp_all add: p_q_r_def)
  then show ?thesis unfolding n o l by (cases p; cases q; cases r) (simp_all add: algebra_simps)
qed

lemma month_succ:
  fixes k :: int
  shows "k mod 12 = 11 \<Longrightarrow> (k + 1) div 12 = k div 12 + 1 \<and> (k + 1) mod 12 = 0"
    "k mod 12 \<noteq> 11 \<Longrightarrow> (k + 1) div 12 = k div 12 \<and> (k + 1) mod 12 = k mod 12 + 1"
proof -
  define q r where "q = k div 12" "r = k mod 12"
  have k: "k = 12 * q + r" and r: "0 \<le> r" "r < 12" by (simp_all add: q_r_def)
  show "(k + 1) div 12 = k div 12 + 1 \<and> (k + 1) mod 12 = 0" if "k mod 12 = 11"
  proof -
    have "r = 11" using that by (simp only: q_r_def)
    with k have eq: "k + 1 = 12 * (q + 1) + 0" by (simp only: ring_distribs)
    show ?thesis unfolding q_r_def(1) [symmetric] using int_div_pos_eq [OF eq] int_mod_pos_eq [OF eq] by simp
  qed
  show "(k + 1) div 12 = k div 12 \<and> (k + 1) mod 12 = k mod 12 + 1" if "k mod 12 \<noteq> 11"
  proof -
    have eq: "k + 1 = 12 * q + (r + 1)" using k by simp
    have "r \<noteq> 11" using that by (simp add: q_r_def)
    then show ?thesis unfolding q_r_def [symmetric] using int_div_pos_eq [OF eq] int_mod_pos_eq [OF eq] r by simp
  qed
qed

lemma month_day_next: "month_day cd (k + 1) = month_day cd k + days_in_month (is_leap (k div 12)) (k mod 12 + 1)"
proof (cases "k mod 12 = 11")
  case True
  then have n: "(k + 1) div 12 = k div 12 + 1" "(k + 1) mod 12 = 0" using month_succ(1) by simp_all
  show ?thesis unfolding month_day_def ymd2ord_def n True days_of_year by (simp add: days_before_month_def days_in_month_def)
next
  case False
  then have n: "(k + 1) div 12 = k div 12" "(k + 1) mod 12 = k mod 12 + 1" using month_succ(2) by simp_all
  have "0 \<le> k mod 12" "k mod 12 < 12" by simp_all
  then show ?thesis unfolding month_day_def ymd2ord_def n using days_before_next [of "k mod 12 + 1"] False by simp
qed

lemma month_length: "28 \<le> days_in_month leap m" "days_in_month leap m \<le> 31"
  by (simp_all add: days_in_month_def)

lemma month_day_mono: "j \<le> k \<Longrightarrow> month_day cd j \<le> month_day cd k"
proof (induction k rule: int_ge_induct)
  case (step k)
  then show ?case using month_day_next [of cd k] month_length [of "is_leap (k div 12)" "k mod 12 + 1"] by simp
qed simp


definition clamp_day :: "int \<Rightarrow> int" where
  "clamp_day c = min (max (if c = 0 then 1 else c) 1) 28"

lemma clamp_day: "1 \<le> clamp_day c" "clamp_day c \<le> 28"
  by (simp_all add: clamp_day_def)

text \<open>The period from the \<open>cd\<close>-th of month \<open>k\<close> to the \<open>cd\<close>-th of the next one.\<close>

definition month_period :: "int \<Rightarrow> int \<Rightarrow> (int \<times> int) res" where
  "month_period cd k =
     rbind (mk_date (k div 12) (k mod 12 + 1) cd) (\<lambda>start. rbind (mk_date ((k + 1) div 12) ((k + 1) mod 12 + 1) cd) (\<lambda>end. Inr (start, end)))"

lemma month_number:
  fixes y m :: int
  assumes "1 \<le> m" "m \<le> 12"
  shows "(12 * y + m - 1) div 12 = y" "(12 * y + m - 1) mod 12 = m - 1"
proof -
  have eq: "12 * y + m - 1 = 12 * y + (m - 1)" by simp
  show "(12 * y + m - 1) div 12 = y" "(12 * y + m - 1) mod 12 = m - 1"
    using int_div_pos_eq [OF eq] int_mod_pos_eq [OF eq] assms by simp_all
qed

lemma period_month:
  "\<exists>k. traffic_period now c = month_period (clamp_day c) k \<and> month_day (clamp_day c) k \<le> date_of now \<and> date_of now < month_day (clamp_day c) (k + 1)
     \<and> 12 * fst (ord2ymd (date_of now)) - 1 \<le> k \<and> k \<le> 12 * fst (ord2ymd (date_of now)) + 11"
proof -
  obtain y m d where o: "ord2ymd (date_of now) = (y, m, d)" by (metis prod_cases3)
  have n: "date_of now = ymd2ord y m d" and r: "1 \<le> m" "m \<le> 12" "1 \<le> d" "d \<le> days_in_month (is_leap y) m"
    using ymd2ord_ord2ymd [OF o] by simp_all
  define cd where "cd = clamp_day c"
  note cd = clamp_day [of c, folded cd_def]
  define j where "j = 12 * y + m - 1"
  have j: "j div 12 = y" "j mod 12 + 1 = m" using month_number [OF r(1,2)] by (simp_all add: j_def)
  have day: "date_of now = month_day cd j - cd + d" by (simp add: n month_day_def j ymd2ord_def)
  have nxt: "month_day cd (j + 1) = month_day cd j + days_in_month (is_leap y) m" using month_day_next [of cd j] by (simp only: j)
  have after: "mk_date ((k + 1) div 12) ((k + 1) mod 12 + 1) cd
      = (if k mod 12 + 1 = 12 then mk_date (k div 12 + 1) 1 cd else mk_date (k div 12) (k mod 12 + 1 + 1) cd)" for k
    using month_succ [of k] by (cases "k mod 12 = 11") simp_all
  show ?thesis
  proof (cases "cd \<le> d")
    case True
    have "traffic_period now c = month_period cd j"
      using True by (simp add: traffic_period_def month_period_def o j after Let_def flip: clamp_day_def cd_def)
    moreover have "month_day cd j \<le> date_of now" "date_of now < month_day cd (j + 1)" using True day nxt r(4) cd by simp_all
    moreover have "12 * y - 1 \<le> j" "j \<le> 12 * y + 11" using r by (simp_all add: j_def)
    ultimately show ?thesis unfolding o cd_def by auto
  next
    case False
    define k where "k = j - 1"
    have k: "k div 12 = (if m = 1 then y - 1 else y)" "k mod 12 + 1 = (if m = 1 then 12 else m - 1)"
      using month_number [of 12 "y - 1"] month_number [of "m - 1" y] r by (auto simp: k_def j_def algebra_simps)
    have "traffic_period now c = month_period cd k"
      using False by (cases "m = 1") (simp_all add: traffic_period_def month_period_def o k after Let_def flip: clamp_day_def cd_def)
    moreover have "month_day cd k \<le> date_of now"
      using month_day_next [of cd k] month_length(1) [of "is_leap (k div 12)" "k mod 12 + 1"] day cd r(3) by (simp add: k_def)
    moreover have "date_of now < month_day cd (k + 1)" using False day by (simp add: k_def)
    moreover have "12 * y - 1 \<le> k" "k \<le> 12 * y + 11" using r by (simp_all add: k_def j_def)
    ultimately show ?thesis unfolding o cd_def by auto
  qed
qed

lemma month_day_unique:
  assumes "month_day cd k \<le> n" "n < month_day cd (k + 1)" "month_day cd j \<le> n" "n < month_day cd (j + 1)"
  shows "j = k"
  using assms month_day_mono [of "k + 1" j cd] month_day_mono [of "j + 1" k cd] by linarith

lemma period_month_ok:
  assumes "2 \<le> fst (ord2ymd (date_of now))" "fst (ord2ymd (date_of now)) \<le> 9998"
  shows "\<exists>start end. traffic_period now cycle_day = Inr (start, end) \<and> start \<le> date_of now \<and> date_of now < end
    \<and> 28 \<le> end - start \<and> end - start \<le> 31
    \<and> (\<forall>t. start \<le> date_of t \<and> date_of t < end \<longrightarrow> traffic_period t cycle_day = Inr (start, end))"
proof -
  let ?cd = "clamp_day cycle_day"
  obtain k where k: "traffic_period now cycle_day = month_period ?cd k" "month_day ?cd k \<le> date_of now" "date_of now < month_day ?cd (k + 1)"
      "12 * fst (ord2ymd (date_of now)) - 1 \<le> k" "k \<le> 12 * fst (ord2ymd (date_of now)) + 11"
    using period_month by blast
  have lo: "23 \<le> k" and hi: "k + 1 \<le> 119988" using k(4,5) assms by simp_all
  have ok: "date_ok (i div 12) (i mod 12 + 1) ?cd" if "23 \<le> i" "i \<le> 119988" for i
  proof -
    have "1 \<le> i div 12" "i div 12 \<le> 9999" using zdiv_mono1 [OF that(1), of 12] zdiv_mono1 [OF that(2), of 12] by simp_all
    moreover have "0 \<le> i mod 12" "i mod 12 < 12" by simp_all
    ultimately show ?thesis using clamp_day [of cycle_day] month_length(1) [of "is_leap (i div 12)" "i mod 12 + 1"] by (simp add: date_ok_def)
  qed
  have mp: "month_period ?cd k = Inr (month_day ?cd k, month_day ?cd (k + 1))"
    using ok [of k] ok [of "k + 1"] lo hi by (simp add: month_period_def mk_date_def month_day_def)
  have "traffic_period t cycle_day = month_period ?cd k" if "month_day ?cd k \<le> date_of t" "date_of t < month_day ?cd (k + 1)" for t
    using period_month [of t cycle_day] month_day_unique [OF that] by metis
  then show ?thesis
    using k(1-3) mp month_day_next [of ?cd k] month_length [of "is_leap (k div 12)" "k mod 12 + 1"] by auto
qed

text \<open>C27. A billing period is a month: it contains the present day, has 28 to 31 days whatever day of the month the tariff starts on,
  and every moment of it has the same period, so that the bytes of a day are counted in exactly one.\<close>

theorem period_bounds:
  assumes "2 \<le> fst (ord2ymd (date_of now))" "fst (ord2ymd (date_of now)) \<le> 9998"
  shows "\<exists>start end. traffic_period now cycle_day = Inr (start, end) \<and> start \<le> date_of now \<and> date_of now < end
    \<and> 28 \<le> end - start \<and> end - start \<le> 31
    \<and> (\<forall>t. start \<le> date_of t \<and> date_of t < end \<longrightarrow> traffic_period t cycle_day = Inr (start, end))"
  using period_month_ok [OF assms] .

theorem period_bounds_witness:
  "2 \<le> fst (ord2ymd (date_of 1709164800000000)) \<and>
   (\<exists>start end. traffic_period 1709164800000000 31 = Inr (start, end) \<and> start \<le> date_of 1709164800000000 \<and> date_of 1709164800000000 < end
    \<and> 28 \<le> end - start \<and> end - start \<le> 31
    \<and> (\<forall>t. start \<le> date_of t \<and> date_of t < end \<longrightarrow> traffic_period t 31 = Inr (start, end)))"
proof -
  have "ord2ymd (date_of 1709164800000000) = (2024, 2, 29)" by code_simp
  then show ?thesis using period_bounds [of 1709164800000000 31] by simp
qed


section \<open>What is counted is what passed\<close>

text \<open>
  The abstract meter knows the truth: the counters of the real cards, and for each direction the bytes that passed the cards
  since they were first reported.  The panel only sees the counters in the reports.
\<close>

record meter =
  mt_cards :: "(string \<times> (int \<times> int)) list"
  mt_known :: "string list"
  mt_passed :: "int \<times> int"
  mt_booted :: bool

definition add2 :: "int \<times> int \<Rightarrow> int \<times> int \<Rightarrow> int \<times> int" where
  "add2 a b = (fst a + fst b, snd a + snd b)"

definition meter_pass :: "string \<Rightarrow> int \<times> int \<Rightarrow> meter \<Rightarrow> meter" where
  "meter_pass name v m =
     m\<lparr>mt_cards := dset name (add2 (case map_of (mt_cards m) name of None \<Rightarrow> (0, 0) | Some c \<Rightarrow> c) v) (mt_cards m),
       mt_passed := (if name \<in> set (mt_known m) then add2 (mt_passed m) v else mt_passed m)\<rparr>"

definition meter_boot :: "meter \<Rightarrow> meter" where
  "meter_boot m = m\<lparr>mt_cards := map (\<lambda>(name, _). (name, (0, 0))) (mt_cards m), mt_booted := True\<rparr>"

definition card_json :: "string \<times> (int \<times> int) \<Rightarrow> py" where
  "card_json = (\<lambda>(name, rx, tx). PDict [(''if'', PStr name), (''phys'', PBool True), (''rx_total'', PInt rx), (''tx_total'', PInt tx)])"

definition virtual :: "py \<Rightarrow> bool" where
  "virtual i \<longleftrightarrow> (\<forall>d. i = PDict d \<longrightarrow> \<not> truthy (dget d ''phys''))"

inductive metered :: "traffic_row list \<Rightarrow> meter \<Rightarrow> traffic_server \<Rightarrow> traffic_row list \<Rightarrow> bool" for rows0 where
  metered_start: "t_ctr s = None \<Longrightarrow> \<forall>r\<in>set rows0. tr_server r \<noteq> t_id s \<Longrightarrow>
    metered rows0 \<lparr>mt_cards = [], mt_known = [], mt_passed = (0, 0), mt_booted = False\<rparr> s rows0"
| metered_pass: "metered rows0 m s rows \<Longrightarrow> name \<noteq> [] \<Longrightarrow> 0 \<le> rx \<Longrightarrow> 0 \<le> tx \<Longrightarrow> metered rows0 (meter_pass name (rx, tx) m) s rows"
| metered_boot: "metered rows0 m s rows \<Longrightarrow> metered rows0 (meter_boot m) s rows"
| metered_report: "metered rows0 m s rows \<Longrightarrow> list_all virtual vs \<Longrightarrow>
    ingest (PList (map card_json (mt_cards m) @ vs)) now (s, rows) = Inr (s', rows') \<Longrightarrow>
    metered rows0 (m\<lparr>mt_known := map fst (mt_cards m)\<rparr>) s' rows'"

text \<open>What the panel counted for a server, and what the next report will add; \<open>d\<close> is a direction, \<open>fst\<close> or \<open>snd\<close>.\<close>

definition row_bytes :: "(int \<times> int \<Rightarrow> int) \<Rightarrow> traffic_row \<Rightarrow> int" where
  "row_bytes d r = d (tr_rx r, tr_tx r)"

definition bytes_counted :: "(int \<times> int \<Rightarrow> int) \<Rightarrow> int \<Rightarrow> traffic_row list \<Rightarrow> int" where
  "bytes_counted d srv rows = sum_list (map (row_bytes d) (filter (\<lambda>r. tr_server r = srv) rows))"

definition seen_of :: "traffic_server \<Rightarrow> (string \<times> (int \<times> int)) list" where
  "seen_of s = (case t_ctr s of None \<Rightarrow> [] | Some c \<Rightarrow> tc_c c)"

definition card_due :: "(int \<times> int \<Rightarrow> int) \<Rightarrow> (string \<times> (int \<times> int)) list \<Rightarrow> string \<times> (int \<times> int) \<Rightarrow> int" where
  "card_due d prev = (\<lambda>(name, c). case map_of prev name of None \<Rightarrow> 0 | Some p \<Rightarrow> grown (d p) (d c))"

definition due :: "(int \<times> int \<Rightarrow> int) \<Rightarrow> (string \<times> (int \<times> int)) list \<Rightarrow> (string \<times> (int \<times> int)) list \<Rightarrow> int" where
  "due d prev cards = sum_list (map (card_due d prev) cards)"

lemma growth_due: "growth prev cur = (due fst prev cur, due snd prev cur)"
proof -
  have "fold (\<lambda>(name, rx, tx) (drx, dtx). case map_of prev name of None \<Rightarrow> (drx, dtx) | Some (p, q) \<Rightarrow> (drx + grown p rx, dtx + grown q tx)) cur (a, b)
      = (a + due fst prev cur, b + due snd prev cur)" for a b
    by (induction cur arbitrary: a b) (auto simp: due_def card_due_def split: option.splits)
  then show ?thesis by (simp add: growth_def)
qed

lemma sum_update:
  "distinct (map fst xs) \<Longrightarrow> sum_list (map f (dset k v xs)) = sum_list (map f xs) + f (k, v) - (case map_of xs k of None \<Rightarrow> 0 | Some u \<Rightarrow> (f (k, u) :: int))"
  by (induction xs) (auto split: option.splits simp: map_of_eq_None_iff rev_image_eqI)

lemma bytes_counted_add_day:
  "bytes_counted fst srv (add_day srv day v rows) = bytes_counted fst srv rows + fst v"
  "bytes_counted snd srv (add_day srv day v rows) = bytes_counted snd srv rows + snd v"
  by (induction rows, (cases v; auto simp: bytes_counted_def row_bytes_def)+)

lemma dset_new: "k \<notin> set (map fst xs) \<Longrightarrow> dset k v xs = xs @ [(k, v)]"
  by (induction xs) auto

lemma add_cards:
  "distinct (map fst (acc @ xs)) \<Longrightarrow> \<forall>(name, rx, tx)\<in>set xs. name \<noteq> [] \<and> 0 \<le> rx \<and> 0 \<le> tx \<Longrightarrow>
   fold (\<lambda>i cur. add_iface cur i) (map card_json xs) acc = acc @ xs"
proof (induction xs arbitrary: acc)
  case (Cons x xs)
  obtain name rx tx where x: "x = (name, rx, tx)" by (metis prod_cases3)
  have "add_iface acc (card_json x) = acc @ [x]"
    using Cons.prems by (auto simp: x card_json_def add_iface_def por_def dset_new)
  then show ?case using Cons.IH [of "acc @ [x]"] Cons.prems by simp
qed simp

lemma skip_virtual: "list_all virtual vs \<Longrightarrow> fold (\<lambda>i cur. add_iface cur i) vs acc = acc"
proof (induction vs arbitrary: acc)
  case (Cons v vs)
  then have "add_iface acc v = acc" by (auto simp: virtual_def add_iface_def split: py.splits)
  then show ?case using Cons by simp
qed simp


text \<open>What holds between the meter and the panel.\<close>

definition in_tune :: "meter \<Rightarrow> traffic_server \<Rightarrow> traffic_row list \<Rightarrow> bool" where
  "in_tune m s rows \<longleftrightarrow>
     distinct (map fst (mt_cards m)) \<and> (\<forall>(name, rx, tx)\<in>set (mt_cards m). name \<noteq> [] \<and> 0 \<le> rx \<and> 0 \<le> tx)
     \<and> mt_known m = map fst (seen_of s) \<and> set (mt_known m) \<subseteq> set (map fst (mt_cards m))
     \<and> (\<forall>(name, rx, tx)\<in>set (seen_of s). 0 \<le> rx \<and> 0 \<le> tx)"

lemma in_tuneD:
  assumes "in_tune m s rows"
  shows "distinct (map fst (mt_cards m))" "\<forall>(name, rx, tx)\<in>set (mt_cards m). name \<noteq> [] \<and> 0 \<le> rx \<and> 0 \<le> tx"
    "mt_known m = map fst (seen_of s)" "set (mt_known m) \<subseteq> set (map fst (mt_cards m))"
    "\<forall>(name, rx, tx)\<in>set (seen_of s). 0 \<le> rx \<and> 0 \<le> tx"
proof -
  note a = assms [unfolded in_tune_def]
  show "distinct (map fst (mt_cards m))" using a by (elim conjE)
  show "\<forall>(name, rx, tx)\<in>set (mt_cards m). name \<noteq> [] \<and> 0 \<le> rx \<and> 0 \<le> tx" using a by (elim conjE)
  show "mt_known m = map fst (seen_of s)" using a by (elim conjE)
  show "set (mt_known m) \<subseteq> set (map fst (mt_cards m))" using a by (elim conjE)
  show "\<forall>(name, rx, tx)\<in>set (seen_of s). 0 \<le> rx \<and> 0 \<le> tx" using a by (elim conjE)
qed

definition in_step_dir :: "(int \<times> int \<Rightarrow> int) \<Rightarrow> meter \<Rightarrow> traffic_server \<Rightarrow> traffic_row list \<Rightarrow> bool" where
  "in_step_dir d m s rows \<longleftrightarrow>
     bytes_counted d (t_id s) rows + due d (seen_of s) (mt_cards m) \<le> d (mt_passed m)
     \<and> (\<not> mt_booted m \<longrightarrow> bytes_counted d (t_id s) rows + due d (seen_of s) (mt_cards m) = d (mt_passed m)
          \<and> (\<forall>name c p. map_of (mt_cards m) name = Some c \<longrightarrow> map_of (seen_of s) name = Some p \<longrightarrow> d p \<le> d c))"

definition direction :: "(int \<times> int \<Rightarrow> int) \<Rightarrow> bool" where
  "direction d \<longleftrightarrow> d = fst \<or> d = snd"

lemma direction_simps:
  "direction d \<Longrightarrow> d (add2 a b) = d a + d b" "direction d \<Longrightarrow> d (0, 0) = 0"
  "direction d \<Longrightarrow> 0 \<le> fst a \<Longrightarrow> 0 \<le> snd a \<Longrightarrow> 0 \<le> d a"
  by (auto simp: direction_def add2_def)

lemma in_tune_pos:
  assumes "in_tune m s rows" "direction d"
  shows "map_of (seen_of s) name = Some p \<Longrightarrow> 0 \<le> d p" "(name, c) \<in> set (mt_cards m) \<Longrightarrow> 0 \<le> d c"
proof -
  show "0 \<le> d p" if "map_of (seen_of s) name = Some p"
    using in_tuneD(5) [OF assms(1)] map_of_SomeD [OF that] by (intro direction_simps(3) [OF assms(2)]) (cases p; fastforce)+
  show "0 \<le> d c" if "(name, c) \<in> set (mt_cards m)"
    using in_tuneD(2) [OF assms(1)] that by (intro direction_simps(3) [OF assms(2)]) (cases c; fastforce)+
qed

lemma grown_bounds: "0 \<le> old \<Longrightarrow> 0 \<le> new \<Longrightarrow> 0 \<le> grown old new \<and> grown old new \<le> new"
  "0 \<le> old \<Longrightarrow> 0 \<le> v \<Longrightarrow> grown old (c + v) \<le> grown old c + v" "old \<le> c \<Longrightarrow> 0 \<le> v \<Longrightarrow> grown old (c + v) = grown old c + v"
  "0 \<le> old \<Longrightarrow> grown old 0 = 0" "grown old old = 0"
  by (simp_all add: grown_def)

lemma pass_in_step:
  assumes "in_tune m s rows" "in_step_dir d m s rows" "direction d" "0 \<le> fst v" "0 \<le> snd v"
  shows "in_step_dir d (meter_pass name v m) s rows"
proof -
  let ?cards = "mt_cards m" and ?prev = "seen_of s"
  define c where "c = (case map_of ?cards name of None \<Rightarrow> (0, 0) | Some c \<Rightarrow> c)"
  have dist: "distinct (map fst ?cards)" and known: "mt_known m = map fst ?prev" "set (mt_known m) \<subseteq> set (map fst ?cards)"
    using in_tuneD(1,3,4) [OF assms(1)] by (simp_all only:)
  have v: "0 \<le> d v" by (rule direction_simps(3)) (use assms in auto)
  note prev_pos = in_tune_pos(1) [OF assms(1,3)]
  have new: "due d ?prev (mt_cards (meter_pass name v m))
      = due d ?prev ?cards + card_due d ?prev (name, add2 c v) - (case map_of ?cards name of None \<Rightarrow> 0 | Some u \<Rightarrow> card_due d ?prev (name, u))"
    using sum_update [OF dist] by (simp add: due_def meter_pass_def flip: c_def)
  show ?thesis
  proof (cases "map_of ?prev name")
    case None
    then have "name \<notin> set (mt_known m)" by (simp add: known map_of_eq_None_iff)
    moreover have "due d ?prev (mt_cards (meter_pass name v m)) = due d ?prev ?cards"
      using None by (simp add: new card_due_def split: option.splits)
    ultimately show ?thesis using assms(2) None by (auto simp: in_step_dir_def meter_pass_def update_conv')
  next
    case (Some p)
    then have k: "name \<in> set (mt_known m)" by (auto simp: known dest: map_of_SomeD intro: rev_image_eqI)
    then obtain u where u: "map_of ?cards name = Some u" using known(2) by (metis map_of_eq_None_iff not_None_eq subsetD set_map)
    have due: "due d ?prev (mt_cards (meter_pass name v m)) = due d ?prev ?cards + grown (d p) (d u + d v) - grown (d p) (d u)"
      using Some u assms(3) by (simp add: new c_def card_due_def direction_simps)
    have passed: "d (mt_passed (meter_pass name v m)) = d (mt_passed m) + d v" using k assms(3) by (simp add: meter_pass_def direction_simps)
    have le: "d p \<le> d u" if "\<not> mt_booted m" using assms(2) that Some u unfolding in_step_dir_def by blast
    have "bytes_counted d (t_id s) rows + due d ?prev ?cards + grown (d p) (d u + d v) - grown (d p) (d u) \<le> d (mt_passed m) + d v"
      using assms(2) grown_bounds(2) [OF prev_pos [OF Some] v, of "d u"] by (simp add: in_step_dir_def)
    moreover have "bytes_counted d (t_id s) rows + due d ?prev ?cards + grown (d p) (d u + d v) - grown (d p) (d u) = d (mt_passed m) + d v" if "\<not> mt_booted m"
      using assms(2) that grown_bounds(3) [OF le [OF that] v] by (simp add: in_step_dir_def)
    moreover have "d q \<le> d e" if "\<not> mt_booted m" "map_of (mt_cards (meter_pass name v m)) n = Some e" "map_of ?prev n = Some q" for n e q
    proof (cases "n = name")
      case True
      then show ?thesis using that Some u le v assms(3) by (auto simp: meter_pass_def update_conv' c_def direction_simps)
    next
      case False
      then have "map_of ?cards n = Some e" using that(2) by (simp add: meter_pass_def update_conv')
      then show ?thesis using that(1,3) assms(2) unfolding in_step_dir_def by blast
    qed
    ultimately show ?thesis
      unfolding in_step_dir_def passed due by (auto simp: meter_pass_def)
  qed
qed


lemma dset_set: "set (dset k v xs) \<subseteq> insert (k, v) (set xs)"
  by (induction xs) auto

lemma pass_in_tune:
  assumes "in_tune m s rows" "name \<noteq> []" "0 \<le> rx" "0 \<le> tx"
  shows "in_tune (meter_pass name (rx, tx) m) s rows"
proof -
  define c where "c = (case map_of (mt_cards m) name of None \<Rightarrow> (0, 0) | Some c \<Rightarrow> c)"
  have pos: "0 \<le> fst c" "0 \<le> snd c"
    using assms(1) by (auto simp: c_def in_tune_def split: option.splits dest!: map_of_SomeD)
  have "set (mt_cards (meter_pass name (rx, tx) m)) \<subseteq> insert (name, add2 c (rx, tx)) (set (mt_cards m))"
    using dset_set by (simp add: meter_pass_def flip: c_def)
  then have "\<forall>(n, r, t)\<in>set (mt_cards (meter_pass name (rx, tx) m)). n \<noteq> [] \<and> 0 \<le> r \<and> 0 \<le> t"
    using in_tuneD(2) [OF assms(1)] assms(2-4) pos by (auto simp: add2_def dest!: subsetD)
  moreover have "set (mt_known m) \<subseteq> set (map fst (mt_cards (meter_pass name (rx, tx) m)))"
    using in_tuneD(4) [OF assms(1)] by (auto simp: meter_pass_def dom_update)
  moreover have "distinct (map fst (mt_cards (meter_pass name (rx, tx) m)))"
    using in_tuneD(1) [OF assms(1)] by (simp add: meter_pass_def distinct_update)
  moreover have "mt_known (meter_pass name (rx, tx) m) = mt_known m" by (simp add: meter_pass_def)
  ultimately show ?thesis unfolding in_tune_def using in_tuneD(3,5) [OF assms(1)] by argo
qed

lemma boot_in_tune:
  assumes "in_tune m s rows"
  shows "in_tune (meter_boot m) s rows"
proof -
  have names: "map fst (mt_cards (meter_boot m)) = map fst (mt_cards m)" by (simp add: meter_boot_def comp_def case_prod_unfold)
  have zero: "\<forall>(name, rx, tx)\<in>set (mt_cards (meter_boot m)). name \<noteq> [] \<and> 0 \<le> rx \<and> 0 \<le> tx"
    using in_tuneD(2) [OF assms] by (auto simp: meter_boot_def)
  have known: "mt_known (meter_boot m) = mt_known m" by (simp add: meter_boot_def)
  show ?thesis unfolding in_tune_def names known using zero in_tuneD [OF assms] by blast
qed

lemma boot_in_step:
  assumes "in_tune m s rows" "in_step_dir d m s rows" "direction d"
  shows "in_step_dir d (meter_boot m) s rows"
proof -
  have "card_due d (seen_of s) (name, (0, 0)) \<le> card_due d (seen_of s) (name, c) \<and> card_due d (seen_of s) (name, (0, 0)) = 0"
    if "(name, c) \<in> set (mt_cards m)" for name c
  proof (cases "map_of (seen_of s) name")
    case (Some p)
    have "0 \<le> d p" "0 \<le> d c" using in_tune_pos [OF assms(1,3)] Some that by blast+
    then show ?thesis using Some grown_bounds(1,4) assms(3) by (simp add: card_due_def direction_simps)
  qed (simp add: card_due_def)
  then have each: "card_due d (seen_of s) (fst x, (0, 0)) \<le> card_due d (seen_of s) x" if "x \<in> set (mt_cards m)" for x
    using that by (metis prod.collapse)
  have "due d (seen_of s) (mt_cards (meter_boot m)) = sum_list (map (\<lambda>x. card_due d (seen_of s) (fst x, (0, 0))) (mt_cards m))"
    by (simp add: due_def meter_boot_def comp_def case_prod_unfold)
  also have "\<dots> \<le> due d (seen_of s) (mt_cards m)" unfolding due_def by (rule sum_list_mono) (rule each)
  finally show ?thesis using assms(2) by (simp add: in_step_dir_def meter_boot_def)
qed

lemma ingest_report:
  assumes "in_tune m s rows" "list_all virtual vs" "ingest (PList (map card_json (mt_cards m) @ vs)) now (s, rows) = Inr (s', rows')"
  shows "t_id s' = t_id s" "seen_of s' = (if mt_cards m = [] then seen_of s else mt_cards m)"
    "direction d \<Longrightarrow> bytes_counted d (t_id s) rows' = bytes_counted d (t_id s) rows + due d (seen_of s) (mt_cards m)"
proof -
  have tune: "distinct (map fst ([] @ mt_cards m))" "\<forall>(name, rx, tx)\<in>set (mt_cards m). name \<noteq> [] \<and> 0 \<le> rx \<and> 0 \<le> tx"
    using assms(1) by (auto simp: in_tune_def)
  have cur: "read_ifaces (PList (map card_json (mt_cards m) @ vs)) = Inr (mt_cards m)"
    using add_cards [OF tune] skip_virtual [OF assms(2)] by (auto simp: read_ifaces_def)
  define g where "g = growth (seen_of s) (mt_cards m)"
  have "t_id s' = t_id s \<and> seen_of s' = (if mt_cards m = [] then seen_of s else mt_cards m)
      \<and> (rows' = (if g = (0, 0) then rows else add_day (t_id s) (date_of now) g rows))"
  proof (cases "mt_cards m = []")
    case True
    then have "g = (0, 0)" by (simp add: g_def growth_def)
    with True assms(3) cur show ?thesis by (simp add: ingest_def)
  next
    case False
    have "seen_of s = (case t_ctr s of None \<Rightarrow> [] | Some c \<Rightarrow> tc_c c)" by (simp add: seen_of_def)
    then show ?thesis
      using assms(3) False
      by (auto simp: ingest_def cur Let_def rbind_Inr_iff seen_of_def g_def [unfolded seen_of_def] case_prod_unfold prod_eq_iff split: if_splits)
  qed
  then show "t_id s' = t_id s" "seen_of s' = (if mt_cards m = [] then seen_of s else mt_cards m)"
    "direction d \<Longrightarrow> bytes_counted d (t_id s) rows' = bytes_counted d (t_id s) rows + due d (seen_of s) (mt_cards m)"
    using bytes_counted_add_day [of "t_id s" "date_of now" g rows] by (auto simp: direction_def g_def growth_due prod_eq_iff)
qed

lemma due_self: "distinct (map fst cards) \<Longrightarrow> due d cards cards = 0"
proof -
  assume "distinct (map fst cards)"
  then have "card_due d cards x = 0" if "x \<in> set cards" for x using that by (cases x) (simp add: card_due_def grown_bounds)
  then show ?thesis by (simp add: due_def map_cong [OF refl, of cards "card_due d cards" "\<lambda>_. 0"])
qed

lemma metered_sound:
  assumes "metered rows0 m s rows"
  shows "in_tune m s rows \<and> (\<forall>d. direction d \<longrightarrow> in_step_dir d m s rows)"
  using assms
proof induction
  case (metered_start s)
  then have "bytes_counted d (t_id s) rows0 = 0" for d by (simp add: bytes_counted_def filter_empty_conv)
  then show ?case using metered_start by (auto simp: in_tune_def in_step_dir_def seen_of_def due_def direction_simps)
next
  case (metered_pass m s rows name rx tx)
  then show ?case using pass_in_tune pass_in_step [where v = "(rx, tx)"] by simp
next
  case (metered_boot m s rows)
  then show ?case using boot_in_tune boot_in_step by blast
next
  case (metered_report m s rows vs now s' rows')
  let ?m = "m\<lparr>mt_known := map fst (mt_cards m)\<rparr>"
  note r = ingest_report [OF conjunct1 [OF metered_report.IH] metered_report.hyps(2,3)]
  have tune: "in_tune m s rows" using metered_report.IH by blast
  have "seen_of s' = mt_cards m"
    using r(2) tune by (auto simp: in_tune_def)
  moreover have "in_tune ?m s' rows'" using tune calculation by (auto simp: in_tune_def)
  moreover have "due d (mt_cards m) (mt_cards m) = 0" for d using due_self tune by (simp add: in_tune_def)
  ultimately show ?case using metered_report.IH r(1,3) by (auto simp: in_step_dir_def)
qed


text \<open>C26. The panel's daily rows refine a meter that sees every byte: over any run of traffic, reboots and reports, whatever virtual
  interfaces the reports contain, the bytes the panel counted never exceed those that passed the server's real cards since each
  was first reported, and without a reboot they are exactly these bytes once a report has come.\<close>

theorem traffic_refines_meter:
  assumes "metered rows0 m s rows" "list_all virtual vs" "mt_cards m \<noteq> []"
    "ingest (PList (map card_json (mt_cards m) @ vs)) now (s, rows) = Inr (s', rows')" "direction d"
  shows "bytes_counted d (t_id s) rows' \<le> d (mt_passed m) \<and> (\<not> mt_booted m \<longrightarrow> bytes_counted d (t_id s) rows' = d (mt_passed m))"
proof -
  have t: "in_tune m s rows" "in_step_dir d m s rows" using metered_sound [OF assms(1)] assms(5) by simp_all
  have "bytes_counted d (t_id s) rows' = bytes_counted d (t_id s) rows + due d (seen_of s) (mt_cards m)"
    by (rule ingest_report(3) [OF t(1) assms(2,4,5)])
  then show ?thesis using t(2) by (simp add: in_step_dir_def)
qed

definition wit_traffic :: traffic_server where
  "wit_traffic = \<lparr>t_id = 1, t_ctr = None, t_sum = None, t_limit_gb = 1, t_count = [], t_cycle_day = 1\<rparr>"

definition wit_meter :: meter where
  "wit_meter = \<lparr>mt_cards = [], mt_known = [], mt_passed = (0, 0), mt_booted = False\<rparr>"

definition wit_docker :: py where
  "wit_docker = PDict [(''if'', PStr ''docker0''), (''rx_total'', PInt 7), (''tx_total'', PInt 7)]"

definition wit_now :: time where "wit_now = 1709164800000000"

lemma ingest_total:
  assumes "read_ifaces ifaces = Inr cur" "2 \<le> fst (ord2ymd (date_of now))" "fst (ord2ymd (date_of now)) \<le> 9998"
  shows "\<exists>s' rows'. ingest ifaces now (s, rows) = Inr (s', rows')"
proof -
  have "\<exists>su. summary rows s now = Inr su" for rows s
    using period_month_ok [OF assms(2,3), of "t_cycle_day s"] by (auto simp: summary_def Let_def)
  then obtain su where "\<And>rows s. summary rows s now = Inr (su rows s)" by metis
  then show ?thesis by (auto simp: ingest_def assms(1) Let_def split: prod.splits)
qed

text \<open>40 bytes before the first report are not counted, the 60 after it are; the bridge never is.\<close>

theorem traffic_refines_meter_witness:
  "\<exists>m s rows s' rows'. metered [] m s rows \<and>
    ingest (PList (map card_json (mt_cards m) @ [wit_docker])) wit_now (s, rows) = Inr (s', rows') \<and> bytes_counted snd (t_id s) rows' = 60"
proof -
  define vs where "vs = [wit_docker]"
  have vs: "list_all virtual vs" by (simp add: vs_def wit_docker_def virtual_def)
  have y: "2 \<le> fst (ord2ymd (date_of wit_now))" "fst (ord2ymd (date_of wit_now)) \<le> 9998" by code_simp+
  have read: "\<exists>cur. read_ifaces (PList (xs @ vs)) = Inr cur" for xs by (simp add: read_ifaces_def)
  have 0: "metered [] wit_meter wit_traffic []" unfolding wit_meter_def by (rule metered_start) (simp_all add: wit_traffic_def)
  define m1 where "m1 = meter_pass ''eth0'' (0, 40) wit_meter"
  have 1: "metered [] m1 wit_traffic []" unfolding m1_def by (rule metered_pass [OF 0]) simp_all
  obtain s1 rows1 where i1: "ingest (PList (map card_json (mt_cards m1) @ vs)) wit_now (wit_traffic, []) = Inr (s1, rows1)"
    using ingest_total [OF _ y] read by metis
  define m2 where "m2 = m1\<lparr>mt_known := map fst (mt_cards m1)\<rparr>"
  have 2: "metered [] m2 s1 rows1" unfolding m2_def by (rule metered_report [OF 1 vs i1])
  define m3 where "m3 = meter_pass ''eth0'' (0, 60) m2"
  have 3: "metered [] m3 s1 rows1" unfolding m3_def by (rule metered_pass [OF 2]) simp_all
  obtain s2 rows2 where i2: "ingest (PList (map card_json (mt_cards m3) @ vs)) wit_now (s1, rows1) = Inr (s2, rows2)"
    using ingest_total [OF _ y] read by metis
  have m3: "mt_cards m3 \<noteq> []" "\<not> mt_booted m3" "snd (mt_passed m3) = 60" by (simp_all add: m3_def m2_def m1_def wit_meter_def meter_pass_def add2_def)
  have "bytes_counted snd (t_id s1) rows2 = 60"
    using traffic_refines_meter [OF 3 vs m3(1) i2, of snd] m3(2,3) by (simp add: direction_def)
  with 3 i2 show ?thesis unfolding vs_def by blast
qed

end
