(* ===== verification/Autoban.thy ===== *)
theory Autoban
  imports Panel_Rows "HOL-Library.Multiset"
begin

text \<open>
  Bans of scanners (\<open>autoban.py\<close>).  A helper on the node bans; the panel keeps the history of the bans it reports and tells
  the new ones in a digest once a day or once an hour, and raises an alert when the helper cannot do its work.

  A block of the helper is any \<open>py\<close> value.  Rows of \<open>autoban_bans\<close> are in the order of their ids.  The local time of the alerts
  is given by \<open>z\<close>, the offset of the zone at a moment (the time zone database is outside the repository).  Keys of the block are
  compared as written, so that an address that is a number and not a string never equals one in the table.
  Numbers are exact: the rounding of floats, and integers too large for one, are left out.  When several entries of a block
  cannot be read, which of their exceptions comes first is left open too.
\<close>

section \<open>Numbers in a block\<close>

text \<open>Decimal digits with single underscores between them.\<close>

definition float_digits :: "string \<Rightarrow> string option" where
  "float_digits s = (case drop_underscores s of Some t \<Rightarrow> if list_all is_dig t then Some t else None | None \<Rightarrow> None)"

definition digits_value :: "string \<Rightarrow> int" where
  "digits_value s = foldl (\<lambda>a c. a * 10 + dig_val c) 0 s"

definition sign_split :: "string \<Rightarrow> bool \<times> string" where
  "sign_split s = (case s of c # t \<Rightarrow> if c = CHR ''-'' then (True, t) else if c = CHR ''+'' then (False, t) else (False, s) | [] \<Rightarrow> (False, []))"

definition exp10 :: "int \<Rightarrow> rat" where
  "exp10 n = (if n \<ge> 0 then of_int (10 ^ nat n) else 1 / of_int (10 ^ nat (- n)))"

definition mantissa :: "string \<Rightarrow> rat option" where
  "mantissa s =
     (case partition_chr CHR ''.'' s of (a, _, b) \<Rightarrow>
        if a = [] \<and> b = [] then None
        else (case (if a = [] then Some [] else float_digits a, if b = [] then Some [] else float_digits b) of
               (Some x, Some y) \<Rightarrow> Some (of_int (digits_value x) + of_int (digits_value y) * exp10 (- int (length y)))
             | _ \<Rightarrow> None))"

text \<open>\<open>float(s)\<close> of a string; \<open>None\<close> is the ValueError.\<close>

definition float_of_str :: "string \<Rightarrow> flt option" where
  "float_of_str s0 =
     (let (neg, s) = sign_split (lower (strip s0))
      in if s = ''inf'' \<or> s = ''infinity'' then Some (if neg then NegInf else PosInf)
         else if s = ''nan'' then Some NaN
         else (case partition_chr CHR ''e'' s of (m, has_e, e) \<Rightarrow>
                 let (eneg, ed) = sign_split e
                 in (case (mantissa m, if \<not> has_e then Some 0 else if ed = [] then None else map_option digits_value (float_digits ed)) of
                      (Some r, Some x) \<Rightarrow> (let v = r * exp10 (if eneg then - x else x) in Some (Fin (if neg then - v else v)))
                    | _ \<Rightarrow> None)))"

text \<open>\<open>_num(v, default)\<close>\<close>

definition ab_num :: "py \<Rightarrow> rat \<Rightarrow> flt" where
  "ab_num v d =
     (case v of
        PBool b \<Rightarrow> Fin (if b then 1 else 0)
      | PInt n \<Rightarrow> Fin (of_int n)
      | PFlt f \<Rightarrow> f
      | PStr s \<Rightarrow> (case float_of_str s of Some f \<Rightarrow> f | None \<Rightarrow> Fin d)
      | _ \<Rightarrow> Fin d)"

text \<open>\<open>int(x)\<close>, \<open>x > c\<close> and \<open>now - x > c\<close> in seconds.\<close>

fun flt_int :: "flt \<Rightarrow> int res" where
  "flt_int (Fin r) = Inr (trunc r)"
| "flt_int NaN = Inl ValueError"
| "flt_int _ = Inl OverflowError"

fun flt_pos :: "flt \<Rightarrow> bool" where
  "flt_pos (Fin r) = (r > 0)"
| "flt_pos PosInf = True"
| "flt_pos _ = False"

definition now_s :: "time \<Rightarrow> rat" where
  "now_s now = of_int now / 1000000"

fun older_than :: "time \<Rightarrow> flt \<Rightarrow> rat \<Rightarrow> bool" where
  "older_than now (Fin r) c = (now_s now - r > c)"
| "older_than now NegInf c = True"
| "older_than now _ c = False"

fun flt_eq :: "flt \<Rightarrow> flt \<Rightarrow> bool" where
  "flt_eq NaN _ = False"
| "flt_eq x y = (x = y)"

section \<open>The block\<close>

definition ab_STALE :: rat where "ab_STALE = 900"
definition CANT_HOLD :: rat where "CANT_HOLD = 600"
definition AVALANCHE_HOUR :: int where "AVALANCHE_HOUR = 30"
definition NOEFFECT_MIN :: nat where "NOEFFECT_MIN = 3"
definition DIGEST_HOUR :: int where "DIGEST_HOUR = 9"

text \<open>\<open>((rep or {}).get("extras") or {}).get("autoban")\<close>; a truthy \<open>extras\<close> that is no dict has no \<open>get\<close>.\<close>

definition ab_block :: "dict option \<Rightarrow> time \<Rightarrow> dict option res" where
  "ab_block rep now =
     rbind (pget (por (dget (or_empty rep) ''extras'') (PDict [])) ''autoban'') (\<lambda>b.
       Inr (case b of
              PDict d \<Rightarrow> if \<not> py_eq (dget d ''v'') (PInt 1) then None
                         else if older_than now (ab_num (dget d ''ts'') 0) ab_STALE then None else Some d
            | _ \<Rightarrow> None))"

definition ab_list :: "dict \<Rightarrow> string \<Rightarrow> dict list" where
  "ab_list b key =
     (case dget b key of
        PList xs \<Rightarrow> List.map_filter (\<lambda>x. case x of PDict d \<Rightarrow> if truthy (dget d ''ip'') then Some d else None | _ \<Rightarrow> None) xs
      | _ \<Rightarrow> [])"

text \<open>\<open>_ts\<close>: \<open>datetime.fromtimestamp(x, utc)\<close>, to the microsecond, of a positive number.\<close>

definition ab_ts :: "py \<Rightarrow> time option res" where
  "ab_ts v =
     (case ab_num v 0 of
        Fin r \<Rightarrow> if r \<le> 0 then Inr None
                 else (let t = round_half_even (r * 1000000) in if time_ok t then Inr (Some t) else Inl ValueError)
      | PosInf \<Rightarrow> Inl OverflowError
      | _ \<Rightarrow> Inr None)"

text \<open>\<open>_paths\<close>: iterating over a value that is no list raises, save for the keys of a dict and the characters of a string.\<close>

definition ab_iter :: "py \<Rightarrow> py list res" where
  "ab_iter v =
     (case v of
        PList xs \<Rightarrow> Inr xs
      | PDict d \<Rightarrow> Inr (map (\<lambda>(k, _). PStr k) d)
      | PStr s \<Rightarrow> Inr (map (\<lambda>c. PStr [c]) s)
      | _ \<Rightarrow> Inl TypeError)"

definition ab_paths :: "dict \<Rightarrow> string list res" where
  "ab_paths x =
     rbind (ab_iter (por (dget x ''paths'') (PList []))) (\<lambda>ps.
       Inr (take 3 (map (\<lambda>p. take 100 (py_str p)) (filter (\<lambda>p. strip (py_str (por p (PStr []))) \<noteq> []) ps))))"

section \<open>History\<close>

record ban_row =
  bn_id :: nat
  bn_server :: int
  bn_ip :: string
  bn_since :: time
  bn_until :: time
  bn_n :: int
  bn_hits :: int
  bn_paths :: "string list"
  bn_more :: int
  bn_where :: string
  bn_watch :: bool
  bn_seen :: int
  bn_ended_at :: "time option"
  bn_end :: string
  bn_digested :: bool

type_synonym ban_key = "py \<times> int"

text \<open>\<open>{(x["ip"], int(since)): x ...}\<close>; a list or a dict cannot be a key.\<close>

definition ban_key :: "dict \<Rightarrow> ban_key res" where
  "ban_key x =
     (case dget x ''ip'' of
        PList _ \<Rightarrow> Inl TypeError
      | PDict _ \<Rightarrow> Inl TypeError
      | ip \<Rightarrow> rbind (flt_int (ab_num (dget x ''since'') 0)) (\<lambda>t. Inr (ip, t)))"

definition current_bans :: "dict \<Rightarrow> (ban_key \<times> dict) list res" where
  "current_bans b =
     (let xs = filter (\<lambda>x. flt_pos (ab_num (dget x ''since'') 0)) (ab_list b ''bans'')
      in rbind (rmap ban_key xs) (\<lambda>ks. Inr (fold (\<lambda>(k, x) d. dset k x d) (zip ks xs) [])))"

definition row_key :: "ban_row \<Rightarrow> ban_key" where
  "row_key r = (PStr (bn_ip r), bn_since r div 1000000)"

definition open_row :: "int \<Rightarrow> ban_row \<Rightarrow> bool" where
  "open_row srv r \<longleftrightarrow> bn_server r = srv \<and> bn_ended_at r = None"

definition int_field :: "dict \<Rightarrow> string \<Rightarrow> rat \<Rightarrow> int res" where
  "int_field x k d = flt_int (ab_num (dget x k) d)"

definition ab_new :: "int \<Rightarrow> time \<Rightarrow> nat \<Rightarrow> dict \<Rightarrow> ban_row res" where
  "ab_new srv now i x =
     rbind (ab_ts (dget x ''since'')) (\<lambda>since. rbind (ab_ts (dget x ''until'')) (\<lambda>until.
     rbind (int_field x ''n'' 1) (\<lambda>n. rbind (int_field x ''hits'' 0) (\<lambda>hits. rbind (ab_paths x) (\<lambda>paths.
     rbind (int_field x ''more'' 0) (\<lambda>more. rbind (int_field x ''seen'' 0) (\<lambda>seen.
       (case since of
         None \<Rightarrow> Inl TypeError
       | Some t \<Rightarrow> Inr \<lparr>bn_id = i, bn_server = srv, bn_ip = take 64 (py_str (dget x ''ip'')), bn_since = t,
           bn_until = (case until of Some u \<Rightarrow> u | None \<Rightarrow> now), bn_n = n, bn_hits = hits, bn_paths = paths, bn_more = more,
           bn_where = take 120 (py_str (por (dget x ''where'') (PStr []))), bn_watch = truthy (dget x ''w''), bn_seen = seen,
           bn_ended_at = None, bn_end = [], bn_digested = truthy (dget x ''w'')\<rparr>))))))))"

definition touch_ban :: "dict \<Rightarrow> ban_row \<Rightarrow> ban_row res" where
  "touch_ban x r =
     rbind (int_field x ''seen'' 0) (\<lambda>seen. rbind (ab_ts (dget x ''until'')) (\<lambda>until.
       Inr (r\<lparr>bn_seen := seen, bn_until := (case until of Some u \<Rightarrow> u | None \<Rightarrow> bn_until r)\<rparr>)))"

definition close_ban :: "time \<Rightarrow> ban_row \<Rightarrow> ban_row" where
  "close_ban now r =
     r\<lparr>bn_ended_at := Some now,
       bn_end := (if bn_until r \<le> now + sec 120 then ''expired'' else if bn_end r \<noteq> [] then bn_end r else ''gone'')\<rparr>"

text \<open>\<open>have\<close>, the open rows of the server by key: touched when the block has the ban, closed otherwise.\<close>

definition have_bans :: "int \<Rightarrow> ban_row list \<Rightarrow> (ban_key \<times> nat) list" where
  "have_bans srv rows = fold (\<lambda>r d. dset (row_key r) (bn_id r) d) (filter (open_row srv) rows) []"

definition update_ban :: "int \<Rightarrow> time \<Rightarrow> (ban_key \<times> nat) list \<Rightarrow> (ban_key \<times> dict) list \<Rightarrow> ban_row \<Rightarrow> ban_row res" where
  "update_ban srv now have cur r =
     (if \<not> open_row srv r \<or> map_of have (row_key r) \<noteq> Some (bn_id r) then Inr r
      else case map_of cur (row_key r) of Some x \<Rightarrow> touch_ban x r | None \<Rightarrow> Inr (close_ban now r))"

fun add_bans :: "int \<Rightarrow> time \<Rightarrow> nat \<Rightarrow> dict list \<Rightarrow> ban_row list res" where
  "add_bans srv now i [] = Inr []"
| "add_bans srv now i (x # xs) = rbind (ab_new srv now i x) (\<lambda>r. rbind (add_bans srv now (Suc i) xs) (\<lambda>rs. Inr (r # rs)))"

text \<open>The unique key of the table.\<close>

definition unique_bans :: "ban_row list \<Rightarrow> bool" where
  "unique_bans rows \<longleftrightarrow> distinct (map (\<lambda>r. (bn_server r, bn_ip r, bn_since r)) rows)"

datatype store_error = Raised exc | Duplicate

record ban_db =
  db_next :: nat
  db_bans :: "ban_row list"

type_synonym last_ts = "(int \<times> flt) list"

text \<open>\<open>store\<close> with the commit of the request it belongs to; \<open>_last_ts\<close> is in memory and keeps its new value when that fails.\<close>

definition write_bans :: "int \<Rightarrow> dict \<Rightarrow> time \<Rightarrow> ban_db \<Rightarrow> store_error + ban_db" where
  "write_bans srv b now db =
     (case rbind (current_bans b) (\<lambda>cur.
             let have = have_bans srv (db_bans db) in
             rbind (add_bans srv now (db_next db) (map snd (filter (\<lambda>(k, _). \<not> dhas have k) cur))) (\<lambda>new.
             rbind (rmap (update_ban srv now have cur) (db_bans db)) (\<lambda>old. Inr (old, new)))) of
        Inl e \<Rightarrow> Inl (Raised e)
      | Inr (old, new) \<Rightarrow>
          if unique_bans (old @ new) then Inr \<lparr>db_next = db_next db + length new, db_bans = old @ new\<rparr> else Inl Duplicate)"

definition store_bans :: "int \<Rightarrow> py \<Rightarrow> time \<Rightarrow> last_ts \<times> ban_db \<Rightarrow> last_ts \<times> (store_error + ban_db)" where
  "store_bans srv extras now = (\<lambda>(mem, db).
     case ab_block (Some [(''extras'', por extras (PDict []))]) now of
       Inl e \<Rightarrow> (mem, Inl (Raised e))
     | Inr None \<Rightarrow> (mem, Inr db)
     | Inr (Some b) \<Rightarrow>
         (let ts = ab_num (dget b ''ts'') 0
          in if (case map_of mem srv of Some old \<Rightarrow> flt_eq old ts | None \<Rightarrow> False) then (mem, Inr db)
             else (dset srv ts mem, write_bans srv b now db)))"

definition mark_unban :: "int \<Rightarrow> string \<Rightarrow> ban_db \<Rightarrow> ban_db" where
  "mark_unban srv ip db =
     db\<lparr>db_bans := map (\<lambda>r. if open_row srv r \<and> bn_ip r = ip then r\<lparr>bn_end := ''unban''\<rparr> else r) (db_bans db)\<rparr>"

section \<open>The digest\<close>

definition hour_of :: "time \<Rightarrow> int" where
  "hour_of wall = wall mod day_us div 3600000000"

definition digest_due :: "string \<Rightarrow> time option \<Rightarrow> time \<Rightarrow> (time \<Rightarrow> int) \<Rightarrow> bool" where
  "digest_due mode prev now z =
     (if mode = ''off'' then False
      else if mode = ''hour'' then (case prev of None \<Rightarrow> True | Some l \<Rightarrow> now - l \<ge> sec 3600)
      else if hour_of (now + z now) < DIGEST_HOUR then False
      else (case prev of None \<Rightarrow> True | Some l \<Rightarrow> date_of (l + z l) < date_of (now + z now)))"

definition fresh_bans :: "time \<Rightarrow> ban_db \<Rightarrow> ban_row list" where
  "fresh_bans now db =
     sort_key bn_since (filter (\<lambda>r. \<not> bn_digested r \<and> \<not> bn_watch r \<and> bn_since r \<ge> now - 2 * day_us) (db_bans db))"

text \<open>The bans the digest tells, by server; the order of the servers is left out.\<close>

definition digest_groups :: "server list \<Rightarrow> ban_row list \<Rightarrow> (int \<times> ban_row list) list" where
  "digest_groups servers rows =
     fold (\<lambda>r d. if bn_server r \<in> sid ` set (filter enabled servers)
                 then dset (bn_server r) ((case map_of d (bn_server r) of None \<Rightarrow> [] | Some rs \<Rightarrow> rs) @ [r]) d else d) rows []"

definition mark_digested :: "nat list \<Rightarrow> ban_db \<Rightarrow> ban_db" where
  "mark_digested ids db = db\<lparr>db_bans := map (\<lambda>r. if bn_id r \<in> set ids then r\<lparr>bn_digested := True\<rparr> else r) (db_bans db)\<rparr>"

text \<open>\<open>send_digest\<close>: \<open>can\<close> is \<open>not muted and alerts_enabled(cfg)\<close>, \<open>ok\<close> the answer of \<open>dispatch\<close>.  The result: the bans
  told when the digest was delivered, the time of the last digest, the table.\<close>

definition send_digest :: "string \<Rightarrow> (time \<Rightarrow> int) \<Rightarrow> bool \<Rightarrow> bool \<Rightarrow> server list \<Rightarrow> time \<Rightarrow> time option \<times> ban_db \<Rightarrow> ban_row list \<times> time option \<times> ban_db" where
  "send_digest mode z can ok servers now = (\<lambda>(prev, db).
     if \<not> digest_due mode prev now z then ([], prev, db)
     else (let rows = fresh_bans now db; groups = digest_groups servers rows; delivered = (groups \<noteq> [] \<and> can \<and> ok)
           in if delivered \<or> groups = [] then
                (if delivered then concat (map snd groups) else [], Some now, mark_digested (map bn_id rows) db)
              else ([], prev, db)))"


text \<open>Old rows are thrown away.\<close>

definition AUTOBAN_KEEP :: time where "AUTOBAN_KEEP = 90 * day_us"

definition prune_bans :: "time \<Rightarrow> ban_db \<Rightarrow> ban_db" where
  "prune_bans now db = db\<lparr>db_bans := filter (\<lambda>r. \<not> bn_since r < now - AUTOBAN_KEEP) (db_bans db)\<rparr>"

section \<open>What needs a person\<close>

fun younger_than :: "time \<Rightarrow> flt \<Rightarrow> rat \<Rightarrow> bool" where
  "younger_than now (Fin r) c = (now_s now - r < c)"
| "younger_than now PosInf c = True"
| "younger_than now _ c = False"

fun lasts :: "time \<Rightarrow> flt \<Rightarrow> rat \<Rightarrow> bool" where
  "lasts now (Fin r) c = (r \<noteq> 0 \<and> now_s now - r \<ge> c)"
| "lasts now NegInf c = True"
| "lasts now _ c = False"

definition applied :: "dict \<Rightarrow> time \<Rightarrow> dict list" where
  "applied b now = filter (\<lambda>x. \<not> truthy (dget x ''w'') \<and> younger_than now (ab_num (dget x ''since'') 0) 86400) (ab_list b ''bans'')"

definition ab_MUTE_PREFIX :: string where "ab_MUTE_PREFIX = ''autoban:''"

definition muted_keys :: "string list \<Rightarrow> string list" where
  "muted_keys mutes = map (drop (length ab_MUTE_PREFIX)) (filter (\<lambda>m. startswith m ab_MUTE_PREFIX) mutes)"

definition field_text :: "dict \<Rightarrow> string \<Rightarrow> string" where
  "field_text b k = py_str (por (dget b k) (PStr []))"

text \<open>\<open>problems\<close>: the keys; the level of each is 2, the texts are left out.\<close>

definition ab_avalanche :: "dict \<Rightarrow> string list res" where
  "ab_avalanche b =
     (if startswith (field_text b ''auto'') ''avalanche'' then Inr [''avalanche'']
      else if field_text b ''mode'' = ''on''
      then rbind (int_field b ''hour'' 0) (\<lambda>h. Inr (if h \<ge> AVALANCHE_HOUR then [''avalanche''] else [])) else Inr [])"

definition ab_found :: "dict \<Rightarrow> time \<Rightarrow> string list res" where
  "ab_found b now =
     (let own = map (\<lambda>x. ''self:'' @ py_str (dget x ''ip'')) (ab_list b ''self'');
          cant = (if field_text b ''mode'' = ''on'' \<and> \<not> truthy (dget b ''can'') \<and> lasts now (ab_num (dget b ''err_since'') 0) CANT_HOLD
                  then [''cant''] else []);
          ap = applied b now;
          leak = filter (\<lambda>x. flt_pos (ab_num (dget x ''seen'') 0)) ap;
          noeffect = (if length ap \<ge> NOEFFECT_MIN \<and> length leak * 2 \<ge> length ap then [''noeffect''] else [])
      in rbind (ab_avalanche b) (\<lambda>avalanche. Inr (own @ cant @ noeffect @ avalanche)))"

definition ab_problems :: "dict option \<Rightarrow> string list \<Rightarrow> time \<Rightarrow> string list res" where
  "ab_problems rep mutes now =
     rbind (ab_block rep now) (\<lambda>blk.
       (case blk of
          None \<Rightarrow> Inr []
        | Some b \<Rightarrow>
            rbind (ab_found b now) (\<lambda>ks.
              let quiet = muted_keys mutes
              in Inr (filter (\<lambda>k. k \<notin> set quiet \<and> hd (split_chr CHR '':'' k) \<notin> set quiet) ks))))"

section \<open>A ban that comes back\<close>

lemma add_bans_rows:
  "add_bans srv now i xs = Inr rs \<Longrightarrow> x \<in> set xs \<Longrightarrow> \<exists>r\<in>set rs. \<exists>j. ab_new srv now j x = Inr r"
  by (induction xs arbitrary: i rs) (auto simp: rbind_Inr_iff)

lemma row_key_eq: "row_key r = row_key q \<longleftrightarrow> bn_ip r = bn_ip q \<and> bn_since r div 1000000 = bn_since q div 1000000"
  by (simp add: row_key_def)

lemma have_bans_keys: "dhas (have_bans srv rows) k \<longleftrightarrow> (\<exists>r\<in>set rows. open_row srv r \<and> row_key r = k)"
proof -
  have "dhas (fold (\<lambda>r d. dset (row_key r) (bn_id r) d) xs d) k \<longleftrightarrow> dhas d k \<or> (\<exists>r\<in>set xs. row_key r = k)" for xs d
    by (induction xs arbitrary: d) auto
  then show ?thesis by (auto simp: have_bans_def dhas_def)
qed

text \<open>A well-formed entry of a block: what the helper writes.\<close>

definition ban_entry :: "string \<Rightarrow> int \<Rightarrow> dict \<Rightarrow> bool" where
  "ban_entry ip since x \<longleftrightarrow> dget x ''ip'' = PStr ip \<and> ip \<noteq> [] \<and> length ip \<le> 64 \<and> dget x ''since'' = PInt since \<and> 0 < since"

lemma trunc_int: "flt_int (ab_num (PInt n) d) = Inr n"
  by (simp add: ab_num_def)

lemma ab_ts_int:
  assumes "0 < n" "ab_ts (PInt n) = Inr (Some t)"
  shows "t = sec n"
proof -
  have r: "round_half_even (of_int m) = m" for m by (simp add: round_half_even_def Let_def)
  have e: "of_int n * 1000000 = (of_int (sec n) :: rat)" by (simp add: sec_def)
  show ?thesis using assms unfolding ab_ts_def ab_num_def py.case flt.case e r Let_def by (auto split: if_splits)
qed

lemma entry_key: "ban_entry ip t x \<Longrightarrow> ban_key x = Inr (PStr ip, t)"
  by (simp add: ban_entry_def ban_key_def trunc_int)

lemma bans_by_key:
  assumes "current_bans b = Inr cur" "\<forall>x\<in>set (ab_list b ''bans''). \<exists>ip t. ban_entry ip t x" "x \<in> set (ab_list b ''bans'')" "ban_entry ip t x"
  shows "\<exists>y. ((PStr ip, t), y) \<in> set cur \<and> ban_entry ip t y"
proof -
  let ?P = "\<lambda>x. flt_pos (ab_num (dget x ''since'') 0)"
  define xs where "xs = filter ?P (ab_list b ''bans'')"
  obtain ks where ks: "rmap ban_key xs = Inr ks" "cur = fold (\<lambda>(k, x) d. dset k x d) (zip ks xs) []"
    using assms(1) by (auto simp: current_bans_def Let_def rbind_Inr_iff xs_def)
  have l: "list_all2 (\<lambda>x k. ban_key x = Inr k) xs ks" using ks(1) by (simp add: rmap_Inr_iff)
  have keys: "k \<in> fst ` set (fold (\<lambda>(k, x) d. dset k x d) ps d) \<longleftrightarrow> k \<in> fst ` set ps \<or> k \<in> fst ` set d" for k :: ban_key and ps :: "(ban_key \<times> dict) list" and d
  proof (induction ps arbitrary: d)
    case (Cons p ps)
    then show ?case by (cases p) (auto simp: dom_update)
  qed simp
  have vals: "set (fold (\<lambda>(k, x) d. dset k x d) ps d) \<subseteq> set ps \<union> set d" for ps :: "(ban_key \<times> dict) list" and d
  proof (induction ps arbitrary: d)
    case (Cons p ps)
    have "set (dset (fst p) (snd p) d) \<subseteq> insert p (set d)"
      by (induction d) auto
    then show ?case using Cons [of "dset (fst p) (snd p) d"] by (auto simp: case_prod_unfold)
  qed simp
  have x: "x \<in> set xs" using assms(3,4) by (auto simp: xs_def ban_entry_def ab_num_def)
  then have "(PStr ip, t) \<in> set ks" using l entry_key [OF assms(4)] by (auto simp: list_all2_conv_all_nth in_set_conv_nth)
  moreover have "length xs = length ks" using l by (rule list_all2_lengthD)
  ultimately have "(PStr ip, t) \<in> fst ` set (zip ks xs)" by (simp only: map_fst_zip flip: set_map)
  then have "(PStr ip, t) \<in> fst ` set cur" unfolding ks(2) keys [of _ "zip ks xs" "[]"] by blast
  then obtain y where y: "((PStr ip, t), y) \<in> set cur" by (metis imageE prod.collapse)
  then have "((PStr ip, t), y) \<in> set (zip ks xs)" using vals [of "zip ks xs" "[]"] unfolding ks(2) by auto
  then have "y \<in> set xs" "ban_key y = Inr (PStr ip, t)" using l by (auto simp: set_zip list_all2_conv_all_nth)
  moreover obtain ip' t' where "ban_entry ip' t' y" using assms(2) calculation(1) by (auto simp: xs_def)
  ultimately show ?thesis using y entry_key by (metis Inr_inject prod.inject py.inject(4))
qed

lemma ab_new_row:
  assumes "ban_entry ip t x" "ab_new srv now j x = Inr r"
  shows "bn_server r = srv" "bn_ip r = ip" "bn_since r = sec t"
proof -
  have x: "dget x ''ip'' = PStr ip" "dget x ''since'' = PInt t" "0 < t" "length ip \<le> 64" using assms(1) by (simp_all add: ban_entry_def)
  obtain since where s: "ab_ts (PInt t) = Inr (Some since)" and r: "bn_server r = srv" "bn_ip r = take 64 ip" "bn_since r = since"
    using assms(2) by (auto simp: ab_new_def rbind_Inr_iff x split: option.splits)
  show "bn_server r = srv" "bn_ip r = ip" "bn_since r = sec t" using r x(4) ab_ts_int [OF x(3) s] by simp_all
qed

lemma write_fails_on_returned:
  assumes "\<forall>x\<in>set (ab_list b ''bans''). \<exists>ip t. ban_entry ip t x" "x \<in> set (ab_list b ''bans'')" "ban_entry ip t x"
    "r \<in> set (db_bans db)" "bn_server r = srv" "bn_ip r = ip" "bn_since r = sec t" "bn_ended_at r \<noteq> None"
    "\<forall>q\<in>set (db_bans db). open_row srv q \<longrightarrow> row_key q \<noteq> row_key r"
  shows "write_bans srv b now db \<noteq> Inr db'"
proof
  assume w: "write_bans srv b now db = Inr db'"
  define hv where "hv = have_bans srv (db_bans db)"
  obtain cur new old where c: "current_bans b = Inr cur"
      "add_bans srv now (db_next db) (map snd (filter (\<lambda>(k, _). \<not> dhas hv k) cur)) = Inr new"
      "rmap (update_ban srv now hv cur) (db_bans db) = Inr old" "unique_bans (old @ new)"
    using w by (auto simp: write_bans_def Let_def rbind_Inr_iff hv_def split: sum.splits if_splits)
  from bans_by_key [OF c(1) assms(1-3)] obtain y where y: "((PStr ip, t), y) \<in> set cur" "ban_entry ip t y" by blast
  have "row_key r = (PStr ip, t)" using assms(6,7) by (simp add: row_key_def sec_def)
  then have "\<not> dhas hv (PStr ip, t)" using assms(9) by (auto simp: hv_def have_bans_keys)
  then have "y \<in> set (map snd (filter (\<lambda>(k, _). \<not> dhas hv k) cur))" using y(1) by force
  from add_bans_rows [OF c(2) this] obtain q j where q: "q \<in> set new" "ab_new srv now j y = Inr q" by blast
  have same: "(bn_server q, bn_ip q, bn_since q) = (bn_server r, bn_ip r, bn_since r)" using ab_new_row [OF y(2) q(2)] assms(5-7) by simp
  have "update_ban srv now hv cur r = Inr r" using assms(8) by (simp add: update_ban_def open_row_def)
  then have "r \<in> set old" using c(3) assms(4) by (auto simp: rmap_Inr_iff list_all2_conv_all_nth in_set_conv_nth)
  then show False using c(4) q(1) same by (auto simp: unique_bans_def)
qed

text \<open>A block whose entries are all as the helper writes them is read without an error.\<close>

definition whole_entry :: "dict \<Rightarrow> bool" where
  "whole_entry x \<longleftrightarrow>
     (\<exists>ip t. ban_entry ip t x \<and> time_ok (sec t)) \<and> (\<exists>u. dget x ''until'' = PInt u \<and> (0 < u \<longrightarrow> time_ok (sec u))) \<and>
     (\<exists>n. dget x ''n'' = PInt n) \<and> (\<exists>n. dget x ''hits'' = PInt n) \<and> (\<exists>n. dget x ''more'' = PInt n) \<and> (\<exists>n. dget x ''seen'' = PInt n) \<and>
     (\<exists>ps. dget x ''paths'' = PList ps)"

lemma ab_ts_whole:
  assumes "0 < n \<longrightarrow> time_ok (sec n)"
  shows "ab_ts (PInt n) = Inr (if 0 < n then Some (sec n) else None)"
proof -
  have r: "round_half_even (of_int m) = m" for m by (simp add: round_half_even_def Let_def)
  have e: "of_int n * 1000000 = (of_int (sec n) :: rat)" by (simp add: sec_def)
  show ?thesis using assms unfolding ab_ts_def ab_num_def py.case flt.case e r Let_def by auto
qed

lemma whole_new: "whole_entry x \<Longrightarrow> \<exists>r. ab_new srv now i x = Inr r"
  by (auto simp: whole_entry_def ban_entry_def ab_new_def int_field_def trunc_int ab_ts_whole ab_paths_def ab_iter_def por_def)

lemma whole_add: "\<forall>x\<in>set xs. whole_entry x \<Longrightarrow> \<exists>rs. add_bans srv now i xs = Inr rs"
proof (induction xs arbitrary: i)
  case (Cons x xs)
  obtain r where "ab_new srv now i x = Inr r" using whole_new [of x srv now i] Cons.prems by auto
  moreover obtain rs where "add_bans srv now (Suc i) xs = Inr rs" using Cons by fastforce
  ultimately show ?case by simp
qed simp

lemma whole_touch: "whole_entry x \<Longrightarrow> \<exists>q. touch_ban x r = Inr q"
  by (auto simp: whole_entry_def touch_ban_def int_field_def trunc_int ab_ts_whole)

lemma whole_current:
  assumes "\<forall>x\<in>set (ab_list b ''bans''). whole_entry x"
  shows "\<exists>cur. current_bans b = Inr cur \<and> (\<forall>(k, x)\<in>set cur. whole_entry x)"
proof -
  define xs where "xs = filter (\<lambda>x. flt_pos (ab_num (dget x ''since'') 0)) (ab_list b ''bans'')"
  have xs: "\<forall>x\<in>set xs. whole_entry x" using assms by (simp add: xs_def)
  then have "\<forall>x\<in>set xs. \<exists>k. ban_key x = Inr k" unfolding whole_entry_def using entry_key by blast
  then obtain ks where ks: "rmap ban_key xs = Inr ks" using rmap_total by blast
  have vals: "set (fold (\<lambda>(k, x) d. dset k x d) ps d) \<subseteq> set ps \<union> set d" for ps :: "(ban_key \<times> dict) list" and d
  proof (induction ps arbitrary: d)
    case (Cons p ps)
    have "set (dset (fst p) (snd p) d) \<subseteq> insert p (set d)" by (induction d) auto
    then show ?case using Cons [of "dset (fst p) (snd p) d"] by (auto simp: case_prod_unfold)
  qed simp
  have "\<forall>(k, x)\<in>set (fold (\<lambda>(k, x) d. dset k x d) (zip ks xs) []). whole_entry x"
    using vals [of "zip ks xs" "[]"] xs by (auto dest: set_zip_rightD)
  then show ?thesis using ks by (auto simp: current_bans_def Let_def xs_def)
qed

lemma whole_write:
  assumes "\<forall>x\<in>set (ab_list b ''bans''). whole_entry x"
  shows "(\<exists>db'. write_bans srv b now db = Inr db') \<or> write_bans srv b now db = Inl Duplicate"
proof -
  obtain cur where cur: "current_bans b = Inr cur" "\<forall>(k, x)\<in>set cur. whole_entry x" using whole_current [OF assms] by blast
  define hv where "hv = have_bans srv (db_bans db)"
  obtain new where new: "add_bans srv now (db_next db) (map snd (filter (\<lambda>(k, _). \<not> dhas hv k) cur)) = Inr new"
    using whole_add [of "map snd (filter (\<lambda>(k, _). \<not> dhas hv k) cur)"] cur(2) by fastforce
  have "\<exists>q. update_ban srv now hv cur r = Inr q" for r
  proof (cases "map_of cur (row_key r)")
    case (Some x)
    then have "whole_entry x" using cur(2) map_of_SomeD [OF Some] by auto
    then obtain q where "touch_ban x r = Inr q" using whole_touch by blast
    then show ?thesis using Some by (simp add: update_ban_def)
  qed (simp add: update_ban_def)
  then obtain old where old: "rmap (update_ban srv now hv cur) (db_bans db) = Inr old"
    using rmap_total [of "update_ban srv now hv cur" "db_bans db"] by auto
  have "rbind (current_bans b) (\<lambda>cur.
             let have = have_bans srv (db_bans db) in
             rbind (add_bans srv now (db_next db) (map snd (filter (\<lambda>(k, _). \<not> dhas have k) cur))) (\<lambda>new.
             rbind (rmap (update_ban srv now have cur) (db_bans db)) (\<lambda>old. Inr (old, new)))) = Inr (old, new)"
    unfolding cur(1) rbind.simps Let_def hv_def [symmetric] new old ..
  then show ?thesis by (simp add: write_bans_def)
qed

text \<open>Problems beside own addresses come once each, and a muted key or kind stays silent.\<close>

lemma avalanche_once: "ab_avalanche b = Inr ks \<Longrightarrow> ks = [] \<or> ks = [''avalanche'']"
  by (auto simp: ab_avalanche_def rbind_Inr_iff split: if_splits)

lemma found_kinds:
  assumes "ab_found b now = Inr ks" "k \<in> set ks"
  shows "k \<in> {''cant'', ''noeffect'', ''avalanche''} \<or> (\<exists>x\<in>set (ab_list b ''self''). k = ''self:'' @ py_str (dget x ''ip''))"
proof -
  obtain av where av: "ab_avalanche b = Inr av" "k \<in> set av \<Longrightarrow> k = ''avalanche''"
    using assms(1) avalanche_once by (fastforce simp: ab_found_def Let_def rbind_Inr_iff)
  show ?thesis using assms av by (auto simp: ab_found_def Let_def rbind_Inr_iff simp del: append_Cons append.append_Nil split: if_splits)
qed

lemma problems_not_muted: "ab_problems rep mutes now = Inr ks \<Longrightarrow> k \<in> set ks \<Longrightarrow> k \<notin> set (muted_keys mutes)"
  by (auto simp: ab_problems_def Let_def rbind_Inr_iff split: option.splits)

section \<open>A ban is told once\<close>

text \<open>The table, the memory of the process, the time of the last digest and the bans told so far, over any operations: time
  passes (the clock does not go back), a report is stored or fails, the process starts anew, a person takes a ban off, a
  digest is made with any answer of the chats, old rows are thrown away.\<close>

record ban_world =
  bw_now :: time
  bw_mem :: last_ts
  bw_db :: ban_db
  bw_prev :: "time option"
  bw_told :: "ban_row list"

inductive ban_step :: "ban_world \<Rightarrow> ban_world \<Rightarrow> bool" where
  later: "bw_now w \<le> now \<Longrightarrow> ban_step w (w\<lparr>bw_now := now\<rparr>)"
| stored: "store_bans srv extras (bw_now w) (bw_mem w, bw_db w) = (mem, Inr db) \<Longrightarrow> ban_step w (w\<lparr>bw_mem := mem, bw_db := db\<rparr>)"
| failed: "store_bans srv extras (bw_now w) (bw_mem w, bw_db w) = (mem, Inl e) \<Longrightarrow> ban_step w (w\<lparr>bw_mem := mem\<rparr>)"
| restart: "ban_step w (w\<lparr>bw_mem := []\<rparr>)"
| unban: "ban_step w (w\<lparr>bw_db := mark_unban srv ip (bw_db w)\<rparr>)"
| digest: "send_digest mode z can ok servers (bw_now w) (bw_prev w, bw_db w) = (rows, prev, db) \<Longrightarrow>
    ban_step w (w\<lparr>bw_prev := prev, bw_db := db, bw_told := bw_told w @ rows\<rparr>)"
| cleaned: "ban_step w (w\<lparr>bw_db := prune_bans (bw_now w) (bw_db w)\<rparr>)"

definition ban_world0 :: ban_world where
  "ban_world0 = \<lparr>bw_now = 0, bw_mem = [], bw_db = \<lparr>db_next = 0, db_bans = []\<rparr>, bw_prev = None, bw_told = []\<rparr>"

text \<open>A ban: who was banned where and when.\<close>

definition ban_of :: "ban_row \<Rightarrow> int \<times> string \<times> time" where
  "ban_of r = (bn_server r, bn_ip r, bn_since r)"

lemma ban_of_eq: "ban_of = (\<lambda>r. (bn_server r, bn_ip r, bn_since r))"
  by (simp add: fun_eq_iff ban_of_def)

text \<open>Ids are given once, a ban has one row, and a ban that was told is marked in its row or was thrown away for its age.\<close>

definition told_ok :: "time \<Rightarrow> ban_db \<Rightarrow> ban_row list \<Rightarrow> bool" where
  "told_ok now db told \<longleftrightarrow>
     distinct (map bn_id (db_bans db)) \<and> (\<forall>r\<in>set (db_bans db). bn_id r < db_next db) \<and> distinct (map ban_of (db_bans db)) \<and>
     distinct (map ban_of told) \<and> (\<forall>t\<in>set told. \<not> bn_watch t) \<and>
     (\<forall>t\<in>set told. bn_since t < now - AUTOBAN_KEEP \<or> (\<exists>r\<in>set (db_bans db). ban_of r = ban_of t \<and> bn_digested r))"

lemma told_ok_map:
  assumes "told_ok now db told"
    "map (\<lambda>r. (bn_id r, ban_of r, bn_digested r)) rows = map (\<lambda>r. (bn_id r, ban_of r, bn_digested r)) (db_bans db)"
  shows "told_ok now (db\<lparr>db_bans := rows\<rparr>) told"
proof -
  have ids: "map bn_id rows = map bn_id (db_bans db)" using arg_cong [OF assms(2), of "map fst"] by (simp add: comp_def)
  have bans: "map ban_of rows = map ban_of (db_bans db)" using arg_cong [OF assms(2), of "map (fst \<circ> snd)"] by (simp add: comp_def)
  have row: "\<exists>q\<in>set rows. ban_of q = ban_of r \<and> bn_digested q = bn_digested r" if "r \<in> set (db_bans db)" for r
  proof -
    have "(bn_id r, ban_of r, bn_digested r) \<in> set (map (\<lambda>r. (bn_id r, ban_of r, bn_digested r)) rows)" using that unfolding assms(2) by simp
    then show ?thesis by auto
  qed
  show ?thesis unfolding told_ok_def
  proof (intro conjI)
    show "distinct (map bn_id (db_bans (db\<lparr>db_bans := rows\<rparr>)))" "distinct (map ban_of (db_bans (db\<lparr>db_bans := rows\<rparr>)))"
      using assms(1) ids bans by (simp_all add: told_ok_def)
    show "\<forall>r\<in>set (db_bans (db\<lparr>db_bans := rows\<rparr>)). bn_id r < db_next (db\<lparr>db_bans := rows\<rparr>)"
    proof
      fix q assume "q \<in> set (db_bans (db\<lparr>db_bans := rows\<rparr>))"
      then have "bn_id q \<in> set (map bn_id (db_bans db))" unfolding ids [symmetric] by simp
      then show "bn_id q < db_next (db\<lparr>db_bans := rows\<rparr>)" using assms(1) by (auto simp: told_ok_def)
    qed
    show "\<forall>t\<in>set told. bn_since t < now - AUTOBAN_KEEP \<or> (\<exists>r\<in>set (db_bans (db\<lparr>db_bans := rows\<rparr>)). ban_of r = ban_of t \<and> bn_digested r)"
    proof
      fix t assume "t \<in> set told"
      then consider "bn_since t < now - AUTOBAN_KEEP" | r where "r \<in> set (db_bans db)" "ban_of r = ban_of t" "bn_digested r"
        using assms(1) unfolding told_ok_def by blast
      then show "bn_since t < now - AUTOBAN_KEEP \<or> (\<exists>r\<in>set (db_bans (db\<lparr>db_bans := rows\<rparr>)). ban_of r = ban_of t \<and> bn_digested r)"
      proof cases
        case 2
        from row [OF 2(1)] 2(2,3) show ?thesis by auto
      qed simp
    qed
  qed (use assms(1) in \<open>simp_all add: told_ok_def\<close>)
qed

lemma told_ok_append:
  assumes "told_ok now db told" "map bn_id new = [db_next db ..< db_next db + length new]" "distinct (map ban_of (db_bans db @ new))"
  shows "told_ok now \<lparr>db_next = db_next db + length new, db_bans = db_bans db @ new\<rparr> told"
proof -
  have new: "db_next db \<le> bn_id r \<and> bn_id r < db_next db + length new" if "r \<in> set new" for r
  proof -
    have "bn_id r \<in> set [db_next db ..< db_next db + length new]" using that unfolding assms(2) [symmetric] by simp
    then show ?thesis by simp
  qed
  have "distinct (map bn_id new)" by (simp add: assms(2))
  then have "distinct (map bn_id (db_bans db @ new))" using assms(1) new unfolding told_ok_def by (fastforce simp: disjoint_iff)
  then show ?thesis using assms(1,3) new unfolding told_ok_def by fastforce
qed

lemma add_bans_ids: "add_bans srv now i xs = Inr rs \<Longrightarrow> map bn_id rs = [i ..< i + length rs]"
proof (induction xs arbitrary: i rs)
  case (Cons x xs)
  then obtain r rs' where r: "ab_new srv now i x = Inr r" "add_bans srv now (Suc i) xs = Inr rs'" "rs = r # rs'"
    by (auto simp: rbind_Inr_iff)
  have "bn_id r = i" using r(1) by (auto simp: ab_new_def rbind_Inr_iff split: option.splits)
  moreover have "[i ..< i + length rs] = i # [Suc i ..< Suc i + length rs']" using r(3) by (simp add: upt_conv_Cons del: upt_Suc)
  ultimately show ?case using Cons.IH [OF r(2)] r(3) by (simp add: upt_conv_Cons del: upt_Suc)
qed simp

lemma update_ban_keeps:
  "update_ban srv now hv cur r = Inr q \<Longrightarrow> bn_id q = bn_id r \<and> ban_of q = ban_of r \<and> bn_digested q = bn_digested r"
  by (auto simp: update_ban_def touch_ban_def close_ban_def ban_of_def rbind_Inr_iff split: if_splits option.splits)

lemma write_bans_told:
  assumes "told_ok t db told" "write_bans srv b now db = Inr db'"
  shows "told_ok t db' told"
proof -
  define hv where "hv = have_bans srv (db_bans db)"
  obtain cur new old where c:
      "add_bans srv now (db_next db) (map snd (filter (\<lambda>(k, _). \<not> dhas hv k) cur)) = Inr new"
      "rmap (update_ban srv now hv cur) (db_bans db) = Inr old"
      "db' = \<lparr>db_next = db_next db + length new, db_bans = old @ new\<rparr>" "unique_bans (old @ new)"
    using assms(2) by (auto simp: write_bans_def Let_def rbind_Inr_iff hv_def split: sum.splits if_splits)
  have "list_all2 (\<lambda>r q. update_ban srv now hv cur r = Inr q) (db_bans db) old" using c(2) by (simp add: rmap_Inr_iff)
  then have "map (\<lambda>r. (bn_id r, ban_of r, bn_digested r)) old = map (\<lambda>r. (bn_id r, ban_of r, bn_digested r)) (db_bans db)"
    by (induction rule: list_all2_induct) (simp_all add: update_ban_keeps)
  from told_ok_append [OF told_ok_map [OF assms(1) this], of new] add_bans_ids [OF c(1)] c(4) show ?thesis
    by (simp add: c(3) unique_bans_def ban_of_eq)
qed

lemma digest_groups_rows:
  "mset (concat (map snd (digest_groups servers rows))) = filter_mset (\<lambda>r. bn_server r \<in> sid ` set (filter enabled servers)) (mset rows)"
proof -
  let ?on = "sid ` set (filter enabled servers)"
  define f :: "ban_row \<Rightarrow> (int \<times> ban_row list) list \<Rightarrow> (int \<times> ban_row list) list" where "f = (\<lambda>r d. if bn_server r \<in> ?on
      then dset (bn_server r) ((case map_of d (bn_server r) of None \<Rightarrow> [] | Some rs \<Rightarrow> rs) @ [r]) d else d)"
  have put: "mset (concat (map snd (dset k (v @ [r]) d))) = add_mset r (mset (concat (map snd d)))"
    if "v = (case map_of d k of None \<Rightarrow> [] | Some rs \<Rightarrow> rs)" for k v r and d :: "(int \<times> ban_row list) list"
    using that by (induction d) auto
  have "mset (concat (map snd (fold f rows d))) = mset (concat (map snd d)) + filter_mset (\<lambda>r. bn_server r \<in> ?on) (mset rows)" for d
  proof (induction rows arbitrary: d)
    case (Cons r rows)
    have "mset (concat (map snd (f r d))) = mset (concat (map snd d)) + filter_mset (\<lambda>r. bn_server r \<in> ?on) {#r#}"
      unfolding f_def using put [OF refl, of "bn_server r" d r] by simp
    then show ?case using Cons [of "f r d"] by simp
  qed simp
  from this [of "[]"] show ?thesis by (simp add: digest_groups_def f_def)
qed

lemma distinct_part:
  assumes "distinct ys" "mset xs \<subseteq># mset ys"
  shows "distinct xs"
proof -
  obtain zs where "mset ys = mset (xs @ zs)" using assms(2) by (metis ex_mset mset_append mset_subset_eq_exists_conv)
  from mset_eq_imp_distinct_iff [OF this] assms(1) show ?thesis by simp
qed

lemma send_digest_cases:
  assumes "send_digest mode z can ok servers now (prev, db) = (rows, prev', db')"
  shows "rows = [] \<and> db' = db \<or> db' = mark_digested (map bn_id (fresh_bans now db)) db \<and>
     (rows = [] \<or> rows = concat (map snd (digest_groups servers (fresh_bans now db))))"
  using assms unfolding send_digest_def Let_def prod.case
  by (cases "digest_due mode prev now z"; cases "digest_groups servers (fresh_bans now db) = []"; cases "can \<and> ok") auto

lemma send_digest_told:
  assumes "told_ok now db told" "send_digest mode z can ok servers now (prev, db) = (rows, prev', db')"
  shows "told_ok now db' (told @ rows)"
proof -
  let ?fresh = "fresh_bans now db"
  let ?db = "mark_digested (map bn_id ?fresh) db"
  have fresh: "set ?fresh \<subseteq> set (db_bans db)" "\<forall>r\<in>set ?fresh. \<not> bn_digested r \<and> \<not> bn_watch r \<and> \<not> bn_since r < now - AUTOBAN_KEEP"
    and dist: "distinct (map ban_of ?fresh)"
  proof -
    show "set ?fresh \<subseteq> set (db_bans db)" "\<forall>r\<in>set ?fresh. \<not> bn_digested r \<and> \<not> bn_watch r \<and> \<not> bn_since r < now - AUTOBAN_KEEP"
      by (auto simp: fresh_bans_def AUTOBAN_KEEP_def day_us_def)
    show "distinct (map ban_of ?fresh)" using assms(1) by (simp add: fresh_bans_def told_ok_def distinct_map inj_on_def)
  qed
  have keep: "map bn_id (db_bans ?db) = map bn_id (db_bans db)" "map ban_of (db_bans ?db) = map ban_of (db_bans db)" "db_next ?db = db_next db"
    by (simp_all add: mark_digested_def comp_def if_distrib [of bn_id] if_distrib [of ban_of]) (simp add: ban_of_def if_distrib cong: if_cong)
  have marked: "\<exists>q\<in>set (db_bans ?db). ban_of q = ban_of r \<and> bn_digested q" if "r \<in> set (db_bans db)" "bn_digested r \<or> r \<in> set ?fresh" for r
  proof -
    let ?q = "if bn_id r \<in> set (map bn_id ?fresh) then r\<lparr>bn_digested := True\<rparr> else r"
    have "?q \<in> set (db_bans ?db)" unfolding mark_digested_def using that(1) by simp
    moreover have "ban_of ?q = ban_of r" by (simp add: ban_of_def)
    moreover have "bn_digested ?q" using that(2) by auto
    ultimately show ?thesis by blast
  qed
  have untold: "ban_of q \<notin> ban_of ` set told" if "q \<in> set ?fresh" for q
  proof
    assume "ban_of q \<in> ban_of ` set told"
    then obtain t where t: "t \<in> set told" "ban_of q = ban_of t" by blast
    then have "\<not> bn_since t < now - AUTOBAN_KEEP" using fresh(2) that by (auto simp: ban_of_def)
    with assms(1) t(1) obtain r where r: "r \<in> set (db_bans db)" "ban_of r = ban_of t" "bn_digested r" unfolding told_ok_def by blast
    have "inj_on ban_of (set (db_bans db))" using assms(1) by (simp add: told_ok_def distinct_map)
    moreover have "q \<in> set (db_bans db)" "ban_of r = ban_of q" using fresh(1) that r(2) t(2) by auto
    ultimately have "r = q" using r(1) by (meson inj_onD)
    then show False using r(3) fresh(2) that by blast
  qed
  have more: "told_ok now ?db (told @ qs)" if "distinct (map ban_of qs)" "set qs \<subseteq> set ?fresh" for qs
    unfolding told_ok_def keep
  proof (intro conjI)
    show "\<forall>r\<in>set (db_bans ?db). bn_id r < db_next db" using assms(1) by (auto simp: told_ok_def mark_digested_def)
    have "set (map ban_of told) \<inter> set (map ban_of qs) = {}" using untold that(2) by fastforce
    then show "distinct (map ban_of (told @ qs))" using assms(1) that(1) by (simp add: told_ok_def)
    show "\<forall>t\<in>set (told @ qs). \<not> bn_watch t" using assms(1) that(2) fresh by (auto simp: told_ok_def)
    show "\<forall>t\<in>set (told @ qs). bn_since t < now - AUTOBAN_KEEP \<or> (\<exists>r\<in>set (db_bans ?db). ban_of r = ban_of t \<and> bn_digested r)"
    proof
      fix t assume "t \<in> set (told @ qs)"
      then consider "t \<in> set told" | "t \<in> set ?fresh" "t \<in> set (db_bans db)"
        using \<open>set qs \<subseteq> set ?fresh\<close> fresh(1) by auto
      then show "bn_since t < now - AUTOBAN_KEEP \<or> (\<exists>r\<in>set (db_bans ?db). ban_of r = ban_of t \<and> bn_digested r)"
      proof cases
        case 1
        then have "bn_since t < now - AUTOBAN_KEEP \<or> (\<exists>r\<in>set (db_bans db). ban_of r = ban_of t \<and> bn_digested r)"
          using assms(1) unfolding told_ok_def by blast
        then show ?thesis using marked by metis
      next
        case 2
        then show ?thesis using marked by blast
      qed
    qed
  qed (use assms(1) in \<open>simp_all add: told_ok_def\<close>)
  consider "rows = []" "db' = db" | "rows = []" "db' = ?db"
    | "rows = concat (map snd (digest_groups servers ?fresh))" "db' = ?db"
    using send_digest_cases [OF assms(2)] by blast
  then show ?thesis
  proof cases
    case 1
    then show ?thesis using assms(1) by simp
  next
    case 2
    then show ?thesis using more [of "[]"] by simp
  next
    case 3
    have m: "mset rows \<subseteq># mset ?fresh" unfolding 3(1) digest_groups_rows by simp
    then have sub: "set rows \<subseteq> set ?fresh" using set_mset_mono by fastforce
    have "image_mset ban_of (mset rows) \<subseteq># image_mset ban_of (mset ?fresh)" using m by (rule image_mset_subseteq_mono)
    then have "distinct (map ban_of rows)" by (intro distinct_part [OF dist]) simp
    then show ?thesis using more sub 3(2) by simp
  qed
qed

lemma prune_bans_told: "told_ok now db told \<Longrightarrow> told_ok now (prune_bans now db) told"
  by (fastforce simp: told_ok_def prune_bans_def distinct_map inj_on_def ban_of_def)

lemma told_ok_later: "told_ok now db told \<Longrightarrow> now \<le> now' \<Longrightarrow> told_ok now' db told"
  unfolding told_ok_def by fastforce

lemma ban_step_told: "ban_step w w' \<Longrightarrow> told_ok (bw_now w) (bw_db w) (bw_told w) \<Longrightarrow> told_ok (bw_now w') (bw_db w') (bw_told w')"
proof (induction rule: ban_step.induct)
  case (later w now)
  then show ?case by (simp add: told_ok_later)
next
  case (stored srv extras w mem db)
  then show ?case by (auto simp: store_bans_def Let_def write_bans_told split: sum.splits option.splits if_splits)
next
  case (unban w srv ip)
  show ?case unfolding mark_unban_def ban_world.simps by (simp, rule told_ok_map [OF unban]) (simp add: comp_def ban_of_def)
next
  case (digest mode z can ok servers w rows prev db)
  then show ?case by (simp add: send_digest_told)
next
  case (cleaned w)
  then show ?case by (simp add: prune_bans_told)
qed simp_all

text \<open>C28. A ban is announced once: over any run of stored and failed reports, restarts, unbans, digests delivered or not and
  clean-ups, the clock not going back, no two bans told in digests are the same ban (the same address on the same server since the
  same moment), and none is a ban of the watching mode.\<close>

theorem ban_told_once:
  assumes "ban_step\<^sup>*\<^sup>* ban_world0 w"
  shows "distinct (map (\<lambda>r. (bn_server r, bn_ip r, bn_since r)) (bw_told w)) \<and> (\<forall>r\<in>set (bw_told w). \<not> bn_watch r)"
proof -
  have "told_ok (bw_now w) (bw_db w) (bw_told w)" using assms
  proof (induction rule: rtranclp_induct)
    case base
    show ?case by (simp add: told_ok_def ban_world0_def)
  qed (rule ban_step_told)
  then show ?thesis by (simp add: told_ok_def ban_of_eq)
qed

text \<open>C29. A ban that was closed and is reported again makes the request of the report fail, in a block that is otherwise as the
  helper writes it: its row is still in the table, the code looks only among the open rows and inserts it anew, which the
  unique key refuses, and nothing of the block is stored.  The mark of the block is kept, so the next block of the helper,
  with another time, fails in the same way.\<close>

theorem returned_ban_rejected:
  assumes "ab_block (Some [(''extras'', por extras (PDict []))]) now = Inr (Some b)"
    "\<not> (case map_of mem srv of Some old \<Rightarrow> flt_eq old (ab_num (dget b ''ts'') 0) | None \<Rightarrow> False)"
    "\<forall>x\<in>set (ab_list b ''bans''). whole_entry x" "x \<in> set (ab_list b ''bans'')" "ban_entry ip t x"
    "r \<in> set (db_bans db)" "bn_server r = srv" "bn_ip r = ip" "bn_since r = sec t" "bn_ended_at r \<noteq> None"
    "\<forall>q\<in>set (db_bans db). open_row srv q \<longrightarrow> row_key q \<noteq> row_key r"
  shows "store_bans srv extras now (mem, db) = (dset srv (ab_num (dget b ''ts'') 0) mem, Inl Duplicate)"
proof -
  have "\<forall>x\<in>set (ab_list b ''bans''). \<exists>ip t. ban_entry ip t x" using assms(3) unfolding whole_entry_def by blast
  then have "write_bans srv b now db \<noteq> Inr db'" for db' by (rule write_fails_on_returned [OF _ assms(4-11)])
  then have "write_bans srv b now db = Inl Duplicate" using whole_write [OF assms(3), of srv now db] by blast
  then show ?thesis using assms(1,2) by (simp add: store_bans_def Let_def)
qed

section \<open>Concrete runs\<close>

definition demo_ban :: "string \<Rightarrow> int \<Rightarrow> int \<Rightarrow> dict" where
  "demo_ban ip since until = [(''ip'', PStr ip), (''since'', PInt since), (''until'', PInt until), (''n'', PInt 1), (''hits'', PInt 5),
     (''paths'', PList [PStr ''/.env'']), (''more'', PInt 0), (''where'', PStr ''site''), (''w'', PInt 0), (''seen'', PInt 0)]"

definition demo_block :: "int \<Rightarrow> dict list \<Rightarrow> py" where
  "demo_block ts bans = PDict [(''autoban'', PDict [(''v'', PInt 1), (''ts'', PInt ts), (''bans'', PList (map PDict bans))])]"

definition demo_bans :: "dict list" where
  "demo_bans = [demo_ban ''203.0.113.5'' 1700000000 1700086400]"

definition demo_run :: "nat \<Rightarrow> last_ts \<times> ban_db" where
  "demo_run n =
     (let moment = (\<lambda>k. sec (1700000100 + 60 * k));
          keep = (\<lambda>(m, r). (m, case r of Inr db \<Rightarrow> db | Inl _ \<Rightarrow> \<lparr>db_next = 0, db_bans = []\<rparr>));
          s1 = keep (store_bans 1 (demo_block 1700000100 demo_bans) (moment 0) ([], \<lparr>db_next = 0, db_bans = []\<rparr>))
      in if n = 1 then s1 else keep (store_bans 1 (demo_block 1700000160 []) (moment 1) s1))"

lemma demo_entries: "\<forall>x\<in>set demo_bans. whole_entry x"
  by (auto simp: demo_bans_def demo_ban_def whole_entry_def ban_entry_def time_ok_def sec_def day_us_def epoch_ord_def)

theorem returned_ban_rejected_witness:
  "store_bans 1 (demo_block 1700000220 demo_bans) (sec 1700000220) (demo_run 2) =
        ([(1, Fin 1700000220)], Inl Duplicate)"
proof -
  let ?b = "[(''v'', PInt 1), (''ts'', PInt 1700000220), (''bans'', PList (map PDict demo_bans))]"
  let ?x = "demo_ban ''203.0.113.5'' 1700000000 1700086400"
  let ?m = "[(1 :: int, Fin 1700000160)]"
  let ?db = "snd (demo_run 2)"
  let ?r = "hd (db_bans ?db)"
  have run: "demo_run 2 = (?m, ?db)" by code_simp
  have list: "ab_list ?b ''bans'' = demo_bans" by code_simp
  have some: "db_bans ?db \<noteq> []" by code_simp
  have "ab_block (Some [(''extras'', por (demo_block 1700000220 demo_bans) (PDict []))]) (sec 1700000220) = Inr (Some ?b)" by code_simp
  moreover have "\<not> (case map_of ?m 1 of Some old \<Rightarrow> flt_eq old (ab_num (dget ?b ''ts'') 0) | None \<Rightarrow> False)" by code_simp
  moreover have "\<forall>x\<in>set (ab_list ?b ''bans''). whole_entry x" unfolding list by (rule demo_entries)
  moreover have "?x \<in> set (ab_list ?b ''bans'')" unfolding list by (simp add: demo_bans_def)
  moreover have "ban_entry ''203.0.113.5'' 1700000000 ?x" by code_simp
  moreover have "?r \<in> set (db_bans ?db)" by (rule hd_in_set) (rule some)
  moreover have "bn_server ?r = 1" "bn_ip ?r = ''203.0.113.5''" "bn_since ?r = sec 1700000000" "bn_ended_at ?r \<noteq> None" by code_simp+
  moreover have "\<forall>q\<in>set (db_bans ?db). open_row 1 q \<longrightarrow> row_key q \<noteq> row_key ?r" by code_simp
  ultimately have "store_bans 1 (demo_block 1700000220 demo_bans) (sec 1700000220) (?m, ?db) =
      (dset 1 (ab_num (dget ?b ''ts'') 0) ?m, Inl Duplicate)"
    by (rule returned_ban_rejected)
  moreover have "dset 1 (ab_num (dget ?b ''ts'') 0) ?m = [(1, Fin 1700000220)]" by code_simp
  ultimately show ?thesis by (subst run) simp
qed

definition demo_told :: "ban_row list \<times> time option \<times> ban_db" where
  "demo_told = send_digest ''hour'' (\<lambda>_. 0) True True [server0] (sec 1700000220) (None, snd (demo_run 1))"

theorem ban_told_once_witness:
  "\<exists>w. ban_step\<^sup>*\<^sup>* ban_world0 w \<and> length (bw_told w) = 1 \<and> distinct (map (\<lambda>r. (bn_server r, bn_ip r, bn_since r)) (bw_told w))
     \<and> (\<forall>r\<in>set (bw_told w). \<not> bn_watch r)"
proof -
  let ?w0 = "ban_world0\<lparr>bw_now := sec 1700000100\<rparr>"
  let ?w1 = "?w0\<lparr>bw_mem := fst (demo_run 1), bw_db := snd (demo_run 1)\<rparr>"
  let ?w2 = "?w1\<lparr>bw_now := sec 1700000220\<rparr>"
  let ?w3 = "?w2\<lparr>bw_prev := fst (snd demo_told), bw_db := snd (snd demo_told), bw_told := bw_told ?w2 @ fst demo_told\<rparr>"
  have s0: "ban_step ban_world0 ?w0" by (rule ban_step.later) (simp add: ban_world0_def sec_def)
  have "store_bans 1 (demo_block 1700000100 demo_bans) (bw_now ?w0) (bw_mem ?w0, bw_db ?w0) =
      (fst (demo_run 1), Inr (snd (demo_run 1)))" by code_simp
  then have s1: "ban_step ?w0 ?w1" by (rule ban_step.stored)
  have s2: "ban_step ?w1 ?w2" by (rule ban_step.later) (simp add: sec_def)
  have "send_digest ''hour'' (\<lambda>_. 0) True True [server0] (bw_now ?w2) (bw_prev ?w2, bw_db ?w2) =
      (fst demo_told, fst (snd demo_told), snd (snd demo_told))" by (simp add: demo_told_def ban_world0_def)
  then have "ban_step ?w2 ?w3" by (rule ban_step.digest)
  with s0 s1 s2 have run: "ban_step\<^sup>*\<^sup>* ban_world0 ?w3" by simp
  have "length (fst demo_told) = 1" by code_simp
  then have "length (bw_told ?w3) = 1" by (simp add: ban_world0_def)
  with run ban_told_once [OF run] show ?thesis by blast
qed

end
