(* ===== verification/Maintenance.thy ===== *)
theory Maintenance
  imports Access
begin

text \<open>
  Maintenance windows (\<open>maint.py\<close>, \<open>api/maintenance.py\<close>, \<open>collector.maintenance_tick\<close>): planned work, during which the
  alerts of the chosen servers and monitors are silent, and one message after its end.

  The zone of the alerts is a record of functions, since the database of time zones is outside the repository: the offset of
  a moment, the fold of a moment, the moment of a wall time.  Moments within nine days of the first and the last year are
  left out (\<open>date\<close> arithmetic raises there).  The columns \<open>server_ids\<close>, \<open>check_ids\<close> and \<open>weekdays\<close> are lists, empty
  for NULL: the code reads them only as \<open>w.x or []\<close>.  The entries of the audit log and the text of the message are left out.
\<close>

section \<open>Rows and the zone\<close>

datatype mw_repetition = Once | Daily | Weekly

record maint_window =
  mw_id :: int
  mw_title :: string
  mw_server_ids :: "int list"
  mw_check_ids :: "int list"
  mw_starts :: time
  mw_ends :: time
  mw_repeat :: mw_repetition
  mw_weekdays :: "int list"
  mw_verify :: bool
  mw_note :: string
  mw_created_by :: string
  mw_verified_end :: "time option"

record time_zone =
  z_off :: "time \<Rightarrow> int"
  z_fold :: "time \<Rightarrow> bool"
  z_utc :: "bool \<Rightarrow> int \<Rightarrow> time"

definition VERIFY_AFTER :: int where "VERIFY_AFTER = sec 300"
definition KEEP_DONE :: int where "KEEP_DONE = 30 * day_us"
definition SPAN_DAYS :: int where "SPAN_DAYS = 8"

section \<open>When a window is open\<close>

text \<open>The date and the time of day of a moment in the zone; the start of the window on a day.\<close>

definition local_wall :: "time_zone \<Rightarrow> time \<Rightarrow> int" where
  "local_wall z t = t + z_off z t"

definition mw_days :: "maint_window \<Rightarrow> int list" where
  "mw_days w = (if mw_repeat w = Weekly then mw_weekdays w else [0 .. 6])"

definition start_on :: "maint_window \<Rightarrow> time_zone \<Rightarrow> int \<Rightarrow> time" where
  "start_on w z day = z_utc z (z_fold z (mw_starts w)) ((day - epoch_ord) * day_us + local_wall z (mw_starts w) mod day_us)"

definition occurrences :: "maint_window \<Rightarrow> time \<Rightarrow> time_zone \<Rightarrow> (time \<times> time) list" where
  "occurrences w around z =
     (if mw_repeat w = Once then [(mw_starts w, mw_ends w)]
      else (let dur = mw_ends w - mw_starts w; first = date_of (local_wall z (mw_starts w)); base = date_of (local_wall z around)
            in map (\<lambda>day. (start_on w z day, start_on w z day + dur))
                 (filter (\<lambda>day. \<not> (day < first \<or> weekday day \<notin> set (mw_days w)))
                   (map (\<lambda>d. base + d) [- SPAN_DAYS .. SPAN_DAYS]))))"

definition mw_current :: "maint_window \<Rightarrow> time \<Rightarrow> time_zone \<Rightarrow> (time \<times> time) option" where
  "mw_current w now z = find (\<lambda>(s, e). s \<le> now \<and> now < e) (occurrences w now z)"

definition last_ended :: "maint_window \<Rightarrow> time \<Rightarrow> time_zone \<Rightarrow> (time \<times> time) option" where
  "last_ended w now z =
     (let done = filter (\<lambda>(s, e). e \<le> now) (occurrences w now z) in if done = [] then None else Some (last done))"

definition next_start :: "maint_window \<Rightarrow> time \<Rightarrow> time_zone \<Rightarrow> time option" where
  "next_start w now z = find (\<lambda>s. s > now) (map fst (occurrences w now z))"

definition mw_finished :: "maint_window \<Rightarrow> time \<Rightarrow> bool" where
  "mw_finished w now \<longleftrightarrow> mw_repeat w = Once \<and> mw_ends w \<le> now"

definition mw_active :: "maint_window list \<Rightarrow> time \<Rightarrow> time_zone \<Rightarrow> int set \<times> int set" where
  "mw_active ws now z =
     (let on = filter (\<lambda>w. mw_current w now z \<noteq> None) ws
      in (\<Union>w\<in>set on. set (mw_server_ids w), \<Union>w\<in>set on. set (mw_check_ids w)))"

definition due_verify :: "maint_window \<Rightarrow> time \<Rightarrow> time_zone \<Rightarrow> (time \<times> time) option" where
  "due_verify w now z =
     (if \<not> mw_verify w then None
      else case last_ended w now z of
             None \<Rightarrow> None
           | Some (s, e) \<Rightarrow>
               (let age = now - e
                in if age < VERIFY_AFTER \<or> age > day_us then None
                   else if (case mw_verified_end w of Some v \<Rightarrow> v \<ge> e | None \<Rightarrow> False) then None else Some (s, e)))"

section \<open>The requests\<close>

record maint_in =
  mi_title :: string
  mi_server_ids :: "int list"
  mi_check_ids :: "int list"
  mi_starts :: dt
  mi_ends :: dt
  mi_repeat :: mw_repetition
  mi_weekdays :: "int list"
  mi_verify :: bool
  mi_note :: string

text \<open>The tables: id and group of servers and monitors, the windows.\<close>

record maint_db =
  md_servers :: "(int \<times> string option) list"
  md_checks :: "(int \<times> string option) list"
  md_next :: int
  md_windows :: "maint_window list"

definition mw_visible :: "maint_db \<Rightarrow> user \<Rightarrow> int list \<times> int list" where
  "mw_visible db u =
     (map fst (filter (\<lambda>(_, g). section_allowed u ''/api/servers'' \<and> group_allowed u g ''servers'') (md_servers db)),
      map fst (filter (\<lambda>(_, g). section_allowed u ''/api/checks'' \<and> group_allowed u g ''sites'') (md_checks db)))"

definition mw_validate :: "maint_in \<Rightarrow> int list \<times> int list \<Rightarrow> api_error option" where
  "mw_validate body vis =
     (let start = dt_utc (mi_starts body); end' = dt_utc (mi_ends body); bad = (\<lambda>m. Some (ApiError 400 m))
      in if end' \<le> start then bad ''end_before_start''
         else if mi_repeat body \<noteq> Once \<and> end' - start > sec (24 * 3600) then bad ''longer_than_day''
         else if mi_repeat body = Once \<and> end' - start > 31 * day_us then bad ''longer_than_month''
         else if mi_repeat body = Weekly \<and> mi_weekdays body = [] then bad ''no_weekdays''
         else if list_ex (\<lambda>d. d < 0 \<or> d > 6) (mi_weekdays body) then bad ''bad_weekday''
         else if mi_server_ids body = [] \<and> mi_check_ids body = [] then bad ''nothing_chosen''
         else if \<not> set (mi_server_ids body) \<subseteq> set (fst vis) \<or> \<not> set (mi_check_ids body) \<subseteq> set (snd vis) then bad ''not_visible''
         else None)"

definition mw_fill :: "maint_in \<Rightarrow> maint_window \<Rightarrow> maint_window" where
  "mw_fill body w =
     w\<lparr>mw_title := strip (mi_title body), mw_server_ids := sorted_list_of_set (set (mi_server_ids body)),
       mw_check_ids := sorted_list_of_set (set (mi_check_ids body)),
       mw_starts := dt_utc (mi_starts body), mw_ends := dt_utc (mi_ends body), mw_repeat := mi_repeat body,
       mw_weekdays := (if mi_repeat body = Weekly then sorted_list_of_set (set (mi_weekdays body)) else []),
       mw_verify := mi_verify body, mw_note := strip (mi_note body)\<rparr>"

definition mw_get :: "maint_db \<Rightarrow> int \<Rightarrow> maint_window answer" where
  "mw_get db i = (case find (\<lambda>w. mw_id w = i) (md_windows db) of None \<Rightarrow> Inl (ApiError 404 ''no_window'') | Some w \<Rightarrow> Inr w)"

text \<open>The common start of \<open>update_window\<close> and \<open>delete_window\<close>: the window, of which nothing belongs to others.\<close>

definition mw_own :: "maint_db \<Rightarrow> user \<Rightarrow> int \<Rightarrow> maint_window answer" where
  "mw_own db u i =
     (let vis = mw_visible db u
      in case mw_get db i of Inl e \<Rightarrow> Inl e | Inr w \<Rightarrow>
          (let srv = set (mw_server_ids w); chk = set (mw_check_ids w)
           in if srv \<inter> set (fst vis) = {} \<and> chk \<inter> set (snd vis) = {} then Inl (ApiError 404 ''no_window'')
              else if \<not> srv \<subseteq> set (fst vis) \<or> \<not> chk \<subseteq> set (snd vis) then Inl (ApiError 403 ''others_inside'')
              else Inr w))"

definition blank_window :: "user \<Rightarrow> int \<Rightarrow> maint_window" where
  "blank_window u i = \<lparr>mw_id = i, mw_title = [], mw_server_ids = [], mw_check_ids = [], mw_starts = 0, mw_ends = 0,
     mw_repeat = Once, mw_weekdays = [], mw_verify = True, mw_note = [], mw_created_by = username u, mw_verified_end = None\<rparr>"

definition create_window :: "maint_in \<Rightarrow> user \<Rightarrow> maint_db \<Rightarrow> maint_db answer" where
  "create_window body u db =
     (case mw_validate body (mw_visible db u) of
        Some e \<Rightarrow> Inl e
      | None \<Rightarrow> Inr (db\<lparr>md_next := md_next db + 1, md_windows := md_windows db @ [mw_fill body (blank_window u (md_next db))]\<rparr>))"

definition update_window :: "int \<Rightarrow> maint_in \<Rightarrow> user \<Rightarrow> maint_db \<Rightarrow> maint_db answer" where
  "update_window i body u db =
     (case mw_own db u i of Inl e \<Rightarrow> Inl e | Inr _ \<Rightarrow>
      (case mw_validate body (mw_visible db u) of
         Some e \<Rightarrow> Inl e
       | None \<Rightarrow> Inr (db\<lparr>md_windows := map (\<lambda>w. if mw_id w = i then (mw_fill body w)\<lparr>mw_verified_end := None\<rparr> else w) (md_windows db)\<rparr>)))"

definition delete_window :: "int \<Rightarrow> user \<Rightarrow> maint_db \<Rightarrow> maint_db answer" where
  "delete_window i u db =
     (case mw_own db u i of Inl e \<Rightarrow> Inl e | Inr _ \<Rightarrow> Inr (db\<lparr>md_windows := filter (\<lambda>w. mw_id w \<noteq> i) (md_windows db)\<rparr>))"

section \<open>The tick\<close>

text \<open>Windows long gone are deleted, others noted as checked; the messages, as window and end, go out after the commit.\<close>

definition tick_window :: "time \<Rightarrow> time_zone \<Rightarrow> maint_window \<Rightarrow> maint_window option \<times> (int \<times> time) list" where
  "tick_window now z w =
     (if mw_finished w now \<and> now - mw_ends w > KEEP_DONE then (None, [])
      else case due_verify w now z of
             None \<Rightarrow> (Some w, [])
           | Some (_, e) \<Rightarrow> (Some (w\<lparr>mw_verified_end := Some e\<rparr>), [(mw_id w, e)]))"

definition maintenance_tick :: "time \<Rightarrow> time_zone \<Rightarrow> maint_db \<Rightarrow> maint_db \<times> (int \<times> time) list" where
  "maintenance_tick now z db =
     (let rs = map (tick_window now z) (md_windows db)
      in (db\<lparr>md_windows := List.map_filter fst rs\<rparr>, concat (map snd rs)))"

section \<open>Silence is exactly what was planned\<close>

text \<open>What \<open>zoneinfo\<close> promises: offsets stay strictly between minus and plus a day.\<close>

definition zone_ok :: "time_zone \<Rightarrow> bool" where
  "zone_ok z \<longleftrightarrow> (\<forall>t. \<bar>z_off z t\<bar> < day_us) \<and> (\<forall>f t. \<bar>z_utc z f t - t\<bar> < day_us)"

text \<open>The windows the requests let into the table.\<close>

definition window_ok :: "maint_window \<Rightarrow> bool" where
  "window_ok w \<longleftrightarrow> mw_starts w < mw_ends w \<and> (mw_repeat w \<noteq> Once \<longrightarrow> mw_ends w - mw_starts w \<le> day_us)"

text \<open>The plan, over all days.\<close>

definition planned :: "maint_window \<Rightarrow> time_zone \<Rightarrow> time \<Rightarrow> bool" where
  "planned w z now \<longleftrightarrow>
     (if mw_repeat w = Once then mw_starts w \<le> now \<and> now < mw_ends w
      else (\<exists>day. date_of (local_wall z (mw_starts w)) \<le> day \<and> weekday day \<in> set (mw_days w) \<and>
              start_on w z day \<le> now \<and> now < start_on w z day + (mw_ends w - mw_starts w)))"

lemma planned_verified [simp]: "planned (w\<lparr>mw_verified_end := v\<rparr>) = planned w"
  by (intro ext) (simp add: planned_def start_on_def mw_days_def)

lemma day_near:
  assumes "zone_ok z" "window_ok w" "mw_repeat w \<noteq> Once" "start_on w z day \<le> now" "now < start_on w z day + (mw_ends w - mw_starts w)"
  shows "\<bar>day - date_of (local_wall z now)\<bar> \<le> SPAN_DAYS"
proof -
  define tod where "tod = local_wall z (mw_starts w) mod day_us"
  define n where "n = day - epoch_ord"
  have d: "day_us = 86400000000" by (simp add: day_us_def)
  have tod: "0 \<le> tod" "tod < day_us" by (simp_all add: tod_def d)
  have u: "\<bar>start_on w z day - (n * day_us + tod)\<bar> < day_us"
    using assms(1) by (simp add: zone_ok_def start_on_def tod_def n_def)
  have off: "\<bar>local_wall z now - now\<bar> < day_us" using assms(1) by (simp add: zone_ok_def local_wall_def)
  have dur: "mw_ends w - mw_starts w \<le> day_us" using assms(2,3) by (simp add: window_ok_def)
  have lo: "(n - 2) * day_us \<le> local_wall z now" and hi: "local_wall z now < (n + 4) * day_us"
    using u off dur assms(4,5) tod by (simp_all add: algebra_simps abs_less_iff d)
  have "n - 2 \<le> local_wall z now div day_us" using zdiv_mono1 [OF lo, of day_us] by (simp add: d)
  moreover have "local_wall z now div day_us < n + 4" using hi by (simp add: div_less_iff_less_mult d)
  ultimately show ?thesis by (simp add: date_of_def n_def SPAN_DAYS_def)
qed

lemma occurrence_days:
  assumes "mw_repeat w \<noteq> Once"
  shows "(s, e) \<in> set (occurrences w around z) \<longleftrightarrow>
     (\<exists>day. \<bar>day - date_of (local_wall z around)\<bar> \<le> SPAN_DAYS \<and> date_of (local_wall z (mw_starts w)) \<le> day \<and>
        weekday day \<in> set (mw_days w) \<and> s = start_on w z day \<and> e = s + (mw_ends w - mw_starts w))"
proof -
  define b where "b = date_of (local_wall z around)"
  have days: "set (map (\<lambda>d. b + d) [- SPAN_DAYS .. SPAN_DAYS]) = {day. \<bar>day - b\<bar> \<le> SPAN_DAYS}"
  proof (intro equalityI subsetI)
    fix x assume "x \<in> {day. \<bar>day - b\<bar> \<le> SPAN_DAYS}"
    then have "x = b + (x - b)" "x - b \<in> {- SPAN_DAYS .. SPAN_DAYS}" by auto
    then show "x \<in> set (map (\<lambda>d. b + d) [- SPAN_DAYS .. SPAN_DAYS])" by (metis image_eqI set_map set_upto)
  qed auto
  have "set (occurrences w around z) = (\<lambda>day. (start_on w z day, start_on w z day + (mw_ends w - mw_starts w))) `
      {day. \<bar>day - b\<bar> \<le> SPAN_DAYS \<and> date_of (local_wall z (mw_starts w)) \<le> day \<and> weekday day \<in> set (mw_days w)}"
    unfolding occurrences_def Let_def b_def [symmetric] using assms days by (simp add: set_filter not_less)
  then show ?thesis unfolding b_def [symmetric] by (auto simp: image_iff)
qed

lemma current_iff:
  assumes "zone_ok z" "window_ok w"
  shows "mw_current w now z \<noteq> None \<longleftrightarrow> planned w z now"
proof (cases "mw_repeat w = Once")
  case True
  then show ?thesis by (simp add: mw_current_def occurrences_def planned_def)
next
  case False
  have "mw_current w now z \<noteq> None \<longleftrightarrow> (\<exists>s e. (s, e) \<in> set (occurrences w now z) \<and> s \<le> now \<and> now < e)"
    unfolding mw_current_def not_None_eq find_Some_iff2 [symmetric] using find_None_iff [of "\<lambda>(s, e). s \<le> now \<and> now < e" "occurrences w now z"]
    by auto
  also have "\<dots> \<longleftrightarrow> planned w z now"
  proof
    assume "\<exists>s e. (s, e) \<in> set (occurrences w now z) \<and> s \<le> now \<and> now < e"
    then show "planned w z now" unfolding occurrence_days [OF False] planned_def using False by auto
  next
    assume "planned w z now"
    then obtain day where d: "date_of (local_wall z (mw_starts w)) \<le> day" "weekday day \<in> set (mw_days w)"
        "start_on w z day \<le> now" "now < start_on w z day + (mw_ends w - mw_starts w)"
      using False by (auto simp: planned_def)
    then show "\<exists>s e. (s, e) \<in> set (occurrences w now z) \<and> s \<le> now \<and> now < e"
      unfolding occurrence_days [OF False] using day_near [OF assms False d(3,4)] by blast
  qed
  finally show ?thesis .
qed

text \<open>C25. A server or a monitor is silent for maintenance exactly when a window that names it is open by its plan: looking eight days
  to both sides of the present misses no occurrence of a window the requests accept, in any zone.\<close>

theorem silence_is_planned:
  assumes "zone_ok z" "\<forall>w\<in>set ws. window_ok w"
  shows "mw_active ws now z = ({i. \<exists>w\<in>set ws. planned w z now \<and> i \<in> set (mw_server_ids w)},
     {i. \<exists>w\<in>set ws. planned w z now \<and> i \<in> set (mw_check_ids w)})"
proof -
  have "set (filter (\<lambda>w. mw_current w now z \<noteq> None) ws) = {w \<in> set ws. planned w z now}"
    by (intro set_eqI) (use assms(2) current_iff [OF assms(1)] in \<open>simp only: set_filter mem_Collect_eq; blast\<close>)
  then show ?thesis unfolding mw_active_def Let_def by auto
qed

definition utc_zone :: time_zone where
  "utc_zone = \<lparr>z_off = (\<lambda>_. 0), z_fold = (\<lambda>_. False), z_utc = (\<lambda>_ t. t)\<rparr>"

text \<open>Every Thursday from 03:00 to 04:00, first on 1 January 1970.\<close>

definition thursdays :: maint_window where
  "thursdays = \<lparr>mw_id = 1, mw_title = ''patches'', mw_server_ids = [1, 2], mw_check_ids = [], mw_starts = sec 10800, mw_ends = sec 14400,
     mw_repeat = Weekly, mw_weekdays = [3], mw_verify = True, mw_note = [], mw_created_by = ''admin'', mw_verified_end = None\<rparr>"

lemma zone_ok_utc: "zone_ok utc_zone"
  by (simp add: zone_ok_def utc_zone_def day_us_def)

lemma window_ok_thursdays: "window_ok thursdays"
  by (simp add: window_ok_def thursdays_def sec_def day_us_def)

theorem silence_is_planned_witness:
  "planned thursdays utc_zone (1000 * 7 * day_us + sec 11000) \<and>
   mw_active [thursdays] (1000 * 7 * day_us + sec 11000) utc_zone = ({1, 2}, {})"
proof -
  let ?t = "1000 * 7 * day_us + sec 11000"
  have a: "mw_active [thursdays] ?t utc_zone = ({1, 2}, {})" by code_simp
  have "fst (mw_active [thursdays] ?t utc_zone) = {i. \<exists>w\<in>set [thursdays]. planned w utc_zone ?t \<and> i \<in> set (mw_server_ids w)}"
    by (subst silence_is_planned [OF zone_ok_utc]) (simp_all add: window_ok_thursdays)
  then have "planned thursdays utc_zone ?t" unfolding a by auto
  with a show ?thesis by blast
qed

section \<open>Who may change what\<close>

datatype mw_op = Create_window maint_in | Update_window int maint_in | Delete_window int

fun mw_call :: "mw_op \<Rightarrow> user \<Rightarrow> maint_db \<Rightarrow> maint_db answer" where
  "mw_call (Create_window body) u db = create_window body u db"
| "mw_call (Update_window i body) u db = update_window i body u db"
| "mw_call (Delete_window i) u db = delete_window i u db"

definition maint_ok :: "maint_db \<Rightarrow> bool" where
  "maint_ok db \<longleftrightarrow> distinct (map mw_id (md_windows db)) \<and> (\<forall>w\<in>set (md_windows db). mw_id w < md_next db \<and> window_ok w)"

lemma validated:
  assumes "mw_validate body vis = None"
  shows "set (mi_server_ids body) \<subseteq> set (fst vis)" "set (mi_check_ids body) \<subseteq> set (snd vis)" "window_ok (mw_fill body w)"
  using assms by (auto simp: mw_validate_def Let_def window_ok_def mw_fill_def sec_def day_us_def split: if_splits)

lemma fill_ids [simp]:
  "set (mw_server_ids (mw_fill body w)) = set (mi_server_ids body)" "set (mw_check_ids (mw_fill body w)) = set (mi_check_ids body)"
  "mw_id (mw_fill body w) = mw_id w"
  by (simp_all add: mw_fill_def)

lemma own_all:
  assumes "mw_own db u i = Inr w"
  shows "w \<in> set (md_windows db)" "mw_id w = i"
    "set (mw_server_ids w) \<subseteq> set (fst (mw_visible db u))" "set (mw_check_ids w) \<subseteq> set (snd (mw_visible db u))"
  using assms by (auto simp: mw_own_def mw_get_def Let_def find_Some_iff dest: nth_mem split: sum.splits option.splits if_splits)

lemma same_id: "maint_ok db \<Longrightarrow> w \<in> set (md_windows db) \<Longrightarrow> v \<in> set (md_windows db) \<Longrightarrow> mw_id w = mw_id v \<Longrightarrow> w = v"
  by (auto simp: maint_ok_def distinct_map inj_on_def)

lemma create_cases:
  assumes "create_window body u db = Inr db'"
  obtains blank where "mw_validate body (mw_visible db u) = None" "mw_id blank = md_next db"
    "db' = db\<lparr>md_next := md_next db + 1, md_windows := md_windows db @ [mw_fill body blank]\<rparr>"
  using assms that [of "blank_window u (md_next db)"] by (auto simp: create_window_def blank_window_def split: option.splits)

lemma update_cases:
  assumes "update_window i body u db = Inr db'"
  obtains w where "mw_own db u i = Inr w" "mw_validate body (mw_visible db u) = None"
    "db' = db\<lparr>md_windows := map (\<lambda>w. if mw_id w = i then (mw_fill body w)\<lparr>mw_verified_end := None\<rparr> else w) (md_windows db)\<rparr>"
  using assms by (auto simp: update_window_def split: sum.splits option.splits)

lemma delete_cases:
  assumes "delete_window i u db = Inr db'"
  obtains w where "mw_own db u i = Inr w" "db' = db\<lparr>md_windows := filter (\<lambda>w. mw_id w \<noteq> i) (md_windows db)\<rparr>"
  using assms by (auto simp: delete_window_def split: sum.splits)

text \<open>What a request changes: one window, of which the account sees everything before and after.\<close>

definition seen_only :: "maint_db \<Rightarrow> user \<Rightarrow> maint_window \<Rightarrow> bool" where
  "seen_only db u w \<longleftrightarrow> set (mw_server_ids w) \<subseteq> set (fst (mw_visible db u)) \<and> set (mw_check_ids w) \<subseteq> set (snd (mw_visible db u))"

lemma own_seen:
  assumes "maint_ok db" "mw_own db u i = Inr w" "v \<in> set (md_windows db)" "mw_id v = i"
  shows "seen_only db u v"
  using same_id [OF assms(1) own_all(1) [OF assms(2)] assms(3)] own_all [OF assms(2)] assms(4) by (simp add: seen_only_def)

lemma call_changes_seen:
  assumes "maint_ok db" "mw_call op u db = Inr db'"
  shows "{w \<in> set (md_windows db'). \<not> seen_only db u w} = {w \<in> set (md_windows db). \<not> seen_only db u w}"
proof (cases op)
  case (Create_window body)
  with assms(2) obtain blank where c: "mw_validate body (mw_visible db u) = None" "md_windows db' = md_windows db @ [mw_fill body blank]"
    by (auto elim: create_cases)
  have "seen_only db u (mw_fill body blank)" using validated(1,2) [OF c(1)] by (simp add: seen_only_def)
  then show ?thesis by (auto simp: c(2))
next
  case (Update_window i body)
  with assms(2) obtain w where w: "mw_own db u i = Inr w" "mw_validate body (mw_visible db u) = None"
      and db': "md_windows db' = map (\<lambda>w. if mw_id w = i then (mw_fill body w)\<lparr>mw_verified_end := None\<rparr> else w) (md_windows db)"
    by (auto elim: update_cases)
  have "seen_only db u ((mw_fill body v)\<lparr>mw_verified_end := None\<rparr>)" for v
    using validated(1,2) [OF w(2)] by (simp add: seen_only_def)
  with own_seen [OF assms(1) w(1)] show ?thesis unfolding db' by auto
next
  case (Delete_window i)
  with assms(2) obtain w where "mw_own db u i = Inr w" and db': "md_windows db' = filter (\<lambda>w. mw_id w \<noteq> i) (md_windows db)"
    by (auto elim: delete_cases)
  with own_seen [OF assms(1)] show ?thesis unfolding db' by auto
qed

text \<open>C24. Nobody silences, or brings back, the alerts of what they do not see: a request about windows by any account leaves the silence of
  every server and monitor outside its groups and sections as it was, at every moment.\<close>

theorem hidden_stays_as_it_was:
  assumes "maint_ok db" "mw_call op u db = Inr db'"
  shows "fst (mw_active (md_windows db') now z) - set (fst (mw_visible db u)) = fst (mw_active (md_windows db) now z) - set (fst (mw_visible db u))
    \<and> snd (mw_active (md_windows db') now z) - set (snd (mw_visible db u)) = snd (mw_active (md_windows db) now z) - set (snd (mw_visible db u))"
proof -
  have part: "fst (mw_active ws now z) - set (fst (mw_visible db u)) =
        (\<Union>w\<in>{w \<in> set ws. \<not> seen_only db u w}. if mw_current w now z \<noteq> None then set (mw_server_ids w) else {}) - set (fst (mw_visible db u))"
      "snd (mw_active ws now z) - set (snd (mw_visible db u)) =
        (\<Union>w\<in>{w \<in> set ws. \<not> seen_only db u w}. if mw_current w now z \<noteq> None then set (mw_check_ids w) else {}) - set (snd (mw_visible db u))"
    for ws by (auto simp: mw_active_def Let_def seen_only_def)
  show ?thesis unfolding part call_changes_seen [OF assms] by simp
qed

section \<open>A window that names what is gone\<close>

lemma call_ok:
  assumes "maint_ok db" "mw_call op u db = Inr db'"
  shows "maint_ok db'"
proof (cases op)
  case (Create_window body)
  with assms(2) obtain blank where c: "mw_validate body (mw_visible db u) = None" "mw_id blank = md_next db"
      "db' = db\<lparr>md_next := md_next db + 1, md_windows := md_windows db @ [mw_fill body blank]\<rparr>"
    by (auto elim: create_cases)
  show ?thesis using assms(1) validated(3) [OF c(1)] c(2) by (auto simp: maint_ok_def c(3))
next
  case (Update_window i body)
  with assms(2) obtain w where w: "mw_validate body (mw_visible db u) = None"
      and db': "db' = db\<lparr>md_windows := map (\<lambda>w. if mw_id w = i then (mw_fill body w)\<lparr>mw_verified_end := None\<rparr> else w) (md_windows db)\<rparr>"
    by (auto elim: update_cases)
  have ids: "map mw_id (map (\<lambda>w. if mw_id w = i then (mw_fill body w)\<lparr>mw_verified_end := None\<rparr> else w) ws) = map mw_id ws" for ws
    by simp
  have "window_ok ((mw_fill body v)\<lparr>mw_verified_end := None\<rparr>)" for v using validated(3) [OF w, of v] by (simp add: window_ok_def)
  then show ?thesis using assms(1) unfolding maint_ok_def db' by (auto simp: ids simp del: map_map)
next
  case (Delete_window i)
  with assms(2) show ?thesis using assms(1) by (auto simp: maint_ok_def distinct_map inj_on_def elim!: delete_cases)
qed

lemma tick_window_kept: "fst (tick_window now z w) = Some w' \<Longrightarrow> \<exists>v. w' = w\<lparr>mw_verified_end := v\<rparr>"
  by (auto simp: tick_window_def split: if_splits option.splits prod.splits intro: exI [of _ "mw_verified_end w"])

lemma tick_window_repeating: "mw_repeat w \<noteq> Once \<Longrightarrow> fst (tick_window now z w) \<noteq> None"
  by (simp add: tick_window_def mw_finished_def split: option.splits prod.splits)

lemma in_map_filter: "y \<in> set (List.map_filter f xs) \<longleftrightarrow> (\<exists>x\<in>set xs. f x = Some y)"
  by (induction xs) (auto simp: map_filter_simps split: option.splits)

lemma tick_windows: "w' \<in> set (md_windows (fst (maintenance_tick now z db))) \<longleftrightarrow> (\<exists>w\<in>set (md_windows db). fst (tick_window now z w) = Some w')"
  by (simp add: maintenance_tick_def Let_def in_map_filter)

lemma tick_ok:
  assumes "maint_ok db"
  shows "maint_ok (fst (maintenance_tick now z db))"
proof -
  have ids: "map mw_id (List.map_filter fst (map (tick_window now z) ws)) = map mw_id (filter (\<lambda>w. fst (tick_window now z w) \<noteq> None) ws)" for ws
  proof (induction ws)
    case (Cons w ws)
    then show ?case using tick_window_kept [of now z w] by (auto simp: List.map_filter_def)
  qed (simp add: List.map_filter_def)
  have "distinct (map mw_id (md_windows (fst (maintenance_tick now z db))))"
    using assms unfolding maintenance_tick_def Let_def by (simp add: ids maint_ok_def distinct_map_filter)
  moreover have "mw_id w' < md_next db \<and> window_ok w'" if w': "w' \<in> set (md_windows (fst (maintenance_tick now z db)))" for w'
  proof -
    obtain w v where "w \<in> set (md_windows db)" "w' = w\<lparr>mw_verified_end := v\<rparr>" using w' tick_window_kept unfolding tick_windows by blast
    then show ?thesis using assms by (simp add: maint_ok_def window_ok_def)
  qed
  ultimately show ?thesis by (simp add: maint_ok_def maintenance_tick_def Let_def)
qed

text \<open>Everything that happens to the tables after the server \<open>gone\<close> was deleted: requests of any account, ticks, and servers and
  monitors added, deleted or regrouped; ids are not given twice.\<close>

inductive maint_step :: "int \<Rightarrow> maint_db \<Rightarrow> maint_db \<Rightarrow> bool" for gone where
  request: "mw_call op u db = Inr db' \<Longrightarrow> maint_step gone db db'"
| refused: "mw_call op u db = Inl e \<Longrightarrow> maint_step gone db db"
| tick: "maint_step gone db (fst (maintenance_tick now z db))"
| inventory: "gone \<notin> fst ` set servers \<Longrightarrow> maint_step gone db (db\<lparr>md_servers := servers, md_checks := checks\<rparr>)"

lemma unseen_gone: "gone \<notin> fst ` set (md_servers db) \<Longrightarrow> gone \<in> set (mw_server_ids w) \<Longrightarrow> \<not> seen_only db u w"
  by (auto simp: seen_only_def mw_visible_def image_iff)

definition stuck :: "int \<Rightarrow> maint_window \<Rightarrow> maint_db \<Rightarrow> bool" where
  "stuck gone w db \<longleftrightarrow> maint_ok db \<and> gone \<notin> fst ` set (md_servers db) \<and> (\<exists>v. w\<lparr>mw_verified_end := v\<rparr> \<in> set (md_windows db))"

lemma call_inventory: "mw_call op u db = Inr db' \<Longrightarrow> md_servers db' = md_servers db"
  by (cases op) (auto elim: create_cases update_cases delete_cases)

lemma stuck_step:
  assumes "maint_step gone db db'" "stuck gone w db" "gone \<in> set (mw_server_ids w)" "mw_repeat w \<noteq> Once"
  shows "stuck gone w db'"
  using assms(1,2)
proof cases
  case (request op u)
  obtain v where v: "w\<lparr>mw_verified_end := v\<rparr> \<in> set (md_windows db)" using assms(2) by (auto simp: stuck_def)
  have "\<not> seen_only db u (w\<lparr>mw_verified_end := v\<rparr>)" using assms(2,3) by (intro unseen_gone) (auto simp: stuck_def)
  with v call_changes_seen [OF _ request, of] assms(2) have "w\<lparr>mw_verified_end := v\<rparr> \<in> set (md_windows db')" by (auto simp: stuck_def)
  then show ?thesis using assms(2) call_ok [OF _ request] call_inventory [OF request] by (auto simp: stuck_def)
next
  case (tick now z)
  obtain v where v: "w\<lparr>mw_verified_end := v\<rparr> \<in> set (md_windows db)" using assms(2) by (auto simp: stuck_def)
  obtain w' where w': "fst (tick_window now z (w\<lparr>mw_verified_end := v\<rparr>)) = Some w'"
    using tick_window_repeating [of "w\<lparr>mw_verified_end := v\<rparr>" now z] assms(4) by auto
  from tick_window_kept [OF this] obtain v' where "w' = w\<lparr>mw_verified_end := v'\<rparr>" by auto
  then have "\<exists>v. w\<lparr>mw_verified_end := v\<rparr> \<in> set (md_windows db')" using v w' unfolding tick tick_windows by blast
  then show ?thesis using assms(2) tick_ok [of db now z] unfolding tick by (auto simp: stuck_def maintenance_tick_def Let_def)
qed (use assms(2) in \<open>auto simp: stuck_def maint_ok_def\<close>)

text \<open>C23. A repeating window that names a deleted server cannot be stopped: whatever requests, ticks and changes of the inventory follow,
  the window stays with its plan, silences its other servers by it, and no account can edit or delete it, an administrator
  included.\<close>

theorem orphan_window_stays:
  assumes "(maint_step gone)\<^sup>*\<^sup>* db db'" "maint_ok db" "gone \<notin> fst ` set (md_servers db)"
    "w \<in> set (md_windows db)" "gone \<in> set (mw_server_ids w)" "mw_repeat w \<noteq> Once"
  shows "(\<exists>v. w\<lparr>mw_verified_end := v\<rparr> \<in> set (md_windows db')) \<and>
    (\<forall>now z. zone_ok z \<and> planned w z now \<longrightarrow> set (mw_server_ids w) \<subseteq> fst (mw_active (md_windows db') now z)) \<and>
    (\<forall>u body. (\<exists>e. update_window (mw_id w) body u db' = Inl e) \<and> (\<exists>e. delete_window (mw_id w) u db' = Inl e))"
proof -
  have "w\<lparr>mw_verified_end := mw_verified_end w\<rparr> \<in> set (md_windows db)" using assms(4) by simp
  then have 0: "stuck gone w db" using assms(2,3) unfolding stuck_def by blast
  have st: "stuck gone w db'" using assms(1)
    by (induction rule: rtranclp_induct) (auto intro: 0 stuck_step [OF _ _ assms(5,6)])
  then obtain v where v: "w\<lparr>mw_verified_end := v\<rparr> \<in> set (md_windows db')" by (auto simp: stuck_def)
  have silent: "set (mw_server_ids w) \<subseteq> fst (mw_active (md_windows db') now z)" if "zone_ok z" "planned w z now" for now z
  proof -
    have "planned (w\<lparr>mw_verified_end := v\<rparr>) z now" using that(2) by simp
    moreover have "window_ok (w\<lparr>mw_verified_end := v\<rparr>)" using st v by (auto simp: stuck_def maint_ok_def)
    ultimately have "mw_current (w\<lparr>mw_verified_end := v\<rparr>) now z \<noteq> None" using current_iff [OF that(1)] by blast
    then have "w\<lparr>mw_verified_end := v\<rparr> \<in> set (filter (\<lambda>w. mw_current w now z \<noteq> None) (md_windows db'))" using v by simp
    then show ?thesis unfolding mw_active_def Let_def fst_conv by fastforce
  qed
  have own: "\<exists>e. mw_own db' u (mw_id w) = Inl e" for u
  proof (cases "mw_own db' u (mw_id w)")
    case (Inr x)
    have "seen_only db' u (w\<lparr>mw_verified_end := v\<rparr>)" by (rule own_seen [OF _ Inr v]) (use st in \<open>simp_all add: stuck_def\<close>)
    moreover have "\<not> seen_only db' u (w\<lparr>mw_verified_end := v\<rparr>)" using st assms(5) by (intro unseen_gone) (auto simp: stuck_def)
    ultimately show ?thesis by blast
  qed simp
  have "(\<exists>e. update_window (mw_id w) body u db' = Inl e) \<and> (\<exists>e. delete_window (mw_id w) u db' = Inl e)" for u body
    using own [of u] by (auto simp: update_window_def delete_window_def)
  with v silent show ?thesis by blast
qed

section \<open>Concrete runs\<close>

text \<open>Server 1 is of the group \<open>web\<close>, server 2 of \<open>db\<close>; the window of every Thursday names server 2 and, when it was made, also
  server 7, which has been deleted since.\<close>

definition demo_maint :: maint_db where
  "demo_maint = \<lparr>md_servers = [(1, Some ''web''), (2, Some ''db'')], md_checks = [], md_next = 2,
     md_windows = [thursdays\<lparr>mw_server_ids := [2, 7]\<rparr>]\<rparr>"

definition demo_body :: maint_in where
  "demo_body = \<lparr>mi_title = ''move'', mi_server_ids = [1], mi_check_ids = [], mi_starts = utc (sec 0), mi_ends = utc (sec 3600),
     mi_repeat = Daily, mi_weekdays = [], mi_verify = False, mi_note = []\<rparr>"

definition editor :: user where
  "editor = user0\<lparr>username := ''web-editor'', role := ''editor'', server_groups := [''web'']\<rparr>"

lemma demo_maint_ok: "maint_ok demo_maint"
  by (simp add: maint_ok_def demo_maint_def thursdays_def window_ok_def sec_def day_us_def)

text \<open>The editor sees server 1 only and silences it; server 2 is silent as before.\<close>

theorem hidden_stays_as_it_was_witness:
  "\<exists>db'. mw_call (Create_window demo_body) editor demo_maint = Inr db' \<and>
     fst (mw_active (md_windows demo_maint) (sec 1800) utc_zone) = {} \<and> fst (mw_active (md_windows db') (sec 1800) utc_zone) = {1} \<and>
     (\<forall>t. 2 \<in> fst (mw_active (md_windows db') t utc_zone) \<longleftrightarrow> 2 \<in> fst (mw_active (md_windows demo_maint) t utc_zone))"
proof -
  have "case mw_call (Create_window demo_body) editor demo_maint of Inl _ \<Rightarrow> False | Inr db' \<Rightarrow>
      fst (mw_active (md_windows demo_maint) (sec 1800) utc_zone) = {} \<and> fst (mw_active (md_windows db') (sec 1800) utc_zone) = {1}"
    by code_simp
  then obtain db' where db': "mw_call (Create_window demo_body) editor demo_maint = Inr db'"
      "fst (mw_active (md_windows demo_maint) (sec 1800) utc_zone) = {}" "fst (mw_active (md_windows db') (sec 1800) utc_zone) = {1}"
    by (auto split: sum.splits)
  have v: "2 \<notin> set (fst (mw_visible demo_maint editor))" by code_simp
  have "2 \<in> fst (mw_active (md_windows db') t utc_zone) \<longleftrightarrow> 2 \<in> fst (mw_active (md_windows demo_maint) t utc_zone)" for t
    using hidden_stays_as_it_was [OF demo_maint_ok db'(1), of t utc_zone] v by blast
  with db' show ?thesis by blast
qed

theorem orphan_window_stays_witness:
  "\<exists>db' w. (maint_step 7)\<^sup>*\<^sup>* demo_maint db' \<and> delete_window 1 user0 demo_maint = Inl (ApiError 403 ''others_inside'') \<and>
     mw_repeat w = Weekly \<and> (\<exists>v. w\<lparr>mw_verified_end := v\<rparr> \<in> set (md_windows db')) \<and>
     2 \<in> fst (mw_active (md_windows db') (1000 * 7 * day_us + sec 11000) utc_zone)"
proof -
  let ?w = "thursdays\<lparr>mw_server_ids := [2, 7]\<rparr>"
  let ?db = "fst (maintenance_tick (day_us + sec 14500) utc_zone demo_maint)"
  let ?t = "1000 * 7 * day_us + sec 11000"
  have refused: "delete_window 1 user0 demo_maint = Inl (ApiError 403 ''others_inside'')" by code_simp
  then have "maint_step 7 demo_maint demo_maint" using maint_step.refused [of "Delete_window 1" user0] by simp
  then have run: "(maint_step 7)\<^sup>*\<^sup>* demo_maint ?db" using maint_step.tick by (meson converse_rtranclp_into_rtranclp r_into_rtranclp)
  have "planned ?w utc_zone ?t"
    by (simp add: planned_def thursdays_def start_on_def local_wall_def utc_zone_def mw_days_def)
       (rule exI [of _ "epoch_ord + 7000"], code_simp)
  moreover have "7 \<notin> fst ` set (md_servers demo_maint)" "?w \<in> set (md_windows demo_maint)" "mw_repeat ?w \<noteq> Once" "7 \<in> set (mw_server_ids ?w)"
    by (simp_all add: demo_maint_def thursdays_def)
  ultimately have "(\<exists>v. ?w\<lparr>mw_verified_end := v\<rparr> \<in> set (md_windows ?db)) \<and> set (mw_server_ids ?w) \<subseteq> fst (mw_active (md_windows ?db) ?t utc_zone)"
    using orphan_window_stays [OF run demo_maint_ok] zone_ok_utc by blast
  moreover have "mw_repeat ?w = Weekly" "2 \<in> set (mw_server_ids ?w)" by (simp_all add: thursdays_def)
  ultimately show ?thesis using run refused by blast
qed

end
