(* ===== verification/Spec2Isabelle.thy ===== *)
theory Spec2Isabelle
  imports Site_Alarms Alarm_Members Report_Progress Server_Delivery Traffic Autoban Maintenance Tunnels Net_Trust Totp
begin

text \<open>
  Kervax is a monitoring panel: agents on servers report to it, it probes sites, keeps the state of both, and tells
  people when something is wrong.  This development models the decision logic of its Python backend
  (\<open>src/backend/app\<close>) and proves the properties the panel is trusted for: nobody guesses a password or keeps a session
  they lost, a redirect does not lead a probe into the inner network, an alarm is raised when it should be and ends once,
  a term is announced once, servers do not stand behind themselves.

  \<^bold>\<open>The parts of the program and the theories\<close>

  \<^item> \<open>Py_Base\<close>, \<open>Py_Datetime\<close>, \<open>Py_Ipaddress\<close>: the prelude.  The language and its standard library as the code uses
    them: exceptions as \<open>'a res = exc + 'a\<close> with \<open>rbind\<close>, JSON values \<open>py\<close> and dicts in insertion order, \<open>str\<close>
    operations, \<open>int()\<close> and truth values; \<open>datetime\<close> with \<open>isoformat\<close>/\<open>fromisoformat\<close> and the Gregorian calendar;
    \<open>ipaddress\<close> with its parsers and registries.
  \<^item> \<open>Panel_Rows\<close> and \<open>Check_Rows\<close>: the columns of \<open>models.Server\<close>, \<open>models.Check\<close> and its tables, \<open>config.Settings\<close>,
    \<open>checks.CheckOutcome\<close>, \<open>collector.Pending\<close>, with the fields the modelled operations read or write.
  \<^item> \<open>Net_Trust\<close>: whom the panel believes on the network.  \<open>client_ip.py\<close> (address of a visitor behind the proxies),
    \<open>agent_auth.py\<close> (source of an agent's request), \<open>net_guard.py\<close> (redirects of the panel's own requests).
  \<^item> \<open>Totp\<close>: \<open>totp.py\<close> with SHA-1, HMAC and base 32 written out on words.
  \<^item> \<open>Accounts\<close>: signing in.  \<open>ratelimit.py\<close>, \<open>audit.py\<close>, \<open>api/auth.py\<close>, \<open>api/login_guard.py\<close> as functions on one
    state \<open>world\<close> (users, failures, bans, audit log, settings, impersonations); bcrypt and JWT are the parameter \<open>crypto\<close>.
  \<^item> \<open>Access\<close>: \<open>deps.get_current_user\<close>, \<open>auth_generations.py\<close>, \<open>api/users.py\<close>, impersonation, on the same state.
  \<^item> \<open>Tunnels\<close>: \<open>relay.py\<close> and \<open>gre.py\<close>: addresses, allocation of tunnel networks, what a card shows.
  \<^item> \<open>Site_Health\<close>, \<open>Known\<close>: \<open>flaky.py\<close>, \<open>site_flap.py\<close>, \<open>known.py\<close>: pure decisions about the history of one monitor.
  \<^item> \<open>Expiry\<close>: terms of certificates and domains (\<open>expiry_snooze.py\<close>, \<open>collector.DomainAlerts\<close>,
    \<open>collector._apply_expiry\<close>, \<open>api/checks.expiry_snooze_check\<close>).
  \<^item> \<open>Presence\<close>: is a server there (\<open>going_down.py\<close>, \<open>boot_warmup.py\<close>, the pause of the panel, the alert "unreachable").
  \<^item> \<open>Parents\<close>: \<open>parents.py\<close> and the change of a parent in \<open>api/servers.py\<close>.
  \<^item> \<open>Site_Monitor\<close>: the life of a monitor: \<open>collector.record_outcome\<close> with all it calls, the pass of
    \<open>run_due_checks\<close>, the marks written by \<open>_send_alerts\<close>, the binding of local probes.  It calls \<open>Site_Health\<close>,
    \<open>Known\<close>, \<open>Expiry\<close> and \<open>Parents\<close>; \<open>Site_Alarms\<close> holds what it guarantees.
  \<^item> \<open>Alarm_Hold\<close>: the alerts about servers that wait before they are raised and before they end (\<open>fill_alert.step\<close>,
    \<open>sustain\<close> and \<open>sustain_lvl\<close> of \<open>collector._server_conditions\<close>), and the common hold of the all-clear.
  \<^item> \<open>Alarm_Members\<close>: one tick of the loop of \<open>collector.evaluate_servers\<close> for a kind of alert that names several broken
    things: silent repeats, news, the all-clear, and the writes that wait for the delivery of a message; the tick of a kind
    that is muted or passed over (\<open>muted_tick\<close>, \<open>held_tick\<close>) and of a server in a snooze or in maintenance (\<open>quiet_tick\<close>).
  \<^item> \<open>Report_Progress\<close>: \<open>report_progress.py\<close>, whether a report is a new observation or an old one replayed.
  \<^item> \<open>Dispatch\<close>: \<open>alerts.dispatch\<close> and all it calls: storms of equal messages merged, the common chat, the webhook, the chats of
    groups and what falls back from them, people, and the answer which messages need no repeat.
  \<^item> \<open>Server_Delivery\<close>: the end of \<open>collector.evaluate_servers\<close>: the notice that the panel gets no reports, messages held back
    (\<open>onboard.split\<close>, \<open>dev_mode.split\<close>), and the state written only as far as \<open>Dispatch\<close> delivered.

  \<^item> \<open>Traffic\<close>: \<open>traffic.py\<close>: the counters of a server's network cards added up into days and billing periods, and the alert
    about the limit of its tariff.
  \<^item> \<open>Autoban\<close>: \<open>autoban.py\<close>: the history of the bans a helper reports, the digest that tells them, and what raises an alert.
  \<^item> \<open>Maintenance\<close>: \<open>maint.py\<close>, \<open>api/maintenance.py\<close> and \<open>collector.maintenance_tick\<close>: the plan of a window in the zone of
    the alerts, who is silent now, the requests of accounts that see only a part of the servers.

  \<^bold>\<open>How state and operations correspond to the code\<close>

  A database table is a list of records, in the order of its ids; a session that reads and writes rows is a function from
  the tables to the tables, and an exception before the commit gives back no tables.  A JSON column is a \<open>py\<close> value, so that
  what the code does with malformed content is part of the model.  Each handler is one definition with every guard and
  early return of the source; a helper of the source is a definition of the same name, and a definition whose name would
  clash carries a prefix (\<open>flaky_WINDOW\<close>, \<open>relay_view\<close>).  Moments are microseconds; \<open>now\<close> is an argument.

  \<^bold>\<open>What the lemmas show\<close>

  \<^item> Safety over runs: \<open>Accounts\<close> (the rate of guesses, one-time codes never used twice), \<open>Access\<close> (ended sessions stay
    ended, there is always an administrator, view-only and impersonated requests change nothing), \<open>Net_Trust\<close> (chains of
    redirects; forged headers), \<open>Site_Alarms\<close> (incidents follow the status, outage alarms and their ends take turns, confirmation
    before an alarm, one message per domain), \<open>Expiry\<close> (thresholds tighten), \<open>Alarm_Hold\<close> (hold and calm over any run of
    ticks), \<open>Alarm_Members\<close> (each broken thing told at most once while its alert is open, the all-clear confirmed),
    \<open>Report_Progress\<close> (stale reports), \<open>Parents\<close> (no loops), \<open>Dispatch\<close> and \<open>Server_Delivery\<close> (no message is lost but
    an out-of-memory alert that may have arrived; a problem is noted as told only when it was), \<open>Autoban\<close> (a ban is
    announced once), \<open>Maintenance\<close> (who may silence what; a window nobody can stop).  The runs are inductive relations
    whose steps are the modelled operations with any other operation interleaved; the invariants are proved by rule
    induction.
  \<^item> Exact behaviour, errors included: the agent source guard, the allocation of a tunnel network, the alert
    "unreachable", the walk that looks for a loop, the terms put off by a person, the billing period,
    the silence of maintenance against its plan over all days.
  \<^item> Refinement: the daily rows of \<open>Traffic\<close> against a meter that sees every byte.
  \<^item> Interfaces as locales: \<open>trusted_chain\<close> (a header read from the right while the hops are trusted; interpreted for
    visitors and for agents), \<open>courier\<close> (what is reported as delivered was told; interpreted for \<open>dispatch\<close>, used for the
    writes of a tick), \<open>raise_hold\<close> and \<open>held_alarm\<close> (a routine that holds an alarm; interpreted for the three
    routines of the panel).

  \<^bold>\<open>Bounds\<close>

  No definition uses fuel: loops are recursions on lists, or \<open>function\<close>s with a termination proof (the walk along the
  parents ends because every step leaves fewer unseen servers).  Floats are exact rationals where the code computes with
  them; rounding of float arithmetic is not modelled.  Characters are code points below 256.

  \<^bold>\<open>Not modelled\<close>

  The texts of messages (a datatype with one constructor per template stands for them), the protocol of Telegram (the answer to each request is
  an argument), the
  probes themselves (HTTP, DNS, TLS, registries: their outcome is an argument), SQL and its concurrency (an operation is
  atomic), the parsers of agent reports for single subsystems (disks, databases, Kubernetes, GPUs, backups and so on),
  the web interface, the agents, installers and helpers written in shell, migrations.
\<close>

end
